(* ===== verification/Ratect_Prelude.thy ===== *)
theory Ratect_Prelude
  imports Main "HOL-Library.Char_ord" "HOL-Library.List_Lexorder"
begin

text \<open>
  What every component of the development shares: the result type that stands for Rust's
  \<open>Result\<close>, its \<open>?\<close> operator (\<open>rbind\<close>), the fallible \<open>for\<close> loop (\<open>fold_res\<close>) with its
  invariant rules, insertion-ordered maps (\<open>IndexMap\<close>) as association lists, and generic
  lemmas on finite relations and lists.

  The program's text is \<open>string\<close>: each HOL character stands for one Rust \<open>char\<close>, the Unicode
  scalar value with the same number, so the model covers the scalar values U+0000 to U+00FF.
  Strings are ordered by their characters' numbers, as Rust's \<open>str\<close> order is.
\<close>

section \<open>Collections of facts\<close>

named_theorems result_simps \<open>equations of the result type and its operations\<close>
named_theorems loop_rules \<open>invariant rules of the fallible loop\<close>

section \<open>Results\<close>

type_synonym ('e, 'a) result = "'e + 'a"

abbreviation Ok :: "'a \<Rightarrow> ('e, 'a) result" where
  "Ok \<equiv> Inr"

abbreviation Err :: "'e \<Rightarrow> ('e, 'a) result" where
  "Err \<equiv> Inl"

text \<open>Rust's \<open>?\<close>: continue with the value, return the error.\<close>

fun rbind :: "('e, 'a) result \<Rightarrow> ('a \<Rightarrow> ('e, 'b) result) \<Rightarrow> ('e, 'b) result" where
  "rbind (Inl e) f = Inl e"
| "rbind (Inr x) f = f x"

fun is_ok :: "('e, 'a) result \<Rightarrow> bool" where
  "is_ok (Inl _) = False"
| "is_ok (Inr _) = True"

fun map_err :: "('e \<Rightarrow> 'f) \<Rightarrow> ('e, 'a) result \<Rightarrow> ('f, 'a) result" where
  "map_err f (Inl e) = Inl (f e)"
| "map_err f (Inr x) = Inr x"

lemma rbind_eq_Ok [simp]: "rbind r f = Inr y \<longleftrightarrow> (\<exists>x. r = Inr x \<and> f x = Inr y)"
  by (cases r) auto

lemma rbind_eq_Err [simp]: "rbind r f = Inl e \<longleftrightarrow> r = Inl e \<or> (\<exists>x. r = Inr x \<and> f x = Inl e)"
  by (cases r) auto

lemma rbind_cong [fundef_cong]:
  "r = r' \<Longrightarrow> (\<And>x. r' = Inr x \<Longrightarrow> f x = g x) \<Longrightarrow> rbind r f = rbind r' g"
  by (cases r') auto

lemma is_ok_iff: "is_ok r \<longleftrightarrow> (\<exists>x. r = Inr x)"
  by (cases r) auto

lemma map_err_eq_Ok [simp]: "map_err f r = Inr x \<longleftrightarrow> r = Inr x"
  by (cases r) auto

lemma map_err_eq_Err [simp]: "map_err f r = Inl e \<longleftrightarrow> (\<exists>e'. r = Inl e' \<and> e = f e')"
  by (cases r) auto

text \<open>Early returns: a guard, and a lookup that fails.\<close>

lemma guard_Ok [result_simps]: "(if b then Inl e else r) = Inr y \<longleftrightarrow> \<not> b \<and> r = Inr y"
  by simp

lemma guard_Err [result_simps]:
  "(if b then Inl e else r) = Inl e' \<longleftrightarrow> (b \<and> e = e') \<or> (\<not> b \<and> r = Inl e')"
  by simp

lemma case_Ok [result_simps]:
  "(case x of None \<Rightarrow> Inl e | Some y \<Rightarrow> f y) = Inr z \<longleftrightarrow> (\<exists>y. x = Some y \<and> f y = Inr z)"
  by (cases x) auto

lemma case_Err [result_simps]:
  "(case x of None \<Rightarrow> Inl e | Some y \<Rightarrow> f y) = Inl e' \<longleftrightarrow>
     (x = None \<and> e = e') \<or> (\<exists>y. x = Some y \<and> f y = Inl e')"
  by (cases x) auto

declare is_ok_iff [result_simps]

section \<open>The fallible loop\<close>

text \<open>
  \<^verbatim>\<open>for x in xs { state = f(x, state)?; }\<close>: the loop stops at the first error. The
  congruence rule tells \<^theory_text>\<open>function\<close> that the body runs on elements of the list only.
\<close>

fun fold_res :: "('a \<Rightarrow> 's \<Rightarrow> ('e, 's) result) \<Rightarrow> 'a list \<Rightarrow> 's \<Rightarrow> ('e, 's) result" where
  "fold_res f [] s = Inr s"
| "fold_res f (x # xs) s = rbind (f x s) (fold_res f xs)"

lemma fold_res_cong [fundef_cong]:
  "xs = ys \<Longrightarrow> s = t \<Longrightarrow> (\<And>x u. x \<in> set ys \<Longrightarrow> f x u = g x u) \<Longrightarrow>
     fold_res f xs s = fold_res g ys t"
proof (induction xs arbitrary: ys s t)
  case (Cons x xs)
  then show ?case by (cases "g x t") auto
qed simp

lemma fold_res_inv [loop_rules]:
  assumes "fold_res f xs s = Inr t" and "P s"
    and "\<And>x u v. x \<in> set xs \<Longrightarrow> P u \<Longrightarrow> f x u = Inr v \<Longrightarrow> P v"
  shows "P t"
  using assms
proof (induction xs arbitrary: s)
  case (Cons x xs)
  from Cons.prems(1) obtain u where u: "f x s = Inr u" and rest: "fold_res f xs u = Inr t"
    by auto
  from u Cons.prems have "P u" by auto
  with rest show ?case by (rule Cons.IH) (use Cons.prems(3) in auto)
qed simp

text \<open>An invariant indexed by the elements still to come, for loops whose later steps rely on
  what the earlier ones did.\<close>

lemma fold_res_inv_prefix [loop_rules]:
  assumes "fold_res f xs s = Inr t" and "P [] s"
    and "\<And>ys x zs u v. xs = ys @ x # zs \<Longrightarrow> P ys u \<Longrightarrow> f x u = Inr v \<Longrightarrow> P (ys @ [x]) v"
  shows "P xs t"
proof -
  have "P (us @ xs') t'"
    if "fold_res f xs' s' = Inr t'" "xs = us @ xs'" "P us s'" for us xs' s' t'
    using that
  proof (induction xs' arbitrary: us s')
    case (Cons x xs')
    from Cons.prems(1) obtain u where "f x s' = Inr u" and "fold_res f xs' u = Inr t'"
      by auto
    with Cons.prems assms(3)[of us x xs' s' u] Cons.IH[of u "us @ [x]"] show ?case by simp
  qed simp
  from this[of xs s t "[]"] assms(1,2) show ?thesis by simp
qed

lemma fold_res_Err [loop_rules]:
  assumes "fold_res f xs s = Inl e" and "P s"
    and "\<And>x u v. x \<in> set xs \<Longrightarrow> P u \<Longrightarrow> f x u = Inr v \<Longrightarrow> P v"
  obtains x u where "x \<in> set xs" and "P u" and "f x u = Inl e"
  using assms
proof (induction xs arbitrary: s thesis)
  case (Cons x xs)
  show ?case
  proof (cases "f x s")
    case (Inl a)
    with Cons.prems show ?thesis by auto
  next
    case (Inr u)
    with Cons.prems(2) have rest: "fold_res f xs u = Inl e" by simp
    have Pu: "P u" using Inr Cons.prems(3,4) by auto
    show ?thesis
    proof (rule Cons.IH[OF _ rest Pu])
      fix y v
      assume "y \<in> set xs" "P v" "f y v = Inl e"
      then show thesis using Cons.prems(1) by auto
    next
      fix y v w
      assume "y \<in> set xs" "P v" "f y v = Inr w"
      then show "P w" using Cons.prems(4) by auto
    qed
  qed
qed simp

lemma fold_res_append:
  "fold_res f (xs @ ys) s = rbind (fold_res f xs s) (fold_res f ys)"
proof (induction xs arbitrary: s)
  case (Cons x xs)
  then show ?case by (cases "f x s") auto
qed simp

lemma fold_res_total:
  assumes "\<And>x s. x \<in> set xs \<Longrightarrow> \<exists>t. f x s = Inr t"
  shows "\<exists>t. fold_res f xs s = Inr t"
  using assms
proof (induction xs arbitrary: s)
  case (Cons x xs)
  obtain u where "f x s = Inr u" using Cons.prems[of x s] by auto
  with Cons show ?case by auto
qed simp

text \<open>
  A loop that only checks: \<^verbatim>\<open>for x in xs { f(x)?; }\<close>.
\<close>

fun each_res :: "('a \<Rightarrow> ('e, unit) result) \<Rightarrow> 'a list \<Rightarrow> ('e, unit) result" where
  "each_res f [] = Inr ()"
| "each_res f (x # xs) = rbind (f x) (\<lambda>_. each_res f xs)"

lemma each_res_Ok [simp]: "each_res f xs = Inr () \<longleftrightarrow> (\<forall>x \<in> set xs. f x = Inr ())"
  by (induction xs) auto

text \<open>The error of such a loop is the one its first failing element gives.\<close>

lemma each_res_Err:
  "each_res f xs = Inl e \<longleftrightarrow>
     (\<exists>ys x zs. xs = ys @ x # zs \<and> (\<forall>y \<in> set ys. f y = Inr ()) \<and> f x = Inl e)"
proof (induction xs)
  case (Cons a xs)
  show ?case
  proof (cases "f a")
    case (Inl b)
    then have "(\<forall>y \<in> set ys. f y = Inr ()) \<and> a # xs = ys @ x # zs \<longrightarrow> ys = []" for ys x zs
      by (cases ys) auto
    with Inl show ?thesis by fastforce
  next
    case (Inr b)
    have "(\<exists>ys x zs. a # xs = ys @ x # zs \<and> (\<forall>y \<in> set ys. f y = Inr ()) \<and> f x = Inl e) \<longleftrightarrow>
          (\<exists>ys x zs. xs = ys @ x # zs \<and> (\<forall>y \<in> set ys. f y = Inr ()) \<and> f x = Inl e)"
      (is "?L \<longleftrightarrow> ?R")
    proof
      assume ?L
      then obtain ys x zs where eq: "a # xs = ys @ x # zs"
        and ok: "\<forall>y \<in> set ys. f y = Inr ()" and fx: "f x = Inl e" by blast
      with Inr obtain ys' where "ys = a # ys'" by (cases ys) auto
      with eq ok fx show ?R by auto
    next
      assume ?R
      then obtain ys x zs where "xs = ys @ x # zs" "\<forall>y \<in> set ys. f y = Inr ()" "f x = Inl e" by blast
      then have "a # xs = (a # ys) @ x # zs \<and> (\<forall>y \<in> set (a # ys). f y = Inr ()) \<and> f x = Inl e"
        using Inr by simp
      then show ?L by blast
    qed
    with Inr Cons show ?thesis by simp
  qed
qed simp

fun map_res :: "('a \<Rightarrow> ('e, 'b) result) \<Rightarrow> 'a list \<Rightarrow> ('e, 'b list) result" where
  "map_res f [] = Inr []"
| "map_res f (x # xs) = rbind (f x) (\<lambda>y. rbind (map_res f xs) (\<lambda>ys. Inr (y # ys)))"

lemma map_res_Ok: "map_res f xs = Inr ys \<longleftrightarrow> list_all2 (\<lambda>x y. f x = Inr y) xs ys"
  by (induction xs arbitrary: ys) (auto simp: list_all2_Cons1)

lemma map_res_total:
  "(\<And>x. x \<in> set xs \<Longrightarrow> \<exists>y. f x = Inr y) \<Longrightarrow> \<exists>ys. map_res f xs = Inr ys"
proof (induction xs)
  case (Cons x xs)
  obtain y where "f x = Inr y" using Cons.prems[of x] by auto
  with Cons show ?case by auto
qed simp

section \<open>Options\<close>

text \<open>\<open>Option::or\<close>.\<close>

definition opt_or :: "'a option \<Rightarrow> 'a option \<Rightarrow> 'a option" where
  "opt_or a b = (case a of None \<Rightarrow> b | Some x \<Rightarrow> Some x)"

lemma opt_or_simps [simp]: "opt_or None b = b" "opt_or (Some x) b = Some x"
  by (simp_all add: opt_or_def)

section \<open>Insertion-ordered maps\<close>

text \<open>
  An \<open>IndexMap\<close> is an association list with distinct keys. \<open>im_insert\<close> replaces a present
  key's value in place and appends a new key, as \<open>IndexMap::insert\<close> does.
\<close>

type_synonym 'v index_map = "(string \<times> 'v) list"

definition im_keys :: "'v index_map \<Rightarrow> string list" where
  "im_keys m = map fst m"

definition im_get :: "'v index_map \<Rightarrow> string \<Rightarrow> 'v option" where
  "im_get m k = map_of m k"

definition im_contains :: "'v index_map \<Rightarrow> string \<Rightarrow> bool" where
  "im_contains m k \<longleftrightarrow> k \<in> set (im_keys m)"

fun im_insert :: "'v index_map \<Rightarrow> string \<Rightarrow> 'v \<Rightarrow> 'v index_map" where
  "im_insert [] k v = [(k, v)]"
| "im_insert ((k', v') # m) k v = (if k' = k then (k, v) # m else (k', v') # im_insert m k v)"

definition im_ok :: "'v index_map \<Rightarrow> bool" where
  "im_ok m \<longleftrightarrow> distinct (im_keys m)"

lemma im_keys_simps [simp]: "im_keys [] = []" "im_keys ((k, v) # m) = k # im_keys m"
  by (simp_all add: im_keys_def)

lemma im_keys_map [simp]: "im_keys (map (\<lambda>n. (n, f n)) ns) = ns"
  by (simp add: im_keys_def comp_def)

lemma im_get_simps [simp]:
  "im_get [] k = None" "im_get ((k', v) # m) k = (if k = k' then Some v else im_get m k)"
  by (simp_all add: im_get_def)

lemma im_get_None [simp]: "im_get m k = None \<longleftrightarrow> k \<notin> set (im_keys m)"
  by (simp add: im_get_def im_keys_def map_of_eq_None_iff)

lemma im_get_absent [simp]: "k \<notin> set (im_keys m) \<Longrightarrow> im_get m k = None"
  by simp

lemma im_get_Some_key: "im_get m k = Some v \<Longrightarrow> k \<in> set (im_keys m)"
  using im_get_None[of m k] by fastforce

lemma im_get_in: "im_get m k = Some v \<Longrightarrow> (k, v) \<in> set m"
  by (simp add: im_get_def map_of_SomeD)

lemma im_get_key: "k \<in> set (im_keys m) \<Longrightarrow> \<exists>v. im_get m k = Some v"
  using im_get_None[of m k] by (cases "im_get m k") auto

lemma im_get_ok: "im_ok m \<Longrightarrow> (k, v) \<in> set m \<Longrightarrow> im_get m k = Some v"
  by (simp add: im_ok_def im_get_def im_keys_def)

lemma im_get_insert [simp]: "im_get (im_insert m k v) = (im_get m)(k \<mapsto> v)"
  by (induction m k v rule: im_insert.induct) (auto simp: fun_eq_iff)

lemma im_keys_insert [simp]:
  "im_keys (im_insert m k v) = (if k \<in> set (im_keys m) then im_keys m else im_keys m @ [k])"
  by (induction m k v rule: im_insert.induct) auto

lemma im_ok_insert [simp]: "im_ok m \<Longrightarrow> im_ok (im_insert m k v)"
  by (simp add: im_ok_def)

text \<open>\<open>extend\<close>: each entry of the second map is inserted.\<close>

definition im_extend :: "'v index_map \<Rightarrow> 'v index_map \<Rightarrow> 'v index_map" where
  "im_extend m n = foldl (\<lambda>m (k, v). im_insert m k v) m n"

lemma im_extend_simps [simp]:
  "im_extend m [] = m" "im_extend m ((k, v) # n) = im_extend (im_insert m k v) n"
  by (simp_all add: im_extend_def)

lemma im_ok_Cons [simp]: "im_ok ((k, v) # m) \<longleftrightarrow> k \<notin> set (im_keys m) \<and> im_ok m"
  by (simp add: im_ok_def)

lemma im_ok_Nil [simp]: "im_ok []"
  by (simp add: im_ok_def)

lemma im_ok_extend [simp]: "im_ok m \<Longrightarrow> im_ok (im_extend m n)"
  by (induction n arbitrary: m) auto

lemma im_get_extend: "im_ok n \<Longrightarrow> im_get (im_extend m n) k = opt_or (im_get n k) (im_get m k)"
proof (induction n arbitrary: m)
  case (Cons e n)
  then show ?case by (cases e) (auto simp: opt_or_def split: option.split dest: im_get_Some_key)
qed simp

lemma im_keys_extend [simp]: "set (im_keys (im_extend m n)) = set (im_keys m) \<union> set (im_keys n)"
proof (induction n arbitrary: m)
  case (Cons e n)
  then show ?case by (cases e) auto
qed simp

text \<open>\<open>entry(k).or_insert(v)\<close>.\<close>

definition or_insert :: "'v index_map \<Rightarrow> string \<Rightarrow> 'v \<Rightarrow> 'v index_map" where
  "or_insert m k v = (if im_contains m k then m else im_insert m k v)"

lemma im_get_or_insert [simp]: "im_get (or_insert m k v) = (\<lambda>x. if x = k then opt_or (im_get m k) (Some v) else im_get m x)"
  using im_get_key[of k m] by (auto simp: or_insert_def im_contains_def fun_eq_iff)

lemma im_ok_or_insert [simp]: "im_ok m \<Longrightarrow> im_ok (or_insert m k v)"
  by (simp add: or_insert_def)

section \<open>Finite relations\<close>

lemma acyclic_by_rank:
  assumes "\<And>x y. (x, y) \<in> r \<Longrightarrow> f y < (f x :: nat)"
  shows "acyclic r"
proof -
  have "r\<inverse> \<subseteq> measure f" using assms by auto
  then have "wf (r\<inverse>)" by (rule wf_subset[OF wf_measure])
  then show ?thesis using wf_acyclic acyclic_converse by blast
qed

lemma Image_closed_rtrancl:
  assumes "(x, y) \<in> r\<^sup>*" and "x \<in> A" and "\<And>u v. u \<in> A \<Longrightarrow> (u, v) \<in> r \<Longrightarrow> v \<in> A"
  shows "y \<in> A"
  using assms by (induction rule: rtrancl_induct) auto

section \<open>Lists\<close>

lemma dropWhile_length [simp]: "length (dropWhile P xs) \<le> length xs"
  by (induction xs) auto

lemma insort_key_remdups_set [simp]: "set (remdups (sort xs)) = set xs"
  by simp

end
