(* ===== verification/Rust_Std.thy ===== *)
theory Rust_Std
  imports Ratect_Prelude "HOL-Library.Word"
begin

text \<open>
  The parts of Rust's standard library the modelled code calls on text and numbers: the
  character classes (on U+0000 to U+00FF), \<open>split_once\<close>, \<open>splitn\<close>, \<open>split\<close>, \<open>join\<close>,
  \<open>strip_prefix\<close>, \<open>strip_suffix\<close>, \<open>trim\<close>, ASCII case folding, integer parsing with its
  range check, decimal printing, and \<open>Vec::dedup\<close>. The lemmas are the round trips and the
  shape facts the components use.
\<close>

section \<open>Characters\<close>

definition char_code :: "char \<Rightarrow> nat" where
  "char_code c = of_char c"

definition is_ascii_digit :: "char \<Rightarrow> bool" where
  "is_ascii_digit c \<longleftrightarrow> 48 \<le> char_code c \<and> char_code c \<le> 57"

definition is_ascii_lower :: "char \<Rightarrow> bool" where
  "is_ascii_lower c \<longleftrightarrow> 97 \<le> char_code c \<and> char_code c \<le> 122"

definition is_ascii_upper :: "char \<Rightarrow> bool" where
  "is_ascii_upper c \<longleftrightarrow> 65 \<le> char_code c \<and> char_code c \<le> 90"

definition is_ascii_alphabetic :: "char \<Rightarrow> bool" where
  "is_ascii_alphabetic c \<longleftrightarrow> is_ascii_lower c \<or> is_ascii_upper c"

definition is_ascii_alphanumeric :: "char \<Rightarrow> bool" where
  "is_ascii_alphanumeric c \<longleftrightarrow> is_ascii_alphabetic c \<or> is_ascii_digit c"

text \<open>
  \<open>char::is_alphanumeric\<close>: the Unicode properties Alphabetic and Numeric on U+0000 to U+00FF.
  Beyond ASCII these are the letters of Latin-1 (all of U+00C0 to U+00FF but the two operator
  signs U+00D7 and U+00F7), the ordinal indicators and the micro sign, the superscript digits
  and the vulgar fractions.
\<close>

definition is_alphanumeric :: "char \<Rightarrow> bool" where
  "is_alphanumeric c \<longleftrightarrow>
     is_ascii_alphanumeric c \<or>
     (192 \<le> char_code c \<and> char_code c \<noteq> 215 \<and> char_code c \<noteq> 247) \<or>
     char_code c \<in> {170, 178, 179, 181, 185, 186, 188, 189, 190}"

text \<open>\<open>char::is_whitespace\<close> (White\_Space) and \<open>char::is_control\<close> (Cc) on the same range.\<close>

definition is_whitespace :: "char \<Rightarrow> bool" where
  "is_whitespace c \<longleftrightarrow> char_code c \<in> {9, 10, 11, 12, 13, 32, 133, 160}"

definition is_control :: "char \<Rightarrow> bool" where
  "is_control c \<longleftrightarrow> char_code c < 32 \<or> (127 \<le> char_code c \<and> char_code c < 160)"

definition to_ascii_lower_char :: "char \<Rightarrow> char" where
  "to_ascii_lower_char c = (if is_ascii_upper c then char_of (char_code c + 32) else c)"

definition to_ascii_lowercase :: "string \<Rightarrow> string" where
  "to_ascii_lowercase s = map to_ascii_lower_char s"

lemmas char_class_defs = is_ascii_digit_def is_ascii_lower_def is_ascii_upper_def
  is_ascii_alphabetic_def is_ascii_alphanumeric_def is_alphanumeric_def is_whitespace_def
  is_control_def char_code_def

section \<open>Prefixes, suffixes and splitting\<close>

fun strip_prefix :: "string \<Rightarrow> string \<Rightarrow> string option" where
  "strip_prefix [] s = Some s"
| "strip_prefix (p # ps) [] = None"
| "strip_prefix (p # ps) (c # cs) = (if p = c then strip_prefix ps cs else None)"

definition starts_with :: "string \<Rightarrow> string \<Rightarrow> bool" where
  "starts_with s p \<longleftrightarrow> strip_prefix p s \<noteq> None"

definition strip_suffix :: "string \<Rightarrow> string \<Rightarrow> string option" where
  "strip_suffix p s = map_option rev (strip_prefix (rev p) (rev s))"

definition ends_with :: "string \<Rightarrow> string \<Rightarrow> bool" where
  "ends_with s p \<longleftrightarrow> strip_suffix p s \<noteq> None"

text \<open>\<open>str::split_once\<close> on one character, at its first occurrence.\<close>

fun split_once :: "char \<Rightarrow> string \<Rightarrow> (string \<times> string) option" where
  "split_once d [] = None"
| "split_once d (c # cs) =
     (if c = d then Some ([], cs)
      else map_option (\<lambda>(a, b). (c # a, b)) (split_once d cs))"

text \<open>\<open>str::split\<close> on one character, and \<open>str::splitn\<close>, whose last part is the unsplit rest.\<close>

fun split :: "char \<Rightarrow> string \<Rightarrow> string list" where
  "split d [] = [[]]"
| "split d (c # cs) =
     (if c = d then [] # split d cs
      else (case split d cs of [] \<Rightarrow> [[c]] | p # ps \<Rightarrow> (c # p) # ps))"

fun splitn :: "nat \<Rightarrow> char \<Rightarrow> string \<Rightarrow> string list" where
  "splitn 0 d s = []"
| "splitn (Suc 0) d s = [s]"
| "splitn (Suc (Suc n)) d s =
     (case split_once d s of None \<Rightarrow> [s] | Some (a, b) \<Rightarrow> a # splitn (Suc n) d b)"

fun join :: "string \<Rightarrow> string list \<Rightarrow> string" where
  "join sep [] = []"
| "join sep [p] = p"
| "join sep (p # q # ps) = p @ sep @ join sep (q # ps)"

definition trim_start :: "string \<Rightarrow> string" where
  "trim_start s = dropWhile is_whitespace s"

definition trim_end :: "string \<Rightarrow> string" where
  "trim_end s = rev (dropWhile is_whitespace (rev s))"

definition trim :: "string \<Rightarrow> string" where
  "trim s = trim_end (trim_start s)"

lemma strip_prefix_Some [simp]: "strip_prefix p s = Some r \<longleftrightarrow> s = p @ r"
  by (induction p s rule: strip_prefix.induct) auto

lemma strip_prefix_None: "strip_prefix p s = None \<longleftrightarrow> (\<forall>r. s \<noteq> p @ r)"
  by (metis not_None_eq strip_prefix_Some)

lemma starts_with_iff: "starts_with s p \<longleftrightarrow> (\<exists>r. s = p @ r)"
  by (simp add: starts_with_def strip_prefix_None)

lemma strip_suffix_Some [simp]: "strip_suffix p s = Some r \<longleftrightarrow> s = r @ p"
proof -
  have "rev s = rev p @ rev r \<longleftrightarrow> s = r @ p" by (metis rev_append rev_rev_ident)
  then show ?thesis by (auto simp: strip_suffix_def)
qed

lemma strip_suffix_None: "strip_suffix p s = None \<longleftrightarrow> (\<forall>r. s \<noteq> r @ p)"
  by (metis not_None_eq strip_suffix_Some)

lemma ends_with_iff: "ends_with s p \<longleftrightarrow> (\<exists>r. s = r @ p)"
  by (simp add: ends_with_def strip_suffix_None)

lemma split_once_None [simp]: "split_once d s = None \<longleftrightarrow> d \<notin> set s"
  by (induction s) auto

lemma split_once_Some [simp]: "split_once d s = Some (a, b) \<longleftrightarrow> s = a @ d # b \<and> d \<notin> set a"
proof (induction s arbitrary: a)
  case (Cons c cs)
  show ?case
  proof (cases "c = d")
    case True
    then show ?thesis by (cases a) auto
  next
    case False
    with Cons show ?thesis by (cases a) auto
  qed
qed simp

lemma split_once_none [simp]: "d \<notin> set s \<Longrightarrow> split_once d s = None"
  by simp

lemma split_once_at [simp]: "d \<notin> set a \<Longrightarrow> split_once d (a @ d # b) = Some (a, b)"
  by simp

lemma split_not_Nil [simp]: "split d s \<noteq> []"
  by (induction d s rule: split.induct) (auto split: list.splits)

lemma join_Cons: "ps \<noteq> [] \<Longrightarrow> join sep (p # ps) = p @ sep @ join sep ps"
  by (cases ps) auto

lemma join_split [simp]: "join [d] (split d s) = s"
proof (induction d s rule: split.induct)
  case (2 d c cs)
  then show ?case
    by (cases "split d cs") (auto simp: join_Cons, metis append_Cons join.simps(2,3) list.exhaust)
qed simp

lemma split_no_sep: "p \<in> set (split d s) \<Longrightarrow> d \<notin> set p"
  by (induction d s arbitrary: p rule: split.induct) (auto split: list.splits if_splits)

lemma split_id: "d \<notin> set s \<Longrightarrow> split d s = [s]"
  by (induction d s rule: split.induct) auto

lemma split_append: "d \<notin> set a \<Longrightarrow> split d (a @ d # b) = a # split d b"
  by (induction a) auto

lemma split_join:
  "ps \<noteq> [] \<Longrightarrow> (\<And>p. p \<in> set ps \<Longrightarrow> d \<notin> set p) \<Longrightarrow> split d (join [d] ps) = ps"
proof (induction ps)
  case (Cons p ps)
  show ?case
  proof (cases "ps = []")
    case True
    with Cons.prems show ?thesis by (simp add: split_id)
  next
    case False
    with Cons show ?thesis by (simp add: join_Cons split_append)
  qed
qed simp

section \<open>Numbers\<close>

definition digit_value :: "char \<Rightarrow> nat" where
  "digit_value c = char_code c - 48"

definition digit_char :: "nat \<Rightarrow> char" where
  "digit_char n = char_of (48 + n)"

definition digits_value :: "string \<Rightarrow> nat" where
  "digits_value s = foldl (\<lambda>n c. 10 * n + digit_value c) 0 s"

text \<open>
  \<open>str::parse\<close> for an unsigned integer type with the given largest value: an optional \<open>+\<close>, at
  least one ASCII digit, nothing else, and the value in range.
\<close>

definition parse_unsigned :: "nat \<Rightarrow> string \<Rightarrow> nat option" where
  "parse_unsigned limit s =
     (let ds = (case s of c # cs \<Rightarrow> if c = CHR ''+'' then cs else s | [] \<Rightarrow> s)
      in if ds \<noteq> [] \<and> list_all is_ascii_digit ds \<and> digits_value ds \<le> limit
         then Some (digits_value ds) else None)"

fun show_nat :: "nat \<Rightarrow> string" where
  "show_nat n = (if n < 10 then [digit_char n] else show_nat (n div 10) @ [digit_char (n mod 10)])"

declare show_nat.simps [simp del]

lemma digit_char_props:
  "n < 10 \<Longrightarrow> is_ascii_digit (digit_char n)" "n < 10 \<Longrightarrow> digit_value (digit_char n) = n"
  by (simp_all add: is_ascii_digit_def digit_char_def digit_value_def char_code_def)

lemma show_nat_not_Nil [simp]: "show_nat n \<noteq> []"
  by (subst show_nat.simps) simp

lemma show_nat_digits: "list_all is_ascii_digit (show_nat n)"
proof (induction n rule: show_nat.induct)
  case (1 n)
  then show ?case
    by (subst show_nat.simps) (auto simp: digit_char_props)
qed

lemma digits_value_snoc: "digits_value (s @ [c]) = 10 * digits_value s + digit_value c"
  by (simp add: digits_value_def)

lemma digits_value_show_nat [simp]: "digits_value (show_nat n) = n"
proof (induction n rule: show_nat.induct)
  case (1 n)
  show ?case
  proof (cases "n < 10")
    case True
    then show ?thesis
      by (subst show_nat.simps) (simp add: digits_value_def digit_char_props)
  next
    case False
    with 1 have IH: "digits_value (show_nat (n div 10)) = n div 10" by simp
    show ?thesis
      by (subst show_nat.simps) (use False IH in \<open>simp add: digits_value_snoc digit_char_props\<close>)
  qed
qed

lemma is_ascii_digit_not: "is_ascii_digit c \<Longrightarrow>
    c \<noteq> CHR ''+'' \<and> c \<noteq> CHR ''-'' \<and> c \<noteq> CHR '':'' \<and> c \<noteq> CHR ''/''"
  by (auto simp: is_ascii_digit_def char_code_def)

lemma show_nat_chars: "c \<in> set (show_nat n) \<Longrightarrow> is_ascii_digit c"
  using show_nat_digits[of n] by (simp add: list_all_iff)

lemma parse_show_nat [simp]: "n \<le> limit \<Longrightarrow> parse_unsigned limit (show_nat n) = Some n"
proof -
  assume n: "n \<le> limit"
  have "hd (show_nat n) \<noteq> CHR ''+''"
    using show_nat_chars[of "hd (show_nat n)" n] is_ascii_digit_not by simp
  then have "(case show_nat n of c # cs \<Rightarrow> if c = CHR ''+'' then cs else show_nat n | [] \<Rightarrow> show_nat n) = show_nat n"
    by (cases "show_nat n") auto
  with n show ?thesis by (simp add: parse_unsigned_def show_nat_digits)
qed

lemma parse_unsigned_le: "parse_unsigned limit s = Some n \<Longrightarrow> n \<le> limit"
  by (auto simp: parse_unsigned_def Let_def split: if_splits)

type_synonym u8 = "8 word"
type_synonym u16 = "16 word"
type_synonym u32 = "32 word"
type_synonym i64 = "64 word"

definition parse_u16 :: "string \<Rightarrow> u16 option" where
  "parse_u16 s = map_option of_nat (parse_unsigned 65535 s)"

definition show_u16 :: "u16 \<Rightarrow> string" where
  "show_u16 w = show_nat (unat w)"

lemma parse_show_u16 [simp]: "parse_u16 (show_u16 w) = Some w"
proof -
  have "unat w < 2 ^ 16" using unsigned_less[of w] by simp
  then have "unat w \<le> 65535" by simp
  then show ?thesis by (simp add: parse_u16_def show_u16_def)
qed

section \<open>Sorted and deduplicated lists\<close>

text \<open>\<open>Vec::dedup\<close> removes consecutive repetitions, as \<open>remdups_adj\<close> does.\<close>

definition sort_dedup :: "string list \<Rightarrow> string list" where
  "sort_dedup xs = remdups_adj (sort xs)"

lemma set_sort_dedup [simp]: "set (sort_dedup xs) = set xs"
  by (simp add: sort_dedup_def)

lemma sorted_sort_dedup: "sorted (sort_dedup xs)"
  by (simp add: sort_dedup_def)

lemma distinct_sort_dedup: "distinct (sort_dedup xs)"
proof -
  have "sorted ys \<Longrightarrow> distinct (remdups_adj ys)" for ys :: "string list"
  proof (induction ys rule: remdups_adj.induct)
    case (3 x y ys)
    then show ?case by (auto simp: less_le)
  qed auto
  then show ?thesis by (simp add: sort_dedup_def)
qed

section \<open>Upper case, words and lines\<close>

definition to_ascii_uppercase :: "string \<Rightarrow> string" where
  "to_ascii_uppercase s = map (\<lambda>c. if is_ascii_lower c then char_of (char_code c - 32) else c) s"

text \<open>Rust's \<open>str::split_whitespace\<close> and \<open>str::lines\<close>.\<close>

fun words_of :: "string \<Rightarrow> string \<Rightarrow> string list" where
  "words_of acc [] = (if acc = [] then [] else [acc])"
| "words_of acc (c # cs) =
     (if is_whitespace c then (if acc = [] then words_of [] cs else acc # words_of [] cs)
      else words_of (acc @ [c]) cs)"

definition split_whitespace :: "string \<Rightarrow> string list" where
  "split_whitespace s = words_of [] s"

definition str_lines :: "string \<Rightarrow> string list" where
  "str_lines s = (let ls = split (CHR 10) s; body = (if last ls = [] then butlast ls else ls)
     in map (\<lambda>l. case strip_suffix [CHR 13] l of Some l' \<Rightarrow> l' | None \<Rightarrow> l) body)"

section \<open>The last occurrence\<close>

text \<open>\<open>rfind\<close> of a character: the text before its last occurrence, and the text after it.\<close>

definition rsplit_once :: "char \<Rightarrow> string \<Rightarrow> (string \<times> string) option" where
  "rsplit_once d s = map_option (\<lambda>(a, b). (rev b, rev a)) (split_once d (rev s))"

lemma rsplit_once_Some: "rsplit_once d s = Some (a, b) \<longleftrightarrow> s = a @ d # b \<and> d \<notin> set b"
proof -
  have "rsplit_once d s = Some (a, b) \<longleftrightarrow> split_once d (rev s) = Some (rev b, rev a)"
    by (cases "split_once d (rev s)") (auto simp: rsplit_once_def simp del: split_once_Some)
  also have "\<dots> \<longleftrightarrow> rev s = rev b @ d # rev a \<and> d \<notin> set b" by simp
  also have "\<dots> \<longleftrightarrow> s = a @ d # b \<and> d \<notin> set b" by (metis (no_types, lifting) append.assoc append_Cons append_Nil rev.simps(2) rev_append rev_rev_ident)
  finally show ?thesis .
qed

lemma rsplit_once_None: "rsplit_once d s = None \<longleftrightarrow> d \<notin> set s"
  by (simp add: rsplit_once_def)

lemma rsplit_once_at: "d \<notin> set b \<Longrightarrow> rsplit_once d (a @ d # b) = Some (a, b)"
  by (simp add: rsplit_once_Some)

end
