(* ===== verification/Expressions.thy ===== *)
theory Expressions
  imports Rust_Std
begin

text \<open>
  The expression syntax of \<open>ratect-core/src/expressions.rs\<close>: \<^verbatim>\<open>$VAR\<close>, \<^verbatim>\<open>${VAR:-default}\<close>,
  \<^verbatim>\<open><name\<close>, \<^verbatim>\<open><{name}\<close> and the backslash escape. \<open>scan\<close> is the one walk all readers
  share; its callback threads a state, which stands for what the Rust closure captures. Where
  the code holds an index into the vector of characters, the model holds the characters from
  that index on together with the index itself, so the columns of the errors are the code's.

  \<open>pieces\<close> is the abstract grammar: the text as a list of literal characters and references up
  to the first mistake. \<open>scan_pieces\<close> shows that \<open>scan\<close> evaluates exactly that list, and the
  properties of the five entry points follow from it.
\<close>

section \<open>Definitions\<close>

record token =
  tok_start :: nat
  tok_len :: nat
  tok_sigil :: char
  tok_name :: string
  tok_default :: "string option"

datatype expr_error =
    Trailing_Escape nat                 \<comment> \<open>a final backslash, at this column\<close>
  | Sigil_At_End char nat               \<comment> \<open>must be followed by a variable name\<close>
  | Sigil_No_Name char nat              \<comment> \<open>does not contain a variable name\<close>
  | Colon_Not_Dash nat                  \<comment> \<open>a colon not followed by a dash\<close>
  | Default_Escape_At_End nat           \<comment> \<open>a final backslash inside a default\<close>
  | Brace_Not_Closed char nat           \<comment> \<open>an opening brace with no closing one\<close>
  | Empty_Braced_Name char string nat   \<comment> \<open>a braced reference with an empty name\<close>
  | Host_Variable_Unset string
  | Config_Variable_Undeclared string
  | Config_Variable_No_Value string

definition is_name_char :: "char \<Rightarrow> bool" where
  "is_name_char c \<longleftrightarrow> is_alphanumeric c \<or> c = CHR ''_''"

text \<open>What ends the name of a braced reference: the closing brace or, after a dollar, a colon.\<close>

definition name_stop :: "char \<Rightarrow> char \<Rightarrow> bool" where
  "name_stop sg c \<longleftrightarrow> c = CHR ''}'' \<or> (c = CHR '':'' \<and> sg = CHR ''$'')"

text \<open>
  The loop over a default: its text with the escapes applied, and the characters left, which
  start with the closing brace or are none. \<open>i\<close> is the index of the first character.
\<close>

fun parse_default :: "nat \<Rightarrow> string \<Rightarrow> (expr_error, string \<times> string) result" where
  "parse_default i [] = Inr ([], [])"
| "parse_default i (c # cs) =
     (if c = CHR ''}'' then Inr ([], c # cs)
      else if c = CHR 0x5C then
        (case cs of
           [] \<Rightarrow> Inl (Default_Escape_At_End (i + 1))
         | e # cs' \<Rightarrow> rbind (parse_default (i + 2) cs') (\<lambda>(d, r). Inr (e # d, r)))
      else rbind (parse_default (i + 1) cs) (\<lambda>(d, r). Inr (c # d, r)))"

text \<open>
  The end of \<open>parse_token\<close> for a braced reference. \<open>inp\<close> is the input from the sigil on, \<open>r\<close>
  what is left when the name and the default have been read.
\<close>

definition close_braced ::
    "nat \<Rightarrow> string \<Rightarrow> string \<Rightarrow> string option \<Rightarrow> string \<Rightarrow> (expr_error, token) result" where
  "close_braced start inp nm dflt r =
     (case r of
        [] \<Rightarrow> Inl (Brace_Not_Closed (hd inp) (start + 2))
      | _ # after \<Rightarrow>
          (let n = length inp - length after in
           if nm = [] then Inl (Empty_Braced_Name (hd inp) (take n inp) (start + 1))
           else Inr \<lparr>tok_start = start, tok_len = n, tok_sigil = hd inp,
                     tok_name = nm, tok_default = dflt\<rparr>))"

fun parse_token :: "nat \<Rightarrow> string \<Rightarrow> (expr_error, token) result" where
  "parse_token start [] = Inl (Sigil_At_End CHR ''$'' (start + 1))" \<comment> \<open>never called: the head is the sigil\<close>
| "parse_token start [sg] = Inl (Sigil_At_End sg (start + 1))"
| "parse_token start (sg # a # body) =
     (if a \<noteq> CHR ''{'' then
        (let nm = takeWhile is_name_char (a # body) in
         if nm = [] then Inl (Sigil_No_Name sg (start + 1))
         else Inr \<lparr>tok_start = start, tok_len = 1 + length nm, tok_sigil = sg,
                   tok_name = nm, tok_default = None\<rparr>)
      else
        (let inp = sg # a # body;
             nm = takeWhile (\<lambda>c. \<not> name_stop sg c) body;
             r = dropWhile (\<lambda>c. \<not> name_stop sg c) body;
             i = start + 2 + length nm
         in case r of
              c # r1 \<Rightarrow>
                if c = CHR '':'' then
                  (case r1 of
                     d # r2 \<Rightarrow>
                       if d = CHR ''-''
                       then rbind (parse_default (i + 2) r2)
                              (\<lambda>(dflt, r3). close_braced start inp nm (Some dflt) r3)
                       else Inl (Colon_Not_Dash (i + 1))
                   | [] \<Rightarrow> Inl (Colon_Not_Dash (i + 1)))
                else close_braced start inp nm None r
            | [] \<Rightarrow> close_braced start inp nm None r))"

lemma parse_default_length:
  "parse_default i cs = Inr (d, r) \<Longrightarrow> length r \<le> length cs"
proof (induction i cs arbitrary: d r rule: parse_default.induct)
  case (2 i c cs)
  then show ?case by (fastforce split: if_splits list.splits)
qed simp

lemma close_braced_len:
  "close_braced start inp nm dflt r = Inr t \<Longrightarrow> length r \<le> length inp - 2 \<Longrightarrow> 2 \<le> length inp \<Longrightarrow>
     2 \<le> tok_len t \<and> tok_len t \<le> length inp"
  by (auto simp: close_braced_def Let_def split: list.splits if_splits)

lemma parse_token_len:
  "parse_token start inp = Inr t \<Longrightarrow> 2 \<le> tok_len t \<and> tok_len t \<le> length inp"
proof (induction start inp rule: parse_token.induct)
  case (3 start sg a body)
  let ?inp = "sg # a # body"
  let ?nm = "takeWhile (\<lambda>c. \<not> name_stop sg c) body"
  let ?r = "dropWhile (\<lambda>c. \<not> name_stop sg c) body"
  show ?case
  proof (cases "a = CHR ''{''")
    case False
    with "3.prems" have "takeWhile is_name_char (a # body) \<noteq> []"
      and "tok_len t = 1 + length (takeWhile is_name_char (a # body))"
      by (auto simp: Let_def split: if_splits)
    moreover have "length (takeWhile is_name_char (a # body)) \<le> length (a # body)"
      by (rule length_takeWhile_le)
    ultimately show ?thesis by (cases "takeWhile is_name_char (a # body)") auto
  next
    case True
    have r: "length ?r \<le> length body" by (rule dropWhile_length)
    consider
        "close_braced start ?inp ?nm None ?r = Inr t"
      | c r2 d r3 where "?r = c # CHR ''-'' # r2"
          "parse_default (start + 2 + length ?nm + 2) r2 = Inr (d, r3)"
          "close_braced start ?inp ?nm (Some d) r3 = Inr t"
    proof (cases ?r)
      case Nil
      with True "3.prems" have "close_braced start ?inp ?nm None ?r = Inr t"
        by (simp only: parse_token.simps Let_def) simp
      then show ?thesis by (rule that(1))
    next
      case (Cons c r1)
      with True "3.prems" show ?thesis
        by (cases r1) (auto simp: Let_def split: if_splits intro: that)
    qed
    then show ?thesis
    proof cases
      case 1
      with r show ?thesis using close_braced_len[OF 1] by simp
    next
      case 2
      from parse_default_length[OF 2(2)] 2(1) r have "length r3 \<le> length body"
        by (metis (no_types, lifting) Suc_leD length_Cons order_trans)
      then show ?thesis using close_braced_len[OF 2(3)] by simp
    qed
  qed
qed auto

function scan ::
    "(token \<Rightarrow> 's \<Rightarrow> (expr_error, string \<times> 's) result) \<Rightarrow> nat \<Rightarrow> string \<Rightarrow> 's \<Rightarrow>
     (expr_error, string \<times> 's) result" where
  "scan f i [] s = Inr ([], s)"
| "scan f i (c # cs) s =
     (if c = CHR 0x5C then
        (case cs of
           [] \<Rightarrow> Inl (Trailing_Escape (i + 1))
         | e # cs' \<Rightarrow> rbind (scan f (i + 2) cs' s) (\<lambda>(r, s'). Inr (e # r, s')))
      else if c = CHR ''$'' \<or> c = CHR ''<'' then
        rbind (parse_token i (c # cs)) (\<lambda>t.
        rbind (f t s) (\<lambda>(v, s').
        rbind (scan f (i + tok_len t) (drop (tok_len t) (c # cs)) s') (\<lambda>(r, s'').
        Inr (v @ r, s''))))
      else rbind (scan f (i + 1) cs s) (\<lambda>(r, s'). Inr (c # r, s')))"
  by pat_completeness auto
termination
  by (relation "measure (\<lambda>(f, i, cs, s). length cs)") (auto dest: parse_token_len)

text \<open>
  \<open>host_env\<close> looks a host variable up; \<open>config_vars\<close> maps every declared config variable to its
  value, \<open>Some None\<close> being one that is declared and has none.
\<close>

definition resolve ::
    "char \<Rightarrow> string \<Rightarrow> string option \<Rightarrow> (string \<Rightarrow> string option) \<Rightarrow>
     (string \<Rightarrow> string option option) \<Rightarrow> (expr_error, string) result" where
  "resolve sg nm dflt host_env config_vars =
     (if sg = CHR ''$'' then
        (case host_env nm of
           Some v \<Rightarrow> Inr v
         | None \<Rightarrow> (case dflt of Some d \<Rightarrow> Inr d | None \<Rightarrow> Inl (Host_Variable_Unset nm)))
      else
        (case config_vars nm of
           None \<Rightarrow> Inl (Config_Variable_Undeclared nm)
         | Some None \<Rightarrow> Inl (Config_Variable_No_Value nm)
         | Some (Some v) \<Rightarrow> Inr v))"

definition resolve_token ::
    "(string \<Rightarrow> string option) \<Rightarrow> (string \<Rightarrow> string option option) \<Rightarrow> token \<Rightarrow>
     (expr_error, string) result" where
  "resolve_token host_env config_vars t =
     resolve (tok_sigil t) (tok_name t) (tok_default t) host_env config_vars"

definition interpolate ::
    "string \<Rightarrow> (string \<Rightarrow> string option) \<Rightarrow> (string \<Rightarrow> string option option) \<Rightarrow>
     (expr_error, string) result" where
  "interpolate input host_env config_vars =
     rbind (scan (\<lambda>t s. rbind (resolve_token host_env config_vars t) (\<lambda>v. Inr (v, s))) 0 input ())
       (\<lambda>(r, _). Inr r)"

definition contains_expression :: "string \<Rightarrow> bool" where
  "contains_expression input =
     (case scan (\<lambda>t found. Inr ([], True)) 0 input False of
        Inl _ \<Rightarrow> False
      | Inr (_, found) \<Rightarrow> found)"

definition check_syntax :: "string \<Rightarrow> (expr_error, unit) result" where
  "check_syntax input = rbind (scan (\<lambda>t s. Inr ([], s)) 0 input ()) (\<lambda>_. Inr ())"

definition references :: "string \<Rightarrow> (expr_error, token list) result" where
  "references input =
     rbind (scan (\<lambda>t found. Inr ([], found @ [t])) 0 input []) (\<lambda>(_, found). Inr found)"

fun escape :: "string \<Rightarrow> char list \<Rightarrow> string" where
  "escape [] special = []"
| "escape (c # cs) special =
     (if c \<in> set special then [CHR 0x5C, c] else [c]) @ escape cs special"

definition literal_kept :: "string \<Rightarrow> string" where
  "literal_kept literal = escape literal [CHR 0x5C, CHR ''$'', CHR ''<'']"

definition literal_as_expression :: "string \<Rightarrow> string" where
  "literal_as_expression literal =
     (let backslashes_kept = escape literal [CHR 0x5C] in
      if is_ok (check_syntax backslashes_kept) then backslashes_kept else literal_kept literal)"

section \<open>The abstract grammar\<close>

datatype piece = Lit char | Ref token

function pieces :: "nat \<Rightarrow> string \<Rightarrow> piece list \<times> expr_error option" where
  "pieces i [] = ([], None)"
| "pieces i (c # cs) =
     (if c = CHR 0x5C then
        (case cs of
           [] \<Rightarrow> ([], Some (Trailing_Escape (i + 1)))
         | e # cs' \<Rightarrow> (let (ps, err) = pieces (i + 2) cs' in (Lit e # ps, err)))
      else if c = CHR ''$'' \<or> c = CHR ''<'' then
        (case parse_token i (c # cs) of
           Inl e \<Rightarrow> ([], Some e)
         | Inr t \<Rightarrow>
             (let (ps, err) = pieces (i + tok_len t) (drop (tok_len t) (c # cs)) in (Ref t # ps, err)))
      else (let (ps, err) = pieces (i + 1) cs in (Lit c # ps, err)))"
  by pat_completeness auto
termination
  by (relation "measure (\<lambda>(i, cs). length cs)") (auto dest: parse_token_len)

fun run_pieces ::
    "(token \<Rightarrow> 's \<Rightarrow> (expr_error, string \<times> 's) result) \<Rightarrow> piece list \<Rightarrow> 's \<Rightarrow>
     (expr_error, string \<times> 's) result" where
  "run_pieces f [] s = Inr ([], s)"
| "run_pieces f (Lit c # ps) s = rbind (run_pieces f ps s) (\<lambda>(r, s'). Inr (c # r, s'))"
| "run_pieces f (Ref t # ps) s =
     rbind (f t s) (\<lambda>(v, s'). rbind (run_pieces f ps s') (\<lambda>(r, s''). Inr (v @ r, s'')))"

fun piece_refs :: "piece list \<Rightarrow> token list" where
  "piece_refs [] = []"
| "piece_refs (Lit c # ps) = piece_refs ps"
| "piece_refs (Ref t # ps) = t # piece_refs ps"

definition outcome :: "(expr_error, 'a) result \<Rightarrow> expr_error option \<Rightarrow> (expr_error, 'a) result" where
  "outcome r err = rbind r (\<lambda>x. case err of None \<Rightarrow> Inr x | Some e \<Rightarrow> Inl e)"

text \<open>The two walks unfolded at the four kinds of character.\<close>

definition plain_char :: "char \<Rightarrow> bool" where
  "plain_char c \<longleftrightarrow> c \<noteq> CHR 0x5C \<and> c \<noteq> CHR ''$'' \<and> c \<noteq> CHR ''<''"

definition is_sigil :: "char \<Rightarrow> bool" where
  "is_sigil c \<longleftrightarrow> c = CHR ''$'' \<or> c = CHR ''<''"

lemma char_kinds: "c = CHR 0x5C \<or> is_sigil c \<or> plain_char c"
  by (auto simp: plain_char_def is_sigil_def)

lemma scan_unfold:
  "scan f i [CHR 0x5C] s = Inl (Trailing_Escape (i + 1))"
  "scan f i (CHR 0x5C # e # cs) s = rbind (scan f (i + 2) cs s) (\<lambda>(r, s'). Inr (e # r, s'))"
  "is_sigil c \<Longrightarrow> scan f i (c # cs) s =
     rbind (parse_token i (c # cs)) (\<lambda>t. rbind (f t s) (\<lambda>(v, s').
     rbind (scan f (i + tok_len t) (drop (tok_len t) (c # cs)) s') (\<lambda>(r, s''). Inr (v @ r, s''))))"
  "plain_char c \<Longrightarrow> scan f i (c # cs) s = rbind (scan f (i + 1) cs s) (\<lambda>(r, s'). Inr (c # r, s'))"
  by (auto simp: is_sigil_def plain_char_def)

lemma pieces_unfold:
  "pieces i [CHR 0x5C] = ([], Some (Trailing_Escape (i + 1)))"
  "pieces i (CHR 0x5C # e # cs) = apfst ((#) (Lit e)) (pieces (i + 2) cs)"
  "is_sigil c \<Longrightarrow> pieces i (c # cs) =
     (case parse_token i (c # cs) of
        Inl e \<Rightarrow> ([], Some e)
      | Inr t \<Rightarrow> apfst ((#) (Ref t)) (pieces (i + tok_len t) (drop (tok_len t) (c # cs))))"
  "plain_char c \<Longrightarrow> pieces i (c # cs) = apfst ((#) (Lit c)) (pieces (i + 1) cs)"
  by (auto simp: is_sigil_def plain_char_def apfst_def map_prod_def split: sum.splits prod.splits)

declare scan.simps(2) [simp del] pieces.simps(2) [simp del]

lemma outcome_simps [simp]:
  "outcome (Inl e) err = Inl e" "outcome (Inr x) None = Inr x" "outcome (Inr x) (Some e) = Inl e"
  by (simp_all add: outcome_def)

lemma outcome_rbind: "outcome (rbind r (\<lambda>x. Inr (g x))) err = rbind (outcome r err) (\<lambda>x. Inr (g x))"
  by (cases r; cases err) auto

lemma rbind_case_prod: "rbind r (\<lambda>(a, b). Inr (g a b)) = rbind r (\<lambda>x. Inr (case_prod g x))"
  by (cases r) (auto split: prod.splits)

text \<open>
  \<open>scan\<close> evaluates the pieces in order: a failing callback stops it first, the mistake in the
  text after.
\<close>

lemma scan_pieces: "scan f i cs s = outcome (run_pieces f (fst (pieces i cs)) s) (snd (pieces i cs))"
proof (induction "length cs" arbitrary: i cs s rule: less_induct)
  case less
  show ?case
  proof (cases cs)
    case Nil
    then show ?thesis by simp
  next
    case (Cons c cs')
    from char_kinds[of c] consider (esc) "c = CHR 0x5C" | (tok) "is_sigil c" | (lit) "plain_char c"
      by blast
    then show ?thesis
    proof cases
      case esc
      then show ?thesis
      proof (cases cs')
        case (Cons e cs'')
        with \<open>cs = c # cs'\<close> less[of cs'' "i + 2" s] esc show ?thesis
          by (simp add: scan_unfold pieces_unfold rbind_case_prod outcome_rbind)
      qed (simp add: \<open>cs = c # cs'\<close> scan_unfold pieces_unfold)
    next
      case tok
      show ?thesis
      proof (cases "parse_token i cs")
        case (Inl e)
        with Cons tok show ?thesis by (simp add: scan_unfold pieces_unfold)
      next
        case (Inr t)
        let ?rest = "drop (tok_len t) cs"
        have len: "length ?rest < length cs" using parse_token_len[OF Inr] Cons by auto
        show ?thesis
        proof (cases "f t s")
          case (Inl e)
          with Inr Cons tok show ?thesis by (simp add: scan_unfold pieces_unfold)
        next
          case fts: (Inr vs)
          obtain v s' where vs: "vs = (v, s')" by fastforce
          from less[OF len, of "i + tok_len t" s'] Inr Cons tok fts vs show ?thesis
            by (simp add: scan_unfold pieces_unfold rbind_case_prod outcome_rbind)
        qed
      qed
    next
      case lit
      with Cons less[of cs' "i + 1" s] show ?thesis
        by (simp add: scan_unfold pieces_unfold rbind_case_prod outcome_rbind)
    qed
  qed
qed

section \<open>The readers over the grammar\<close>

lemma run_pieces_const:
  "run_pieces (\<lambda>t s. Inr ([], g t s)) ps s =
     Inr (concat (map (\<lambda>p. case p of Lit c \<Rightarrow> [c] | Ref t \<Rightarrow> []) ps), fold g (piece_refs ps) s)"
  by (induction ps arbitrary: s rule: piece_refs.induct) auto

lemma check_syntax_pieces:
  "check_syntax input = (case snd (pieces 0 input) of None \<Rightarrow> Inr () | Some e \<Rightarrow> Inl e)"
  using run_pieces_const[of "\<lambda>_ _. ()"]
  by (cases "snd (pieces 0 input)") (simp_all add: check_syntax_def scan_pieces)

lemma fold_snoc: "fold (\<lambda>t found. found @ [t]) ts acc = acc @ ts"
  by (induction ts arbitrary: acc) auto

lemma references_pieces:
  "references input =
     (case snd (pieces 0 input) of None \<Rightarrow> Inr (piece_refs (fst (pieces 0 input))) | Some e \<Rightarrow> Inl e)"
  using run_pieces_const[of "\<lambda>t found. found @ [t]"]
  by (cases "snd (pieces 0 input)") (simp_all add: references_def scan_pieces fold_snoc)

lemma fold_found: "fold (\<lambda>_ _. True) ts b \<longleftrightarrow> b \<or> ts \<noteq> []"
  by (induction ts arbitrary: b) auto

lemma contains_expression_pieces:
  "contains_expression input \<longleftrightarrow>
     snd (pieces 0 input) = None \<and> piece_refs (fst (pieces 0 input)) \<noteq> []"
  using run_pieces_const[of "\<lambda>_ _. True"]
  by (cases "snd (pieces 0 input)") (simp_all add: contains_expression_def scan_pieces fold_found)

text \<open>Evaluation of the pieces under an environment.\<close>

fun eval_pieces :: "(token \<Rightarrow> (expr_error, string) result) \<Rightarrow> piece list \<Rightarrow> (expr_error, string) result" where
  "eval_pieces f [] = Inr []"
| "eval_pieces f (Lit c # ps) = rbind (eval_pieces f ps) (\<lambda>r. Inr (c # r))"
| "eval_pieces f (Ref t # ps) = rbind (f t) (\<lambda>v. rbind (eval_pieces f ps) (\<lambda>r. Inr (v @ r)))"

lemma run_eval_pieces:
  "run_pieces (\<lambda>t s. rbind (f t) (\<lambda>v. Inr (v, ()))) ps () = rbind (eval_pieces f ps) (\<lambda>r. Inr (r, ()))"
proof (induction ps rule: piece_refs.induct)
  case (2 c ps)
  then show ?case by (cases "eval_pieces f ps") auto
next
  case (3 t ps)
  then show ?case by (cases "f t"; cases "eval_pieces f ps") auto
qed simp

lemma interpolate_pieces:
  "interpolate input host_env config_vars =
     outcome (eval_pieces (resolve_token host_env config_vars) (fst (pieces 0 input)))
       (snd (pieces 0 input))"
proof (cases "eval_pieces (resolve_token host_env config_vars) (fst (pieces 0 input))")
  case (Inl e)
  then show ?thesis by (simp add: interpolate_def scan_pieces run_eval_pieces)
next
  case (Inr r)
  then show ?thesis
    by (cases "snd (pieces 0 input)") (simp_all add: interpolate_def scan_pieces run_eval_pieces)
qed

lemma eval_pieces_cong:
  "(\<And>t. t \<in> set (piece_refs ps) \<Longrightarrow> f t = g t) \<Longrightarrow> eval_pieces f ps = eval_pieces g ps"
  by (induction ps rule: piece_refs.induct) auto

lemma eval_pieces_total:
  "(\<And>t. t \<in> set (piece_refs ps) \<Longrightarrow> is_ok (f t)) \<Longrightarrow> \<exists>r. eval_pieces f ps = Inr r"
  by (induction ps rule: piece_refs.induct) (auto simp: is_ok_iff)

lemma eval_lits: "eval_pieces f (map Lit s) = Inr s" "piece_refs (map Lit s) = []"
  by (induction s) auto

lemma pieces_literal_kept: "pieces i (literal_kept s) = (map Lit s, None)"
proof (induction s arbitrary: i)
  case Nil
  then show ?case by (simp add: literal_kept_def)
next
  case (Cons c s)
  show ?case
  proof (cases "plain_char c")
    case True
    with Cons show ?thesis
      by (auto simp: literal_kept_def pieces_unfold plain_char_def[of c])
  next
    case False
    then have "literal_kept (c # s) = CHR 0x5C # c # literal_kept s"
      by (auto simp: literal_kept_def plain_char_def)
    with Cons show ?thesis by (simp add: pieces_unfold)
  qed
qed

text \<open>Doubling the backslashes keeps every other character's reading.\<close>

lemma pieces_backslashes_kept:
  assumes "pieces i (escape s [CHR 0x5C]) = (ps, None)" and "piece_refs ps = []"
  shows "ps = map Lit s"
  using assms
proof (induction s arbitrary: i ps)
  case (Cons c s)
  from char_kinds[of c] consider (esc) "c = CHR 0x5C" | (tok) "is_sigil c" | (lit) "plain_char c"
    by blast
  then show ?case
  proof cases
    case esc
    with Cons show ?thesis by (cases "pieces (i + 2) (escape s [CHR 0x5C])") (auto simp: pieces_unfold)
  next
    case tok
    with Cons.prems show ?thesis
      by (auto simp: is_sigil_def pieces_unfold apfst_def map_prod_def split: sum.splits prod.splits)
  next
    case lit
    with Cons show ?thesis
      by (cases "pieces (i + 1) (escape s [CHR 0x5C])") (auto simp: pieces_unfold plain_char_def[of c])
  qed
qed simp

section \<open>Where the references lie\<close>

text \<open>A list of references lying one after another in the text from \<open>i\<close> on.\<close>

fun spans :: "nat \<Rightarrow> nat \<Rightarrow> token list \<Rightarrow> bool" where
  "spans i n [] \<longleftrightarrow> i \<le> n"
| "spans i n (t # ts) \<longleftrightarrow> i \<le> tok_start t \<and> 2 \<le> tok_len t \<and> spans (tok_start t + tok_len t) n ts"

lemma spans_le: "spans i n ts \<Longrightarrow> j \<le> i \<Longrightarrow> spans j n ts"
  by (cases ts) auto

lemma close_braced_Ok:
  "close_braced start inp nm dflt r = Inr t \<Longrightarrow>
     tok_start t = start \<and> tok_sigil t = hd inp \<and> tok_name t = nm \<and> nm \<noteq> [] \<and> tok_default t = dflt"
  by (auto simp: close_braced_def Let_def split: list.splits if_splits)

lemma parse_token_start_sigil:
  assumes "parse_token i inp = Inr t"
  shows "tok_start t = i \<and> tok_sigil t = hd inp \<and> tok_name t \<noteq> [] \<and> inp \<noteq> []"
proof (cases "(i, inp)" rule: parse_token.cases)
  case (3 start sg a body)
  show ?thesis
  proof (cases "a = CHR ''{''")
    case True
    with assms 3 have "\<exists>nm dflt r. close_braced start inp nm dflt r = Inr t"
      by (auto simp: Let_def split: if_splits list.splits)
    with 3 show ?thesis using close_braced_Ok by fastforce
  next
    case False
    with assms 3 show ?thesis by (auto simp: Let_def split: if_splits)
  qed
qed (use assms in auto)

lemma pieces_spans:
  assumes "pieces i cs = (ps, None)"
  shows "spans i (i + length cs) (piece_refs ps) \<and>
         (\<forall>t \<in> set (piece_refs ps). is_sigil (tok_sigil t) \<and> tok_name t \<noteq> [] \<and>
            cs ! (tok_start t - i) = tok_sigil t \<and> i \<le> tok_start t)"
  using assms
proof (induction "length cs" arbitrary: i cs ps rule: less_induct)
  case less
  show ?case
  proof (cases cs)
    case Nil
    with less.prems show ?thesis by simp
  next
    case (Cons c cs')
    from char_kinds[of c] consider (esc) "c = CHR 0x5C" | (tok) "is_sigil c" | (lit) "plain_char c"
      by blast
    then show ?thesis
    proof cases
      case esc
      with Cons less.prems obtain e cs'' qs where cs': "cs' = e # cs''"
        and q: "pieces (i + 2) cs'' = (qs, None)" and ps: "ps = Lit e # qs"
        by (cases cs') (auto simp: pieces_unfold apfst_def map_prod_def split: prod.splits)
      from less.hyps[OF _ q] Cons cs' have "spans (i + 2) (i + length cs) (piece_refs qs)"
        and "\<forall>t \<in> set (piece_refs qs). is_sigil (tok_sigil t) \<and> tok_name t \<noteq> [] \<and>
            cs'' ! (tok_start t - (i + 2)) = tok_sigil t \<and> i + 2 \<le> tok_start t"
        by auto
      moreover have "cs ! (k - i) = cs'' ! (k - (i + 2))" if "i + 2 \<le> k" for k
      proof -
        from that have "k - i = Suc (Suc (k - (i + 2)))" by simp
        then show ?thesis using Cons cs' by simp
      qed
      ultimately show ?thesis using ps by (auto intro: spans_le)
    next
      case tok
      with Cons less.prems obtain t qs where t: "parse_token i cs = Inr t"
        and q: "pieces (i + tok_len t) (drop (tok_len t) cs) = (qs, None)" and ps: "ps = Ref t # qs"
        by (auto simp: pieces_unfold apfst_def map_prod_def split: prod.splits sum.splits)
      have len: "2 \<le> tok_len t" "tok_len t \<le> length cs" using parse_token_len[OF t] by auto
      have hd: "tok_start t = i" "tok_sigil t = c" "tok_name t \<noteq> []"
        using parse_token_start_sigil[OF t] Cons by auto
      have shorter: "length (drop (tok_len t) cs) < length cs" using len by simp
      from less.hyps[OF shorter q] len have "spans (i + tok_len t) (i + length cs) (piece_refs qs)"
        and "\<forall>u \<in> set (piece_refs qs). is_sigil (tok_sigil u) \<and> tok_name u \<noteq> [] \<and>
            drop (tok_len t) cs ! (tok_start u - (i + tok_len t)) = tok_sigil u \<and>
            i + tok_len t \<le> tok_start u"
        by auto
      moreover have "cs ! (k - i) = drop (tok_len t) cs ! (k - (i + tok_len t))"
        if "i + tok_len t \<le> k" for k
      proof -
        from that have "k - i = tok_len t + (k - (i + tok_len t))" by simp
        then show ?thesis using len by (metis nth_drop)
      qed
      ultimately show ?thesis using ps hd len tok Cons by auto
    next
      case lit
      with Cons less.prems obtain qs where q: "pieces (i + 1) cs' = (qs, None)" and ps: "ps = Lit c # qs"
        by (auto simp: pieces_unfold apfst_def map_prod_def split: prod.splits)
      from less.hyps[OF _ q] Cons have "spans (i + 1) (i + length cs) (piece_refs qs)"
        and "\<forall>t \<in> set (piece_refs qs). is_sigil (tok_sigil t) \<and> tok_name t \<noteq> [] \<and>
            cs' ! (tok_start t - (i + 1)) = tok_sigil t \<and> i + 1 \<le> tok_start t"
        by auto
      moreover have "cs ! (k - i) = cs' ! (k - (i + 1))" if "i + 1 \<le> k" for k
      proof -
        from that have "k - i = Suc (k - (i + 1))" by simp
        then show ?thesis using Cons by simp
      qed
      ultimately show ?thesis using ps by (auto intro: spans_le)
    qed
  qed
qed

section \<open>Properties\<close>

text \<open>
  C23 (interpolate_literal_kept): \<open>literal_kept\<close> is a right inverse of \<open>interpolate\<close>. Whatever text
  it is given, the escaped expression is well formed, holds no reference, and evaluates to exactly
  that text in every environment.
\<close>

theorem interpolate_literal_kept:
  "interpolate (literal_kept s) host_env config_vars = Inr s \<and>
   check_syntax (literal_kept s) = Inr () \<and> \<not> contains_expression (literal_kept s)"
  by (simp add: interpolate_pieces check_syntax_pieces contains_expression_pieces
      pieces_literal_kept eval_lits)

text \<open>
  C28 (check_syntax_iff_evaluable): \<open>check_syntax\<close> refuses precisely the mistakes that are in the
  text itself. It accepts a value if and only if some host environment and some config variables
  evaluate it, so a value it refuses fails in every environment.
\<close>

theorem check_syntax_iff_evaluable:
  "check_syntax input = Inr () \<longleftrightarrow>
     (\<exists>host_env config_vars v. interpolate input host_env config_vars = Inr v)"
proof
  assume ok: "check_syntax input = Inr ()"
  let ?h = "\<lambda>_. Some []" and ?c = "\<lambda>_. Some (Some [])"
  have "is_ok (resolve_token ?h ?c t)" for t
    by (simp add: resolve_token_def resolve_def)
  then obtain r where "eval_pieces (resolve_token ?h ?c) (fst (pieces 0 input)) = Inr r"
    using eval_pieces_total by blast
  with ok have "interpolate input ?h ?c = Inr r"
    by (auto simp: interpolate_pieces check_syntax_pieces split: option.splits)
  then show "\<exists>host_env config_vars v. interpolate input host_env config_vars = Inr v" by blast
next
  assume "\<exists>host_env config_vars v. interpolate input host_env config_vars = Inr v"
  then show "check_syntax input = Inr ()"
    by (auto simp: interpolate_pieces check_syntax_pieces outcome_def split: option.splits)
qed

text \<open>
  The detector agrees with the evaluator. A value contains an
  expression exactly when it is well formed and \<open>references\<close> finds at least one reference in it.
\<close>

theorem contains_expression_iff:
  "contains_expression input \<longleftrightarrow> (\<exists>t ts. references input = Inr (t # ts))"
  by (auto simp: contains_expression_pieces references_pieces neq_Nil_conv split: option.splits)

text \<open>
  Evaluation reads nothing but the variables the value
  refers to. Two environments that agree on the names in \<open>references\<close> give the same result, be it
  a value or an error.
\<close>

theorem interpolate_depends_on_references:
  assumes "references input = Inr ts"
    and "\<And>t. t \<in> set ts \<Longrightarrow> tok_sigil t = CHR ''$'' \<Longrightarrow> h (tok_name t) = h' (tok_name t)"
    and "\<And>t. t \<in> set ts \<Longrightarrow> tok_sigil t \<noteq> CHR ''$'' \<Longrightarrow> c (tok_name t) = c' (tok_name t)"
  shows "interpolate input h c = interpolate input h' c'"
proof -
  from assms(1) have ts: "ts = piece_refs (fst (pieces 0 input))"
    by (auto simp: references_pieces split: option.splits)
  have "eval_pieces (resolve_token h c) (fst (pieces 0 input)) =
        eval_pieces (resolve_token h' c') (fst (pieces 0 input))"
    by (rule eval_pieces_cong)
      (use assms(2,3) ts in \<open>auto simp: resolve_token_def resolve_def\<close>)
  then show ?thesis by (simp add: interpolate_pieces)
qed

theorem interpolate_depends_on_references_witness:
  "interpolate ''a${X:-d}<v'' (\<lambda>n. if n = ''Y'' then Some ''1'' else None) (\<lambda>n. Some (Some ''2'')) =
   interpolate ''a${X:-d}<v'' (\<lambda>n. None) (\<lambda>n. if n = ''v'' then Some (Some ''2'') else None)"
proof -
  have refs: "references ''a${X:-d}<v'' =
      Inr [\<lparr>tok_start = 1, tok_len = 7, tok_sigil = CHR ''$'', tok_name = ''X'', tok_default = Some ''d''\<rparr>,
           \<lparr>tok_start = 8, tok_len = 2, tok_sigil = CHR ''<'', tok_name = ''v'', tok_default = None\<rparr>]"
    by code_simp
  show ?thesis
    by (rule interpolate_depends_on_references[OF refs]) auto
qed

text \<open>
  The references of a well-formed value lie in it one after another without
  overlap, each inside the text, each starting at an unescaped sigil character that is the one
  recorded, and each with a non-empty name.
\<close>

theorem references_spans:
  assumes "references input = Inr ts"
  shows "spans 0 (length input) ts \<and>
         (\<forall>t \<in> set ts. is_sigil (tok_sigil t) \<and> tok_name t \<noteq> [] \<and>
                        input ! tok_start t = tok_sigil t)"
proof -
  from assms have "pieces 0 input = (fst (pieces 0 input), None)"
    and "ts = piece_refs (fst (pieces 0 input))"
    by (auto simp: references_pieces prod_eq_iff split: option.splits)
  with pieces_spans[of 0 input] show ?thesis by auto
qed

theorem references_spans_witness:
  "references ''$A<{b}'' =
     Inr [\<lparr>tok_start = 0, tok_len = 2, tok_sigil = CHR ''$'', tok_name = ''A'', tok_default = None\<rparr>,
          \<lparr>tok_start = 2, tok_len = 4, tok_sigil = CHR ''<'', tok_name = ''b'', tok_default = None\<rparr>] \<and>
   spans 0 6
     [\<lparr>tok_start = 0, tok_len = 2, tok_sigil = CHR ''$'', tok_name = ''A'', tok_default = None\<rparr>,
      \<lparr>tok_start = 2, tok_len = 4, tok_sigil = CHR ''<'', tok_name = ''b'', tok_default = None\<rparr>]"
proof -
  have refs: "references ''$A<{b}'' =
     Inr [\<lparr>tok_start = 0, tok_len = 2, tok_sigil = CHR ''$'', tok_name = ''A'', tok_default = None\<rparr>,
          \<lparr>tok_start = 2, tok_len = 4, tok_sigil = CHR ''<'', tok_name = ''b'', tok_default = None\<rparr>]"
    by code_simp
  with references_spans[OF refs] show ?thesis by simp
qed

text \<open>
  What \<open>config convert\<close> writes for a plain-text value is always
  a well-formed expression, and unless it holds a reference it evaluates to the plain text itself
  in every environment.
\<close>

theorem literal_as_expression_correct:
  "check_syntax (literal_as_expression s) = Inr () \<and>
   (contains_expression (literal_as_expression s) \<or>
    interpolate (literal_as_expression s) host_env config_vars = Inr s)"
proof (cases "is_ok (check_syntax (escape s [CHR 0x5C]))")
  case True
  then have eq: "literal_as_expression s = escape s [CHR 0x5C]"
    by (simp add: literal_as_expression_def)
  from True obtain ps where ps: "pieces 0 (escape s [CHR 0x5C]) = (ps, None)"
    by (cases "pieces 0 (escape s [CHR 0x5C])") (auto simp: check_syntax_pieces split: option.splits)
  show ?thesis
  proof (cases "piece_refs ps = []")
    case True
    with pieces_backslashes_kept[OF ps] have "ps = map Lit s" by simp
    with ps eq show ?thesis by (simp add: interpolate_pieces check_syntax_pieces eval_lits)
  next
    case False
    with ps eq show ?thesis by (simp add: check_syntax_pieces contains_expression_pieces)
  qed
next
  case False
  then have "literal_as_expression s = literal_kept s" by (simp add: literal_as_expression_def)
  then show ?thesis
    by (simp add: interpolate_pieces check_syntax_pieces pieces_literal_kept eval_lits)
qed

end
