(* ===== verification/Config_Values.thy ===== *)
theory Config_Values
  imports Expressions
begin

text \<open>
  The values of a configuration file that have a grammar of their own, from
  \<open>ratect-core/src/config.rs\<close>: port ranges and mappings, volume and device mounts, network modes,
  byte sizes, ulimits, external health checks and cache names. A value's object form is modelled
  by the record of fields the deserialiser hands over (serde's derived \<open>*Fields\<close> structs) and its
  serialised form by the same record, an entry that is not written being \<open>None\<close>. Error values
  carry what the messages quote.
\<close>

section \<open>Ports\<close>

record port_range =
  pr_from :: u16
  pr_to :: u16

datatype port_error =
    Invalid_Range string
  | Zero_Port string
  | Descending_Range string
  | Range_Size_Mismatch u32 u32
  | Empty_Port_Mapping
  | Invalid_Port_Mapping string

definition port_range_parse :: "string \<Rightarrow> (port_error, port_range) result" where
  "port_range_parse value =
     (let (from_str, to_str) = (case split_once CHR ''-'' value of
                                  Some p \<Rightarrow> p | None \<Rightarrow> (value, value)) in
      case parse_u16 from_str of
        None \<Rightarrow> Inl (Invalid_Range value)
      | Some from \<Rightarrow>
          (case parse_u16 to_str of
             None \<Rightarrow> Inl (Invalid_Range value)
           | Some to \<Rightarrow>
               if from = 0 then Inl (Zero_Port value)
               else if from > to then Inl (Descending_Range value)
               else Inr \<lparr>pr_from = from, pr_to = to\<rparr>))"

definition port_range_size :: "port_range \<Rightarrow> u32" where
  "port_range_size r = (ucast (pr_to r) - ucast (pr_from r)) + 1"

definition port_range_display :: "port_range \<Rightarrow> string" where
  "port_range_display r =
     (if pr_from r = pr_to r then show_u16 (pr_from r)
      else show_u16 (pr_from r) @ ''-'' @ show_u16 (pr_to r))"

text \<open>A scalar as a document holds it. An integer is read by its decimal text.\<close>

datatype scalar = S_Int int | S_Str string

definition show_int :: "int \<Rightarrow> string" where
  "show_int n = (if n < 0 then ''-'' @ show_nat (nat (- n)) else show_nat (nat n))"

fun port_range_deserialize :: "scalar \<Rightarrow> (port_error, port_range) result" where
  "port_range_deserialize (S_Str s) = port_range_parse s"
| "port_range_deserialize (S_Int n) = port_range_parse (show_int n)"

definition port_range_serialize :: "port_range \<Rightarrow> scalar" where
  "port_range_serialize r =
     (if pr_from r = pr_to r then S_Int (uint (pr_from r)) else S_Str (port_range_display r))"

record port_mapping =
  pm_local :: port_range
  pm_container :: port_range
  pm_protocol :: string

definition port_mapping_new ::
    "port_range \<Rightarrow> port_range \<Rightarrow> string \<Rightarrow> (port_error, port_mapping) result" where
  "port_mapping_new lcl cnt protocol =
     (if port_range_size lcl \<noteq> port_range_size cnt
      then Inl (Range_Size_Mismatch (port_range_size lcl) (port_range_size cnt))
      else Inr \<lparr>pm_local = lcl, pm_container = cnt, pm_protocol = protocol\<rparr>)"

definition port_mapping_parse_string :: "string \<Rightarrow> (port_error, port_mapping) result" where
  "port_mapping_parse_string value =
     (if value = [] then Inl Empty_Port_Mapping
      else case split_once CHR '':'' value of
        None \<Rightarrow> Inl (Invalid_Port_Mapping value)
      | Some (lcl, rest) \<Rightarrow>
          (let (cnt, protocol) = (case split_once CHR ''/'' rest of
                                    Some p \<Rightarrow> p | None \<Rightarrow> (rest, ''tcp'')) in
           if lcl = [] \<or> cnt = [] \<or> protocol = [] then Inl (Invalid_Port_Mapping value)
           else rbind (port_range_parse lcl) (\<lambda>l.
                rbind (port_range_parse cnt) (\<lambda>c.
                port_mapping_new l c protocol))))"

record port_mapping_fields =
  pmf_local :: scalar
  pmf_container :: scalar
  pmf_protocol :: "string option"

definition port_mapping_of_fields :: "port_mapping_fields \<Rightarrow> (port_error, port_mapping) result" where
  "port_mapping_of_fields fs =
     rbind (port_range_deserialize (pmf_local fs)) (\<lambda>l.
     rbind (port_range_deserialize (pmf_container fs)) (\<lambda>c.
     port_mapping_new l c (case pmf_protocol fs of Some p \<Rightarrow> p | None \<Rightarrow> ''tcp'')))"

definition port_mapping_serialize :: "port_mapping \<Rightarrow> port_mapping_fields" where
  "port_mapping_serialize m =
     \<lparr>pmf_local = port_range_serialize (pm_local m),
      pmf_container = port_range_serialize (pm_container m),
      pmf_protocol = Some (pm_protocol m)\<rparr>"

text \<open>\<open>i as u16\<close> truncates and the additions are on 16 bits.\<close>

definition port_mapping_expand :: "port_mapping \<Rightarrow> (u16 \<times> u16 \<times> string) list" where
  "port_mapping_expand m =
     map (\<lambda>i. (pr_from (pm_local m) + of_nat i, pr_from (pm_container m) + of_nat i, pm_protocol m))
       [0 ..< unat (port_range_size (pm_local m))]"

definition port_range_ok :: "port_range \<Rightarrow> bool" where
  "port_range_ok r \<longleftrightarrow> 0 < pr_from r \<and> pr_from r \<le> pr_to r"

definition port_mapping_ok :: "port_mapping \<Rightarrow> bool" where
  "port_mapping_ok m \<longleftrightarrow> port_range_ok (pm_local m) \<and> port_range_ok (pm_container m) \<and>
     port_range_size (pm_local m) = port_range_size (pm_container m)"

lemma port_range_parse_ok: "port_range_parse s = Inr r \<Longrightarrow> port_range_ok r"
  by (auto simp: port_range_parse_def port_range_ok_def Let_def word_neq_0_conv not_less
      split: option.splits if_splits prod.splits)

lemma port_mapping_new_ok:
  "port_mapping_new l c p = Inr m \<Longrightarrow> port_range_ok l \<Longrightarrow> port_range_ok c \<Longrightarrow> port_mapping_ok m"
  by (auto simp: port_mapping_new_def port_mapping_ok_def split: if_splits)

lemma port_range_deserialize_ok: "port_range_deserialize v = Inr r \<Longrightarrow> port_range_ok r"
  by (cases v) (auto intro: port_range_parse_ok)

lemma port_mapping_parse_ok: "port_mapping_parse_string s = Inr m \<Longrightarrow> port_mapping_ok m"
  by (auto simp: port_mapping_parse_string_def Let_def
      split: option.splits if_splits prod.splits
      intro: port_mapping_new_ok dest: port_range_parse_ok)

lemma port_mapping_of_fields_ok: "port_mapping_of_fields fs = Inr m \<Longrightarrow> port_mapping_ok m"
  by (auto simp: port_mapping_of_fields_def intro: port_mapping_new_ok dest: port_range_deserialize_ok)

lemma show_u16_no_sep: "CHR ''-'' \<notin> set (show_u16 w)"
  using show_nat_chars is_ascii_digit_not by (fastforce simp: show_u16_def)

lemma port_range_parse_single: "0 < w \<Longrightarrow> port_range_parse (show_u16 w) = Inr \<lparr>pr_from = w, pr_to = w\<rparr>"
proof -
  assume w: "0 < w"
  with show_u16_no_sep show ?thesis by (simp add: port_range_parse_def)
qed

lemma port_range_parse_display: "port_range_ok r \<Longrightarrow> port_range_parse (port_range_display r) = Inr r"
proof -
  assume ok: "port_range_ok r"
  show ?thesis
  proof (cases "pr_from r = pr_to r")
    case True
    with ok port_range_parse_single[of "pr_from r"] show ?thesis
      by (simp add: port_range_display_def port_range_ok_def)
  next
    case False
    with ok show_u16_no_sep show ?thesis
      by (auto simp: port_range_parse_def port_range_display_def port_range_ok_def)
  qed
qed

lemma show_int_uint: "show_int (uint w) = show_u16 w"
  by (simp add: show_int_def show_u16_def)

lemma unat_u32_of_u16: "unat (ucast (w :: u16) :: u32) = unat w"
proof -
  have "unat w < 65536" using unsigned_less[of w] by simp
  then show ?thesis by (simp add: unsigned_ucast_eq take_bit_nat_eq_self)
qed

lemma port_range_size_unat:
  assumes "port_range_ok r"
  shows "unat (port_range_size r) = unat (pr_to r) - unat (pr_from r) + 1"
proof -
  let ?f = "ucast (pr_from r) :: u32" and ?t = "ucast (pr_to r) :: u32"
  have bound: "unat (pr_to r) < 65536" using unsigned_less[of "pr_to r"] by simp
  have le: "unat (pr_from r) \<le> unat (pr_to r)"
    using assms by (simp add: port_range_ok_def word_le_nat_alt)
  then have "?f \<le> ?t" by (simp add: word_le_nat_alt unat_u32_of_u16)
  then have sub: "unat (?t - ?f) = unat (pr_to r) - unat (pr_from r)"
    by (simp add: unat_sub unat_u32_of_u16)
  have "unat (?t - ?f) + 1 < 2 ^ 32" using sub bound by simp
  then have "unat (?t - ?f + 1) = unat (?t - ?f) + 1"
    by (simp add: unat_word_ariths)
  with sub show ?thesis by (simp add: port_range_size_def)
qed

lemma unat_add_in_range:
  assumes "port_range_ok r" and "i < unat (port_range_size r)"
  shows "unat (pr_from r + of_nat i) = unat (pr_from r) + i"
    and "pr_from r \<le> pr_from r + of_nat i" and "pr_from r + of_nat i \<le> pr_to r"
proof -
  have bound: "unat (pr_to r) < 65536" using unsigned_less[of "pr_to r"] by simp
  have le: "unat (pr_from r) \<le> unat (pr_to r)"
    using assms(1) by (simp add: port_range_ok_def word_le_nat_alt)
  have sum: "unat (pr_from r) + i \<le> unat (pr_to r)"
    using assms port_range_size_unat le by simp
  then have "i < 65536" using bound by simp
  then have "unat (of_nat i :: u16) = i" by (simp add: unat_of_nat)
  with sum bound show *: "unat (pr_from r + of_nat i) = unat (pr_from r) + i"
    by (simp add: unat_word_ariths)
  show "pr_from r \<le> pr_from r + of_nat i" "pr_from r + of_nat i \<le> pr_to r"
    using * sum by (simp_all add: word_le_nat_alt)
qed

section \<open>Mounts\<close>

text \<open>
  The compact form \<^verbatim>\<open>local:container[:options]\<close> shared by volumes and devices: two or three
  non-empty parts with no further colon.
\<close>

datatype mount_error =
    Mount_Empty
  | Mount_Invalid string
  | Mount_Scope_Not_Permitted
  | Mount_Name_Not_Permitted string
  | Mount_Local_Not_Permitted string
  | Mount_Missing_Field string
  | Mount_Unknown_Type string
  | Mount_Bad_Expression expr_error

fun mount_parts :: "string \<Rightarrow> string list \<Rightarrow> (mount_error, string \<times> string \<times> string option) result" where
  "mount_parts value [lcl, cnt] =
     (if lcl = [] \<or> cnt = [] then Inl (Mount_Invalid value) else Inr (lcl, cnt, None))"
| "mount_parts value [lcl, cnt, opts] =
     (if lcl = [] \<or> cnt = [] \<or> opts = [] then Inl (Mount_Invalid value) else Inr (lcl, cnt, Some opts))"
| "mount_parts value _ = Inl (Mount_Invalid value)"

definition parse_mount_string :: "string \<Rightarrow> (mount_error, string \<times> string \<times> string option) result" where
  "parse_mount_string value =
     (if value = [] then Inl Mount_Empty else mount_parts value (splitn 4 CHR '':'' value))"

record device_mapping =
  dm_local :: string
  dm_container :: string
  dm_options :: "string option"

definition device_parse_string :: "string \<Rightarrow> (mount_error, device_mapping) result" where
  "device_parse_string value =
     rbind (parse_mount_string value) (\<lambda>(lcl, cnt, opts).
       Inr \<lparr>dm_local = lcl, dm_container = cnt, dm_options = opts\<rparr>)"

datatype cache_scope = Project | Shared

record local_volume =
  lv_local :: string
  lv_container :: string
  lv_options :: "string option"
  lv_compact :: bool

record cache_volume =
  cv_name :: string
  cv_container :: string
  cv_options :: "string option"
  cv_scope :: "cache_scope option"

record tmpfs_volume =
  tv_container :: string
  tv_options :: "string option"

datatype volume_mount = Local local_volume | Cache cache_volume | Tmpfs tmpfs_volume

fun container_path :: "volume_mount \<Rightarrow> string" where
  "container_path (Local m) = lv_container m"
| "container_path (Cache m) = cv_container m"
| "container_path (Tmpfs m) = tv_container m"

definition effective_scope :: "cache_volume \<Rightarrow> cache_scope" where
  "effective_scope c = (case cv_scope c of Some s \<Rightarrow> s | None \<Rightarrow> Project)"

definition local_is_expression :: "local_volume \<Rightarrow> bool \<Rightarrow> bool" where
  "local_is_expression m batect_shaped \<longleftrightarrow> \<not> (lv_compact m \<and> batect_shaped)"

definition checked_expression :: "string \<Rightarrow> (mount_error, string) result" where
  "checked_expression value = map_err Mount_Bad_Expression (rbind (check_syntax value) (\<lambda>_. Inr value))"

definition volume_parse_string :: "string \<Rightarrow> (mount_error, volume_mount) result" where
  "volume_parse_string value =
     rbind (parse_mount_string value) (\<lambda>(lcl, cnt, opts).
       Inr (Local \<lparr>lv_local = lcl, lv_container = cnt, lv_options = opts, lv_compact = True\<rparr>))"

definition volume_visit_str :: "bool \<Rightarrow> string \<Rightarrow> (mount_error, volume_mount) result" where
  "volume_visit_str batect_format value =
     rbind (volume_parse_string value) (\<lambda>mount.
       case mount of
         Local m \<Rightarrow>
           if local_is_expression m batect_format
           then rbind (checked_expression (lv_local m)) (\<lambda>_. Inr mount)
           else Inr mount
       | _ \<Rightarrow> Inr mount)"

record volume_fields =
  vf_local :: "string option"
  vf_container :: string
  vf_options :: "string option"
  vf_name :: "string option"
  vf_type :: "string option"
  vf_scope :: "cache_scope option"

definition volume_visit_map :: "bool \<Rightarrow> volume_fields \<Rightarrow> (mount_error, volume_mount) result" where
  "volume_visit_map batect_format fs =
     (let ty = (case vf_type fs of Some t \<Rightarrow> t | None \<Rightarrow> ''local'') in
      if ty = ''local'' then
        if vf_scope fs \<noteq> None then Inl Mount_Scope_Not_Permitted
        else if vf_name fs \<noteq> None then Inl (Mount_Name_Not_Permitted ''local path'')
        else (case vf_local fs of
                None \<Rightarrow> Inl (Mount_Missing_Field ''local'')
              | Some l \<Rightarrow>
                  (let m = \<lparr>lv_local = l, lv_container = vf_container fs,
                            lv_options = vf_options fs, lv_compact = False\<rparr> in
                   if local_is_expression m batect_format
                   then rbind (checked_expression l) (\<lambda>l'. Inr (Local (m\<lparr>lv_local := l'\<rparr>)))
                   else Inr (Local m)))
      else if ty = ''cache'' then
        if vf_local fs \<noteq> None then Inl (Mount_Local_Not_Permitted ''cache'')
        else (case vf_name fs of
                None \<Rightarrow> Inl (Mount_Missing_Field ''name'')
              | Some n \<Rightarrow> Inr (Cache \<lparr>cv_name = n, cv_container = vf_container fs,
                                      cv_options = vf_options fs, cv_scope = vf_scope fs\<rparr>))
      else if ty = ''tmpfs'' then
        if vf_scope fs \<noteq> None then Inl Mount_Scope_Not_Permitted
        else if vf_local fs \<noteq> None then Inl (Mount_Local_Not_Permitted ''tmpfs'')
        else if vf_name fs \<noteq> None then Inl (Mount_Name_Not_Permitted ''tmpfs'')
        else Inr (Tmpfs \<lparr>tv_container = vf_container fs, tv_options = vf_options fs\<rparr>)
      else Inl (Mount_Unknown_Type ty))"

fun volume_serialize :: "volume_mount \<Rightarrow> volume_fields" where
  "volume_serialize (Local m) =
     \<lparr>vf_local = Some (lv_local m), vf_container = lv_container m, vf_options = lv_options m,
      vf_name = None, vf_type = None, vf_scope = None\<rparr>"
| "volume_serialize (Cache m) =
     \<lparr>vf_local = None, vf_container = cv_container m, vf_options = cv_options m,
      vf_name = Some (cv_name m), vf_type = Some ''cache'', vf_scope = cv_scope m\<rparr>"
| "volume_serialize (Tmpfs m) =
     \<lparr>vf_local = None, vf_container = tv_container m, vf_options = tv_options m,
      vf_name = None, vf_type = Some ''tmpfs'', vf_scope = None\<rparr>"

section \<open>Network modes\<close>

datatype network_mode = Host | No_Network | Container_Network string

definition network_mode_try_from :: "string \<Rightarrow> (string, network_mode) result" where
  "network_mode_try_from value =
     (if value = ''host'' then Inr Host
      else if value = ''none'' then Inr No_Network
      else case strip_prefix ''container:'' value of
        Some name \<Rightarrow> if name \<noteq> [] then Inr (Container_Network name) else Inl value
      | None \<Rightarrow> Inl value)"

fun network_mode_string :: "network_mode \<Rightarrow> string" where
  "network_mode_string Host = ''host''"
| "network_mode_string No_Network = ''none''"
| "network_mode_string (Container_Network name) = ''container:'' @ name"

section \<open>Sizes, limits and names\<close>

definition i64_max :: nat where
  "i64_max = 9223372036854775807"

text \<open>The count is parsed as an \<open>i64\<close> and multiplied with \<open>checked_mul\<close>.\<close>

definition size_unit :: "string \<Rightarrow> string \<times> nat" where
  "size_unit without_b =
     (case strip_suffix ''k'' without_b of Some rest \<Rightarrow> (rest, 1024)
      | None \<Rightarrow> (case strip_suffix ''m'' without_b of Some rest \<Rightarrow> (rest, 1024 * 1024)
      | None \<Rightarrow> (case strip_suffix ''g'' without_b of Some rest \<Rightarrow> (rest, 1024 * 1024 * 1024)
      | None \<Rightarrow> (without_b, 1))))"

definition parse_byte_size :: "string \<Rightarrow> (string, nat) result" where
  "parse_byte_size value =
     (let lower = to_ascii_lowercase (trim value);
          without_b = (case strip_suffix ''b'' lower of Some r \<Rightarrow> r | None \<Rightarrow> lower);
          (digits, multiplier) = size_unit without_b;
          digits = trim_end digits
      in if digits = [] \<or> \<not> list_all is_ascii_digit digits then Inl value
         else case parse_unsigned i64_max digits of
                None \<Rightarrow> Inl value
              | Some count \<Rightarrow>
                  if count * multiplier \<le> i64_max then Inr (count * multiplier) else Inl value)"

fun deserialize_shm_size :: "scalar \<Rightarrow> (string, nat) result" where
  "deserialize_shm_size (S_Str v) = parse_byte_size v"
| "deserialize_shm_size (S_Int v) =
     (if v < 0 \<or> v > int i64_max then Inl (show_int v) else Inr (nat v))"

datatype ulimit_error = Unlimited_Soft int | Soft_Above_Hard int int

definition ulimit_new :: "int \<Rightarrow> int \<Rightarrow> (ulimit_error, int \<times> int) result" where
  "ulimit_new soft hard =
     (if hard \<noteq> -1 then
        if soft = -1 then Inl (Unlimited_Soft hard)
        else if soft > hard then Inl (Soft_Above_Hard soft hard)
        else Inr (soft, hard)
      else Inr (soft, hard))"

definition ulimit_of_fields :: "int \<Rightarrow> int option \<Rightarrow> (ulimit_error, int \<times> int) result" where
  "ulimit_of_fields soft hard = ulimit_new soft (case hard of Some h \<Rightarrow> h | None \<Rightarrow> soft)"

definition validate_cache_name :: "string \<Rightarrow> bool" where
  "validate_cache_name name \<longleftrightarrow>
     (case name of [] \<Rightarrow> False | c # _ \<Rightarrow> is_ascii_alphanumeric c) \<and>
     list_all (\<lambda>c. is_ascii_alphanumeric c \<or> c \<in> set ''_.-'') name"

definition task_name_check :: "string \<Rightarrow> bool" where
  "task_name_check name \<longleftrightarrow>
     name \<noteq> [] \<and> is_ascii_alphanumeric (hd name) \<and> is_ascii_alphanumeric (last name) \<and>
     list_all (\<lambda>c. is_ascii_alphanumeric c \<or> c \<in> set ''._:-'') name"

definition config_variable_name_check :: "string \<Rightarrow> bool" where
  "config_variable_name_check name \<longleftrightarrow>
     \<not> (6 \<le> length name \<and> to_ascii_lowercase (take 6 name) = ''batect'') \<and>
     name \<noteq> [] \<and> is_ascii_alphabetic (hd name) \<and>
     list_all (\<lambda>c. is_ascii_alphanumeric c \<or> c \<in> set ''._-'') name"

section \<open>External health checks\<close>

datatype health_check_kind =
    Http u16 string u16   \<comment> \<open>port, path, expected status\<close>
  | Tcp u16

text \<open>Durations are whole nanoseconds, as \<open>parse_duration\<close> leaves them.\<close>

record external_health_check =
  ehc_kind :: health_check_kind
  ehc_interval :: "nat option"
  ehc_retries :: "u32 option"
  ehc_timeout :: "nat option"

record external_health_check_fields =
  ehf_type :: string
  ehf_port :: u16
  ehf_path :: "string option"
  ehf_expected_status :: "u16 option"
  ehf_interval :: "nat option"
  ehf_retries :: "u32 option"
  ehf_timeout :: "nat option"

datatype health_check_error = Path_Only_For_Http | Status_Only_For_Http | Unknown_Check_Type string

definition health_check_try_from ::
    "external_health_check_fields \<Rightarrow> (health_check_error, external_health_check) result" where
  "health_check_try_from fs =
     rbind
       (if ehf_type fs = ''http'' then
          Inr (Http (ehf_port fs) (case ehf_path fs of Some p \<Rightarrow> p | None \<Rightarrow> ''/'')
                 (case ehf_expected_status fs of Some s \<Rightarrow> s | None \<Rightarrow> 200))
        else if ehf_type fs = ''tcp'' then
          if ehf_path fs \<noteq> None then Inl Path_Only_For_Http
          else if ehf_expected_status fs \<noteq> None then Inl Status_Only_For_Http
          else Inr (Tcp (ehf_port fs))
        else Inl (Unknown_Check_Type (ehf_type fs)))
       (\<lambda>kind. Inr \<lparr>ehc_kind = kind, ehc_interval = ehf_interval fs,
                    ehc_retries = ehf_retries fs, ehc_timeout = ehf_timeout fs\<rparr>)"

definition health_check_fields :: "external_health_check \<Rightarrow> external_health_check_fields" where
  "health_check_fields check =
     (case ehc_kind check of
        Http port path status \<Rightarrow>
          \<lparr>ehf_type = ''http'', ehf_port = port, ehf_path = Some path,
           ehf_expected_status = Some status, ehf_interval = ehc_interval check,
           ehf_retries = ehc_retries check, ehf_timeout = ehc_timeout check\<rparr>
      | Tcp port \<Rightarrow>
          \<lparr>ehf_type = ''tcp'', ehf_port = port, ehf_path = None, ehf_expected_status = None,
           ehf_interval = ehc_interval check, ehf_retries = ehc_retries check,
           ehf_timeout = ehc_timeout check\<rparr>)"

section \<open>Lemmas on the value grammars\<close>

lemma port_range_roundtrip: "port_range_ok r \<Longrightarrow> port_range_deserialize (port_range_serialize r) = Inr r"
  by (auto simp: port_range_serialize_def port_range_parse_display show_int_uint
      port_range_ok_def port_range_parse_single)

lemma splitn_colon:
  "splitn 4 d s = (case split_once d s of None \<Rightarrow> [s] | Some (a, r) \<Rightarrow> a # (case split_once d r of
     None \<Rightarrow> [r] | Some (b, r') \<Rightarrow> b # (case split_once d r' of None \<Rightarrow> [r'] | Some (c, r'') \<Rightarrow> [c, r''])))"
  by (simp add: numeral_eq_Suc split: option.splits)

lemma parse_mount_string_iff:
  "parse_mount_string s = Inr (l, c, opts) \<longleftrightarrow>
     s = l @ '':'' @ c @ (case opts of None \<Rightarrow> [] | Some x \<Rightarrow> '':'' @ x) \<and>
     l \<noteq> [] \<and> c \<noteq> [] \<and> opts \<noteq> Some [] \<and>
     CHR '':'' \<notin> set l \<and> CHR '':'' \<notin> set c \<and> (\<forall>x. opts = Some x \<longrightarrow> CHR '':'' \<notin> set x)"
  (is "?L \<longleftrightarrow> ?R")
proof
  show "?L \<Longrightarrow> ?R"
    by (auto simp: parse_mount_string_def splitn_colon split: if_splits option.splits)
  show "?R \<Longrightarrow> ?L"
    by (cases opts) (auto simp: parse_mount_string_def splitn_colon)
qed

lemma checked_expression_Ok [simp]: "checked_expression v = Inr w \<longleftrightarrow> w = v \<and> check_syntax v = Inr ()"
  by (auto simp: checked_expression_def)

lemma volume_visit_map_local:
  assumes "volume_visit_map b fs = Inr (Local v)"
  shows "check_syntax (lv_local v) = Inr () \<and> \<not> lv_compact v"
proof -
  let ?ty = "case vf_type fs of Some t \<Rightarrow> t | None \<Rightarrow> ''local''"
  have "?ty = ''local'' \<and> vf_scope fs = None \<and> vf_name fs = None"
    using assms unfolding volume_visit_map_def Let_def
    by (cases "?ty = ''local''"; cases "?ty = ''cache''"; cases "?ty = ''tmpfs''"; cases "vf_name fs")
      (simp_all split: if_splits)
  then show ?thesis
    using assms by (cases "vf_local fs") (auto simp: volume_visit_map_def local_is_expression_def)
qed

lemma strip_suffix_last:
  "s \<noteq> [] \<Longrightarrow> strip_suffix [c] s = (if last s = c then Some (butlast s) else None)"
  by (auto simp: strip_suffix_None)

lemma trim_id: "s \<noteq> [] \<Longrightarrow> \<not> is_whitespace (hd s) \<Longrightarrow> \<not> is_whitespace (last s) \<Longrightarrow> trim s = s"
proof -
  assume s: "s \<noteq> []" "\<not> is_whitespace (hd s)" "\<not> is_whitespace (last s)"
  then have "trim_start s = s" by (cases s) (auto simp: trim_start_def)
  moreover from s have "dropWhile is_whitespace (rev s) = rev s"
    by (metis dropWhile_eq_self_iff hd_rev)
  ultimately show ?thesis by (simp add: trim_def trim_end_def)
qed

lemma digit_not_whitespace: "is_ascii_digit c \<Longrightarrow> \<not> is_whitespace c \<and> to_ascii_lower_char c = c"
  by (auto simp: char_class_defs to_ascii_lower_char_def)

lemma trim_end_digits: "s \<noteq> [] \<Longrightarrow> list_all is_ascii_digit s \<Longrightarrow> trim_end s = s"
proof -
  assume s: "s \<noteq> []" "list_all is_ascii_digit s"
  then have "\<not> is_whitespace (last s)" by (simp add: list_all_iff digit_not_whitespace)
  with s show ?thesis by (metis dropWhile_eq_self_iff hd_rev rev_rev_ident trim_end_def)
qed

lemma parse_unsigned_digits:
  "ds \<noteq> [] \<Longrightarrow> list_all is_ascii_digit ds \<Longrightarrow>
     parse_unsigned limit ds = (if digits_value ds \<le> limit then Some (digits_value ds) else None)"
  using is_ascii_digit_not by (cases ds) (auto simp: parse_unsigned_def)

text \<open>The units of the size grammar, and the grammar on its canonical spellings.\<close>

definition size_units :: "(string \<times> nat) set" where
  "size_units = {([], 1), (''k'', 1024), (''m'', 1048576), (''g'', 1073741824)}"

lemma parse_byte_size_digits:
  assumes ds: "ds \<noteq> []" "list_all is_ascii_digit ds"
    and u: "(u, mult) \<in> size_units"
    and b: "b \<in> {[], ''b''}"
  shows "parse_byte_size (ds @ u @ b) =
    (if digits_value ds \<le> i64_max \<and> digits_value ds * mult \<le> i64_max
     then Inr (digits_value ds * mult) else Inl (ds @ u @ b))"
proof -
  let ?v = "ds @ u @ b"
  note u = u[unfolded size_units_def]
  have hd: "hd ?v \<in> set ds" using ds by (cases ds) auto
  have last: "last ?v \<in> set ds \<union> set ''kmgb''" using ds u b by auto
  have dig: "is_ascii_digit c" if "c \<in> set ds" for c using that ds by (simp add: list_all_iff)
  have ws: "\<not> is_whitespace c" if "c \<in> set ds \<union> set ''kmgb''" for c
    using that dig digit_not_whitespace by (auto simp: is_whitespace_def char_code_def)
  have low: "to_ascii_lower_char c = c" if "c \<in> set ?v" for c
  proof (cases "c \<in> set ds")
    case True
    then show ?thesis using dig digit_not_whitespace by blast
  next
    case False
    with that u b have "c \<in> set ''kmgb''" by auto
    then show ?thesis by (auto simp: to_ascii_lower_char_def is_ascii_upper_def char_code_def)
  qed
  have "trim ?v = ?v" using ds hd last ws by (intro trim_id) auto
  then have lower: "to_ascii_lowercase (trim ?v) = ?v"
    using low by (simp add: to_ascii_lowercase_def map_idI)
  have "is_ascii_digit (last ds)" using dig ds by simp
  then have nd: "last ds \<notin> set ''kmgb''"
    by (auto simp: is_ascii_digit_def char_code_def)
  have wb: "(case strip_suffix ''b'' ?v of Some r \<Rightarrow> r | None \<Rightarrow> ?v) = ds @ u"
    using u b nd ds by (auto simp: strip_suffix_last butlast_append)
  have su: "size_unit (ds @ u) = (ds, mult)"
    using u nd ds by (auto simp: size_unit_def strip_suffix_last butlast_append)
  show ?thesis
    using ds by (simp add: parse_byte_size_def lower wb su Let_def trim_end_digits parse_unsigned_digits)
qed

section \<open>Properties\<close>

text \<open>
  C38 (port_mapping_expand_correct): expanding a mapping that parsed never wraps around 16 bits. There
  is one triple per port of the local range; the \<open>i\<close>-th publishes local port \<open>from + i\<close> for container
  port \<open>from + i\<close>, both computed exactly and inside their declared ranges, and no local port is
  published twice.
\<close>

theorem port_mapping_expand_correct:
  assumes "port_mapping_parse_string s = Inr m \<or> port_mapping_of_fields fs = Inr m"
  shows "length (port_mapping_expand m) = unat (pr_to (pm_local m)) - unat (pr_from (pm_local m)) + 1 \<and>
    (\<forall>i < length (port_mapping_expand m).
       \<exists>l c. port_mapping_expand m ! i = (l, c, pm_protocol m) \<and>
         unat l = unat (pr_from (pm_local m)) + i \<and> l \<le> pr_to (pm_local m) \<and>
         unat c = unat (pr_from (pm_container m)) + i \<and> c \<le> pr_to (pm_container m)) \<and>
    distinct (map fst (port_mapping_expand m))"
proof -
  have ok: "port_mapping_ok m" using assms port_mapping_parse_ok port_mapping_of_fields_ok by blast
  let ?n = "unat (port_range_size (pm_local m))"
  note rl = unat_add_in_range[of "pm_local m"] and rc = unat_add_in_range[of "pm_container m"]
  have len: "length (port_mapping_expand m) = ?n" by (simp add: port_mapping_expand_def)
  have entry: "\<exists>l c. port_mapping_expand m ! i = (l, c, pm_protocol m) \<and>
         unat l = unat (pr_from (pm_local m)) + i \<and> l \<le> pr_to (pm_local m) \<and>
         unat c = unat (pr_from (pm_container m)) + i \<and> c \<le> pr_to (pm_container m)" if "i < ?n" for i
    using that rl[of i] rc[of i] ok by (simp add: port_mapping_expand_def port_mapping_ok_def)
  have "inj_on (\<lambda>i. pr_from (pm_local m) + of_nat i) {0 ..< ?n}"
    by (rule inj_onI) (metis rl(1) ok port_mapping_ok_def atLeastLessThan_iff add_left_cancel)
  then have "distinct (map fst (port_mapping_expand m))"
    by (simp add: port_mapping_expand_def distinct_map comp_def)
  with len entry port_range_size_unat[of "pm_local m"] ok show ?thesis
    by (simp add: port_mapping_ok_def)
qed

theorem port_mapping_expand_correct_witness:
  "port_mapping_parse_string ''8000-8001:65534-65535'' =
     Inr \<lparr>pm_local = \<lparr>pr_from = 8000, pr_to = 8001\<rparr>,
          pm_container = \<lparr>pr_from = 65534, pr_to = 65535\<rparr>, pm_protocol = ''tcp''\<rparr> \<and>
   length (port_mapping_expand \<lparr>pm_local = \<lparr>pr_from = 8000, pr_to = 8001\<rparr>,
          pm_container = \<lparr>pr_from = 65534, pr_to = 65535\<rparr>, pm_protocol = ''tcp''\<rparr>) = 2"
proof -
  have p: "port_mapping_parse_string ''8000-8001:65534-65535'' =
     Inr \<lparr>pm_local = \<lparr>pr_from = 8000, pr_to = 8001\<rparr>,
          pm_container = \<lparr>pr_from = 65534, pr_to = 65535\<rparr>, pm_protocol = ''tcp''\<rparr>"
    by (simp add: port_mapping_parse_string_def port_range_parse_def parse_u16_def parse_unsigned_def
        digits_value_def digit_value_def char_class_defs port_mapping_new_def port_range_size_def)
  with port_mapping_expand_correct[OF disjI1[OF p]] show ?thesis by simp
qed

text \<open>
  \<open>config convert\<close> loses nothing of a port mapping. Whatever form it was
  read from, writing it in the object form and reading that back gives the same mapping.
\<close>

theorem port_mapping_roundtrip:
  assumes "port_mapping_parse_string s = Inr m \<or> port_mapping_of_fields fs = Inr m"
  shows "port_mapping_of_fields (port_mapping_serialize m) = Inr m"
proof -
  have "port_mapping_ok m" using assms port_mapping_parse_ok port_mapping_of_fields_ok by blast
  then show ?thesis
    by (auto simp: port_mapping_of_fields_def port_mapping_serialize_def port_mapping_ok_def
        port_range_roundtrip port_mapping_new_def)
qed

theorem port_mapping_roundtrip_witness:
  "\<exists>m. port_mapping_parse_string ''80:8080/udp'' = Inr m \<and>
       port_mapping_of_fields (port_mapping_serialize m) = Inr m"
proof -
  have p: "port_mapping_parse_string ''80:8080/udp'' =
     Inr \<lparr>pm_local = \<lparr>pr_from = 80, pr_to = 80\<rparr>,
          pm_container = \<lparr>pr_from = 8080, pr_to = 8080\<rparr>, pm_protocol = ''udp''\<rparr>"
    by (simp add: port_mapping_parse_string_def port_range_parse_def parse_u16_def parse_unsigned_def
        digits_value_def digit_value_def char_class_defs port_mapping_new_def port_range_size_def)
  with port_mapping_roundtrip[OF disjI1[OF p]] show ?thesis by blast
qed

text \<open>
  The compact volume form accepts exactly the texts
  \<^verbatim>\<open>local:container\<close> and \<^verbatim>\<open>local:container:options\<close> whose parts are non-empty and hold no colon,
  and returns those parts.
\<close>

theorem volume_parse_string_iff:
  "volume_parse_string s = Inr v \<longleftrightarrow>
     (\<exists>l c opts. v = Local \<lparr>lv_local = l, lv_container = c, lv_options = opts, lv_compact = True\<rparr> \<and>
        s = join '':'' (l # c # (case opts of None \<Rightarrow> [] | Some x \<Rightarrow> [x])) \<and>
        list_all (\<lambda>part. part \<noteq> [] \<and> CHR '':'' \<notin> set part)
          (l # c # (case opts of None \<Rightarrow> [] | Some x \<Rightarrow> [x])))"
  by (auto simp: volume_parse_string_def parse_mount_string_iff split: option.splits)

text \<open>
  A volume read in the object form is written in the object form and read
  back unchanged, whichever of the three mount types it has.
\<close>

theorem volume_roundtrip:
  assumes "volume_visit_map batect_format fs = Inr m"
  shows "volume_visit_map batect_format (volume_serialize m) = Inr m"
proof (cases m)
  case (Local v)
  with volume_visit_map_local assms show ?thesis
    by (auto simp: volume_visit_map_def local_is_expression_def)
qed (simp_all add: volume_visit_map_def)

theorem volume_roundtrip_witness:
  "volume_visit_map False
     (volume_serialize (Cache \<lparr>cv_name = ''cargo'', cv_container = ''/c'', cv_options = None,
        cv_scope = Some Shared\<rparr>)) =
   Inr (Cache \<lparr>cv_name = ''cargo'', cv_container = ''/c'', cv_options = None, cv_scope = Some Shared\<rparr>)"
  by (rule volume_roundtrip[of False "\<lparr>vf_local = None, vf_container = ''/c'', vf_options = None,
        vf_name = Some ''cargo'', vf_type = Some ''cache'', vf_scope = Some Shared\<rparr>"])
    (simp add: volume_visit_map_def)

text \<open>
  Every size that parses fits a signed 64-bit integer, and on a count
  of digits followed by an optional unit and an optional \<open>b\<close> the result is the count times the unit,
  or the error when that product does not fit.
\<close>

theorem parse_byte_size_correct:
  "(\<forall>s n. parse_byte_size s = Inr n \<longrightarrow> n \<le> i64_max) \<and>
   (\<forall>count u mult b. (u, mult) \<in> size_units \<longrightarrow> b \<in> {[], ''b''} \<longrightarrow>
        parse_byte_size (show_nat count @ u @ b) =
          (if count * mult \<le> i64_max then Inr (count * mult) else Inl (show_nat count @ u @ b)))"
proof -
  have "parse_byte_size s = Inr n \<longrightarrow> n \<le> i64_max" for s n
    by (auto simp: parse_byte_size_def Let_def split: if_splits option.splits prod.splits)
  moreover have "parse_byte_size (show_nat count @ u @ b) =
      (if count * mult \<le> i64_max then Inr (count * mult) else Inl (show_nat count @ u @ b))"
    if um: "(u, mult) \<in> size_units" and b: "b \<in> {[], ''b''}" for count u mult b
  proof -
    from um have "1 \<le> mult" by (auto simp: size_units_def)
    then have "count \<le> count * mult" by (cases mult) auto
    then have "count * mult \<le> i64_max \<Longrightarrow> count \<le> i64_max" by (rule order_trans)
    with parse_byte_size_digits[OF _ _ um b, of "show_nat count"] show_nat_digits show ?thesis by auto
  qed
  ultimately show ?thesis by blast
qed

theorem parse_byte_size_correct_witness:
  "parse_byte_size (show_nat 2 @ ''g'' @ ''b'') = Inr 2147483648"
proof -
  have "(''g'', 1073741824) \<in> size_units" by (simp add: size_units_def)
  then have "parse_byte_size (show_nat 2 @ ''g'' @ ''b'') =
      (if 2 * 1073741824 \<le> i64_max then Inr (2 * 1073741824) else Inl (show_nat 2 @ ''g'' @ ''b''))"
    using parse_byte_size_correct by blast
  then show ?thesis by (simp add: i64_max_def)
qed

text \<open>
  Parsing and printing a network mode are inverse to each other: what
  parses is printed as it was written, and every mode but one sharing the network of a container
  with an empty name is read back from its printed form.
\<close>

lemma network_mode_roundtrip:
  "network_mode_try_from s = Inr mode \<longleftrightarrow>
     s = network_mode_string mode \<and> mode \<noteq> Container_Network []"
  by (cases mode) (auto simp: network_mode_try_from_def strip_prefix_None split: option.splits if_splits)

text \<open>
  An external health check survives the conversion to its flat, tagged
  form and back, and the flat form is accepted exactly when its type is known and a \<open>tcp\<close> check sets
  neither a path nor a status.
\<close>

lemma health_check_roundtrip:
  "health_check_try_from (health_check_fields check) = Inr check \<and>
   (is_ok (health_check_try_from fs) \<longleftrightarrow>
      ehf_type fs = ''http'' \<or>
      (ehf_type fs = ''tcp'' \<and> ehf_path fs = None \<and> ehf_expected_status fs = None))"
  by (auto simp: health_check_try_from_def health_check_fields_def is_ok_iff split: health_check_kind.splits)

text \<open>
  A cache name that passes validation is one path segment: joined onto
  a directory it can neither leave it nor replace it, because it is not empty, holds no slash and is
  neither the current nor the parent directory.
\<close>

theorem validate_cache_name_safe:
  assumes "validate_cache_name name"
  shows "split CHR ''/'' (''/caches/'' @ name) = [[], ''caches'', name] \<and>
         name \<noteq> [] \<and> name \<noteq> ''.'' \<and> name \<noteq> ''..'' \<and> \<not> starts_with name ''/''"
proof -
  from assms obtain c cs where name: "name = c # cs" and c: "is_ascii_alphanumeric c"
    by (cases name) (auto simp: validate_cache_name_def)
  have "\<not> is_ascii_alphanumeric CHR ''/''" "\<not> is_ascii_alphanumeric CHR ''.''"
    by (simp_all add: char_class_defs)
  moreover from assms have "\<forall>d \<in> set name. is_ascii_alphanumeric d \<or> d \<in> set ''_.-''"
    by (simp add: validate_cache_name_def list_all_iff)
  ultimately have "CHR ''/'' \<notin> set name" "c \<noteq> CHR ''.''" "c \<noteq> CHR ''/''" using c by auto
  then show ?thesis by (auto simp: name split_id starts_with_iff)
qed

theorem validate_cache_name_safe_witness:
  "split CHR ''/'' (''/caches/'' @ ''npm-9.x'') = [[], ''caches'', ''npm-9.x'']"
proof -
  have "validate_cache_name ''npm-9.x''" by code_simp
  from validate_cache_name_safe[OF this] show ?thesis by blast
qed

end
