(* ===== verification/Text_Output.thy ===== *)
theory Text_Output
  imports Rust_Std
begin

text \<open>
  The escaping rule of \<open>ratect-core/src/ui.rs\<close>: \<open>printable\<close> and \<open>escape_controls\<close>, the \<open>Text\<close> type
  every console entry point takes, its two conversions (\<open>From<&str>\<close>, which keeps line breaks and
  tabs, and \<open>ToText\<close>, which keeps nothing), and \<open>Text::join\<close>. A \<open>text!\<close> line is the concatenation of
  its literal pieces and of the \<open>to_text\<close> of its arguments.
\<close>

section \<open>Escaping\<close>

definition hex_digit :: "nat \<Rightarrow> char" where
  "hex_digit n = (if n < 10 then char_of (48 + n) else char_of (87 + n))"

text \<open>\<open>char::escape_debug\<close> on a control character: NUL, tab, line feed and carriage return have
  escapes of their own, any other is \<^verbatim>\<open>\u{..}\<close> with its number in hexadecimal, unpadded.\<close>

definition escape_debug_control :: "char \<Rightarrow> string" where
  "escape_debug_control c =
     (if char_code c = 0 then [CHR 92, CHR ''0'']
      else if char_code c = 9 then [CHR 92, CHR ''t'']
      else if char_code c = 10 then [CHR 92, CHR ''n'']
      else if char_code c = 13 then [CHR 92, CHR ''r'']
      else [CHR 92, CHR ''u'', CHR ''{''] @
        (if char_code c < 16 then [hex_digit (char_code c)]
         else [hex_digit (char_code c div 16), hex_digit (char_code c mod 16)]) @ [CHR ''}''])"

definition escape_controls :: "(char \<Rightarrow> bool) \<Rightarrow> string \<Rightarrow> string" where
  "escape_controls escaped value =
     concat (map (\<lambda>c. if is_control c \<and> escaped c then escape_debug_control c else [c]) value)"

definition printable :: "string \<Rightarrow> string" where
  "printable value = escape_controls (\<lambda>_. True) value"

section \<open>Printable text\<close>

datatype safe_text = Text (as_str: string)

text \<open>\<open>From<&str>\<close>: a whole message, whose line breaks and tabs are its layout.\<close>

definition text_of_message :: "string \<Rightarrow> safe_text" where
  "text_of_message t = Text (escape_controls (\<lambda>c. c \<noteq> CHR 10 \<and> c \<noteq> CHR 9) t)"

text \<open>\<open>ToText\<close>: one value quoted in a line.\<close>

definition to_text :: "string \<Rightarrow> safe_text" where
  "to_text s = Text (printable s)"

definition text_join :: "safe_text list \<Rightarrow> string \<Rightarrow> safe_text" where
  "text_join items separator = Text (join separator (map as_str items))"

section \<open>What escaping gives\<close>

lemma hex_digit_not_control: "n < 16 \<Longrightarrow> \<not> is_control (hex_digit n)"
  by (simp add: hex_digit_def is_control_def char_code_def)

lemma char_code_less: "char_code c < 256"
  unfolding char_code_def of_char_def by (cases c) simp

lemma escape_debug_control_clean: "x \<in> set (escape_debug_control c) \<Longrightarrow> \<not> is_control x"
proof -
  have "char_code c div 16 < 16" using char_code_less[of c] by (simp add: less_mult_imp_div_less)
  moreover assume "x \<in> set (escape_debug_control c)"
  ultimately show ?thesis
    using hex_digit_not_control[of "char_code c"]
      hex_digit_not_control[of "char_code c div 16"] hex_digit_not_control[of "char_code c mod 16"]
    by (auto simp: escape_debug_control_def is_control_def char_code_def split: if_splits)
qed

lemma escape_controls_append [simp]:
  "escape_controls f (a @ b) = escape_controls f a @ escape_controls f b"
  by (simp add: escape_controls_def)

lemma escape_controls_keeps:
  "x \<in> set (escape_controls f s) \<Longrightarrow> is_control x \<Longrightarrow> \<not> f x \<and> x \<in> set s"
  using escape_debug_control_clean by (fastforce simp: escape_controls_def split: if_splits)

lemma escape_controls_id:
  "(\<And>c. c \<in> set s \<Longrightarrow> is_control c \<Longrightarrow> \<not> f c) \<Longrightarrow> escape_controls f s = s"
  by (induction s) (auto simp: escape_controls_def)

lemma printable_clean: "x \<in> set (printable s) \<Longrightarrow> \<not> is_control x"
  using escape_controls_keeps unfolding printable_def by blast

lemma printable_no_control [simp]:
  "CHR 10 \<notin> set (printable s)" "CHR 9 \<notin> set (printable s)" "CHR 13 \<notin> set (printable s)"
  using printable_clean[of "CHR 10" s] printable_clean[of "CHR 9" s] printable_clean[of "CHR 13" s]
  by (auto simp: is_control_def char_code_def)

lemma printable_idem [simp]: "printable (printable s) = printable s"
  unfolding printable_def
  by (rule escape_controls_id) (use printable_clean in \<open>auto simp: printable_def\<close>)

text \<open>
  The escaping rule. Nothing \<open>printable\<close> returns holds a control character,
  whatever the configuration value it quotes; a message turned into \<open>Text\<close> holds none but the line
  breaks and tabs the message had; and a value with no control character is printed as written.
\<close>

theorem printable_safe:
  "\<not> (\<exists>c \<in> set (printable s). is_control c) \<and>
   {c \<in> set (as_str (text_of_message s)). is_control c} = set s \<inter> {CHR 10, CHR 9} \<and>
   (printable s = s \<longleftrightarrow> list_all (\<lambda>c. \<not> is_control c) s)"
proof (intro conjI)
  show "\<not> (\<exists>c \<in> set (printable s). is_control c)" using printable_clean by blast
  have keep: "c \<in> set (escape_controls f s)" if "c \<in> set s" "\<not> f c" for c f
    using that by (force simp: escape_controls_def)
  show "{c \<in> set (as_str (text_of_message s)). is_control c} = set s \<inter> {CHR 10, CHR 9}"
    using escape_controls_keeps[of _ "\<lambda>c. c \<noteq> CHR 10 \<and> c \<noteq> CHR 9" s]
      keep[of _ "\<lambda>c. c \<noteq> CHR 10 \<and> c \<noteq> CHR 9"]
    by (auto simp: text_of_message_def is_control_def char_code_def)
  show "printable s = s \<longleftrightarrow> list_all (\<lambda>c. \<not> is_control c) s"
    using printable_clean[of _ s] escape_controls_id[of s "\<lambda>_. True"]
    by (auto simp: list_all_iff printable_def)
qed

end
