(* ===== verification/Digraphs.thy ===== *)
theory Digraphs
  imports Ratect_Prelude
begin

text \<open>
  The graphs the program walks (containers and their dependencies, tasks and their prerequisites,
  containers and what they extend, network namespaces) are all given by a successor list per node
  with finitely many nodes that have one. The locale \<open>finite_digraph\<close> is that interface; what a
  walk needs of it, reachable sets, their finiteness, and well-foundedness of an acyclic graph, is
  proved here once.
\<close>

definition edges_of :: "('n \<Rightarrow> 'n list) \<Rightarrow> ('n \<times> 'n) set" where
  "edges_of succs = {(a, b). b \<in> set (succs a)}"

lemma in_edges_of [simp]: "(a, b) \<in> edges_of succs \<longleftrightarrow> b \<in> set (succs a)"
  by (simp add: edges_of_def)

definition reachable_from :: "('n \<Rightarrow> 'n list) \<Rightarrow> 'n set \<Rightarrow> 'n set" where
  "reachable_from succs S = (edges_of succs)\<^sup>* `` S"

lemma reachable_from_start: "S \<subseteq> reachable_from succs S"
  by (auto simp: reachable_from_def)

lemma reachable_from_step:
  "a \<in> reachable_from succs S \<Longrightarrow> b \<in> set (succs a) \<Longrightarrow> b \<in> reachable_from succs S"
proof -
  assume "a \<in> reachable_from succs S" and step: "b \<in> set (succs a)"
  then obtain s where "s \<in> S" and "(s, a) \<in> (edges_of succs)\<^sup>*" by (auto simp: reachable_from_def)
  moreover from step have "(a, b) \<in> edges_of succs" by simp
  ultimately show ?thesis unfolding reachable_from_def by (blast intro: rtrancl_into_rtrancl)
qed

lemma reachable_from_least:
  assumes "S \<subseteq> A" and "\<And>a b. a \<in> A \<Longrightarrow> b \<in> set (succs a) \<Longrightarrow> b \<in> A"
  shows "reachable_from succs S \<subseteq> A"
proof
  fix y
  assume "y \<in> reachable_from succs S"
  then obtain x where "x \<in> S" and path: "(x, y) \<in> (edges_of succs)\<^sup>*" by (auto simp: reachable_from_def)
  with assms(1) have "x \<in> A" by blast
  with path show "y \<in> A" by (rule Image_closed_rtrancl) (use assms(2) in auto)
qed

lemma reachable_from_eqI:
  assumes "S \<subseteq> A" and "\<And>a b. a \<in> A \<Longrightarrow> b \<in> set (succs a) \<Longrightarrow> b \<in> A"
    and "A \<subseteq> reachable_from succs S"
  shows "A = reachable_from succs S"
proof
  show "reachable_from succs S \<subseteq> A" by (rule reachable_from_least) (use assms in auto)
qed (rule assms(3))

text \<open>A set of nodes whose successors are in it or on the stack loses nothing by dropping a known
  node, nor by replacing a new one by its successors.\<close>

lemma reachable_known:
  assumes "x \<in> N" and "\<And>a b. a \<in> N \<Longrightarrow> b \<in> set (succs a) \<Longrightarrow> b \<in> N \<union> insert x S"
  shows "N \<union> reachable_from succs (insert x S) = N \<union> reachable_from succs S"
proof -
  have "reachable_from succs (insert x S) \<subseteq> N \<union> reachable_from succs S"
    using assms(1)
    by (intro reachable_from_least)
      (auto dest: assms(2) intro: reachable_from_step reachable_from_start[THEN subsetD])
  moreover have "reachable_from succs S \<subseteq> reachable_from succs (insert x S)"
    by (auto simp: reachable_from_def)
  ultimately show ?thesis by blast
qed

lemma reachable_expand:
  "reachable_from succs (insert x S) = insert x (reachable_from succs (set (succs x) \<union> S))"
proof
  show "reachable_from succs (insert x S) \<subseteq> insert x (reachable_from succs (set (succs x) \<union> S))"
    by (rule reachable_from_least)
      (auto intro: reachable_from_step reachable_from_start[THEN subsetD])
  have "reachable_from succs (set (succs x) \<union> S) \<subseteq> reachable_from succs (insert x S)"
  proof (rule reachable_from_least)
    have "x \<in> reachable_from succs (insert x S)" by (simp add: reachable_from_start[THEN subsetD])
    then show "set (succs x) \<union> S \<subseteq> reachable_from succs (insert x S)"
      by (auto intro: reachable_from_step reachable_from_start[THEN subsetD])
  qed (rule reachable_from_step)
  then show "insert x (reachable_from succs (set (succs x) \<union> S)) \<subseteq> reachable_from succs (insert x S)"
    by (simp add: reachable_from_start[THEN subsetD])
qed

lemma trancl_last_step: "(a, c) \<in> r\<^sup>+ \<longleftrightarrow> (\<exists>b. (a, b) \<in> r\<^sup>* \<and> (b, c) \<in> r)"
  by (meson rtrancl_into_trancl1 tranclE trancl_into_rtrancl r_into_rtrancl rtrancl.simps)

text \<open>A path that comes back to a node it has passed is a cycle.\<close>

lemma successively_rtrancl:
  "successively (\<lambda>a b. (a, b) \<in> r) (x # xs) \<Longrightarrow> y \<in> set (x # xs) \<Longrightarrow> (x, y) \<in> r\<^sup>*"
proof (induction xs arbitrary: x)
  case (Cons z xs)
  then show ?case by (auto intro: converse_rtrancl_into_rtrancl)
qed simp

lemma path_returns_cycle:
  assumes "successively (\<lambda>a b. (a, b) \<in> r) (xs @ [n])" and "n \<in> set xs"
  shows "(n, n) \<in> r\<^sup>+"
proof -
  from assms(2) obtain us vs where xs: "xs = us @ n # vs" by (meson split_list)
  then have "successively (\<lambda>a b. (a, b) \<in> r) (n # vs @ [n])"
    using assms(1) by (simp add: successively_append_iff)
  then obtain m where "(n, m) \<in> r" and "successively (\<lambda>a b. (a, b) \<in> r) (m # tl (vs @ [n]))"
    and "n \<in> set (m # tl (vs @ [n]))"
    by (cases vs) auto
  then show ?thesis using successively_rtrancl[of r m "tl (vs @ [n])" n]
    by (meson rtrancl_into_trancl2)
qed

locale finite_digraph =
  fixes succs :: "'n \<Rightarrow> 'n list"
  assumes finite_support: "finite {n. succs n \<noteq> []}"
begin

lemma finite_edges: "finite (edges_of succs)"
proof -
  have "edges_of succs \<subseteq> (\<Union>n \<in> {n. succs n \<noteq> []}. {n} \<times> set (succs n))"
    by (auto simp: edges_of_def)
  moreover have "finite (\<Union>n \<in> {n. succs n \<noteq> []}. {n} \<times> set (succs n))" using finite_support by auto
  ultimately show ?thesis by (rule finite_subset)
qed

lemma finite_reachable: "finite S \<Longrightarrow> finite (reachable_from succs S)"
proof -
  assume fin: "finite S"
  have "reachable_from succs S \<subseteq> S \<union> snd ` edges_of succs"
  proof (rule reachable_from_least)
    show "b \<in> S \<union> snd ` edges_of succs" if "b \<in> set (succs a)" for a b
      using that image_eqI[of b snd "(a, b)" "edges_of succs"] by simp
  qed simp
  then show ?thesis using fin finite_edges by (simp add: finite_subset)
qed

lemma wf_converse_if_acyclic: "acyclic (edges_of succs) \<Longrightarrow> wf ((edges_of succs)\<inverse>)"
  by (simp add: finite_edges finite_acyclic_wf_converse)

text \<open>An acyclic graph has a rank that falls along every edge.\<close>

lemma acyclic_rank:
  assumes "acyclic (edges_of succs)"
  obtains f :: "'n \<Rightarrow> nat" where "\<And>a b. b \<in> set (succs a) \<Longrightarrow> f b < f a"
proof -
  let ?E = "edges_of succs"
  let ?f = "\<lambda>a. card (?E\<^sup>+ `` {a})"
  have fin: "finite (?E\<^sup>+ `` {a})" for a
    using finite_edges by (simp add: finite_Image finite_trancl)
  have "?f b < ?f a" if "b \<in> set (succs a)" for a b
  proof (rule psubset_card_mono[OF fin])
    have ab: "(a, b) \<in> ?E" using that by simp
    have "?E\<^sup>+ `` {b} \<subseteq> ?E\<^sup>+ `` {a}"
      using ab by (auto intro: trancl_into_trancl2 simp del: in_edges_of)
    moreover have "b \<in> ?E\<^sup>+ `` {a}" using ab by (auto simp del: in_edges_of)
    moreover have "b \<notin> ?E\<^sup>+ `` {b}" using assms by (simp add: acyclic_def)
    ultimately show "?E\<^sup>+ `` {b} \<subset> ?E\<^sup>+ `` {a}" by blast
  qed
  then show thesis by (rule that)
qed

text \<open>From every node of an acyclic graph a node without successors is reached.\<close>

lemma acyclic_sink:
  assumes "acyclic (edges_of succs)"
  shows "\<exists>b. (a, b) \<in> (edges_of succs)\<^sup>* \<and> succs b = []"
  using wf_converse_if_acyclic[OF assms]
proof (induction a rule: wf_induct_rule)
  case (less a)
  show ?case
  proof (cases "succs a")
    case (Cons c cs)
    then have "(c, a) \<in> (edges_of succs)\<inverse>" by simp
    from less[OF this] obtain b where "(c, b) \<in> (edges_of succs)\<^sup>*" "succs b = []" by blast
    moreover have "(a, c) \<in> edges_of succs" using Cons by simp
    ultimately show ?thesis by (blast intro: converse_rtrancl_into_rtrancl)
  qed blast
qed

end

text \<open>Graphs in which a node has one successor at most: what a container extends, and whose network
  it shares. A walk from a node that reaches a node without a successor passes no cycle and ends in
  one place only.\<close>

locale functional_digraph = finite_digraph +
  assumes one_succ: "length (succs n) \<le> 1"
begin

lemma succ_unique: "b \<in> set (succs a) \<Longrightarrow> c \<in> set (succs a) \<Longrightarrow> b = c"
  using one_succ[of a] by (cases "succs a") auto

lemma sink_no_cycle:
  assumes "(a, b) \<in> (edges_of succs)\<^sup>*" and "succs b = []"
  shows "(a, a) \<notin> (edges_of succs)\<^sup>+"
  using assms
proof (induction rule: converse_rtrancl_induct)
  case base
  then show ?case by (auto dest: tranclD)
next
  case (step a c)
  show ?case
  proof
    assume "(a, a) \<in> (edges_of succs)\<^sup>+"
    then obtain d where "(a, d) \<in> edges_of succs" and "(d, a) \<in> (edges_of succs)\<^sup>*" by (blast dest: tranclD)
    with step(1) have "(c, c) \<in> (edges_of succs)\<^sup>+"
      using succ_unique[of c a d] by (auto intro: rtrancl_into_trancl1)
    with step show False by blast
  qed
qed

lemma sink_unique:
  assumes "(a, b) \<in> (edges_of succs)\<^sup>*" and "succs b = []"
    and "(a, c) \<in> (edges_of succs)\<^sup>*" and "succs c = []"
  shows "b = c"
  using assms
proof (induction rule: converse_rtrancl_induct)
  case base
  from base(2) show ?case by (cases rule: converse_rtranclE) (use base in auto)
next
  case (step a d)
  from step(5) show ?case
  proof (cases rule: converse_rtranclE)
    case base
    with step show ?thesis by auto
  next
    case (step e)
    then have "e = d" using succ_unique[of e a d] \<open>(a, d) \<in> edges_of succs\<close> by simp
    with step(2) show ?thesis using \<open>succs b = []\<close> \<open>succs c = []\<close> step.IH by blast
  qed
qed

end

end
