(* ===== verification/Config_Model.thy ===== *)
theory Config_Model
  imports Config_Values Text_Output Digraphs
begin

text \<open>
  The configuration model of \<open>ratect-core/src/config.rs\<close> as the loader leaves it: \<open>Config\<close> with its
  containers, tasks and config variables, every field of \<open>Container\<close> under its own name (prefixed
  where HOL has the name), and the pure functions over it that the loader and the engine share:
  the containers of a task's graph (\<open>container_names_in_task\<close>), and the two task listings.

  An \<open>IndexMap\<close> is an association list in declaration order (\<open>index_map\<close>); a \<open>HashMap\<close> is one too
  where only its entries matter.
\<close>

section \<open>Data\<close>

datatype image_pull_policy = Pull_Always | Pull_If_Not_Present

datatype build_secret = Secret_Environment string | Secret_Path string

record ssh_agent =
  ssh_id :: string
  ssh_paths :: "string list"

record health_check_config =
  hc_command :: "string option"
  hc_interval :: "nat option"
  hc_retries :: "u32 option"
  hc_start_period :: "nat option"
  hc_timeout :: "nat option"

record setup_command =
  sc_command :: string
  sc_working_directory :: "string option"
  sc_run_in :: "string option"

record run_as_current_user =
  rcu_enabled :: bool
  rcu_home_directory :: "string option"

record additional_user =
  au_name :: string
  au_uid :: u32
  au_gid :: u32

record identity =
  id_home :: string
  id_additional_users :: "additional_user list"

record container =
  extends :: "string option"
  image :: "string option"
  image_pull_policy :: "image_pull_policy option"
  build_directory :: "string option"
  build_directory_in_bundle :: "string option"
  build_args :: "string index_map option"
  dockerfile :: "string option"
  build_target :: "string option"
  build_secrets :: "build_secret index_map option"
  build_ssh :: "ssh_agent list option"
  volumes :: "volume_mount list option"
  dependencies :: "string list option"
  environment :: "string index_map option"
  run_as_current_user :: "run_as_current_user option"
  additional_hostnames :: "string list option"
  additional_hosts :: "string index_map option"
  ports :: "port_mapping list option"
  health_check :: "health_check_config option"
  setup_commands :: "setup_command list option"
  run_to_completion :: "bool option"
  external_health_check :: "external_health_check option"
  reports_readiness_for :: "string option"
  working_directory :: "string option"
  command :: "string option"
  entrypoint :: "string option"
  labels :: "string index_map option"
  capabilities_to_add :: "string list option"
  capabilities_to_drop :: "string list option"
  privileged :: "bool option"
  shm_size :: "nat option"
  devices :: "device_mapping list option"
  enable_init_process :: "bool option"
  log_driver :: "string option"
  log_options :: "string index_map option"
  stop_signal :: "string option"
  stop_grace_period :: "nat option"
  ulimits :: "(string \<times> int \<times> int) list option"
  dns :: "string list option"
  dns_search :: "string list option"
  dns_options :: "string list option"
  network_mode :: "network_mode option"
  user :: "string option"
  group :: "string option"
  groups :: "string list option"
  identity :: "identity option"

definition container_default :: container where
  "container_default = \<lparr>extends = None, image = None, image_pull_policy = None,
     build_directory = None, build_directory_in_bundle = None, build_args = None, dockerfile = None,
     build_target = None, build_secrets = None, build_ssh = None, volumes = None,
     dependencies = None, environment = None, run_as_current_user = None,
     additional_hostnames = None, additional_hosts = None, ports = None, health_check = None,
     setup_commands = None, run_to_completion = None, external_health_check = None,
     reports_readiness_for = None, working_directory = None, command = None, entrypoint = None,
     labels = None, capabilities_to_add = None, capabilities_to_drop = None, privileged = None,
     shm_size = None, devices = None, enable_init_process = None, log_driver = None,
     log_options = None, stop_signal = None, stop_grace_period = None, ulimits = None, dns = None,
     dns_search = None, dns_options = None, network_mode = None, user = None, group = None,
     groups = None, identity = None\<rparr>"

record task_run =
  tr_container :: string
  tr_command :: "string option"
  tr_environment :: "string index_map option"
  tr_ports :: "port_mapping list option"
  tr_working_directory :: "string option"
  tr_entrypoint :: "string option"

record customisation =
  cu_environment :: "string index_map option"
  cu_ports :: "port_mapping list option"
  cu_working_directory :: "string option"

record task =
  t_run :: "task_run option"
  t_prerequisites :: "string list option"
  t_dependencies :: "string list option"
  t_description :: "string option"
  t_group :: "string option"
  t_customise :: "customisation index_map option"

record config_variable =
  cv_default :: "string option"
  cv_description :: "string option"

record config =
  project_name :: string
  containers :: "container index_map"
  tasks :: "task index_map"
  config_variables :: "config_variable index_map option"
  forbid_telemetry :: "bool option"

text \<open>Rust's \<open>unwrap_or_default\<close> and \<open>into_iter().flatten()\<close> on an optional vector.\<close>

definition or_empty :: "'a list option \<Rightarrow> 'a list" where
  "or_empty xs = (case xs of None \<Rightarrow> [] | Some ys \<Rightarrow> ys)"

lemma or_empty_simps [simp]: "or_empty None = []" "or_empty (Some ys) = ys"
  by (simp_all add: or_empty_def)

section \<open>The containers of a task\<close>

definition deps_of :: "container index_map \<Rightarrow> string \<Rightarrow> string list" where
  "deps_of cs name = (case im_get cs name of None \<Rightarrow> [] | Some c \<Rightarrow> or_empty (dependencies c))"

lemma deps_of_declared: "deps_of cs name \<noteq> [] \<Longrightarrow> name \<in> set (im_keys cs)"
  by (auto simp: deps_of_def split: option.splits dest: im_get_Some_key)

interpretation container_graph: finite_digraph "deps_of cs" for cs
proof
  have "{n. deps_of cs n \<noteq> []} \<subseteq> set (im_keys cs)" using deps_of_declared by auto
  then show "finite {n. deps_of cs n \<noteq> []}" by (rule finite_subset) simp
qed

text \<open>
  The \<open>while let Some(name) = stack.pop()\<close> loop, the stack with its top first: \<open>extend\<close> pushes in
  order, so what it pushed comes off last to first.
\<close>

function names_loop :: "container index_map \<Rightarrow> string set \<Rightarrow> string list \<Rightarrow> string set" where
  "names_loop cs names [] = names"
| "names_loop cs names (name # stack) =
     (if name \<in> names then names_loop cs names stack
      else names_loop cs (insert name names) (rev (deps_of cs name) @ stack))"
  by pat_completeness auto
termination
proof (relation "measures [\<lambda>(cs, names, stack). card (set (im_keys cs) - names),
                           \<lambda>(cs, names, stack). length stack]", goal_cases)
  case (3 cs names name stack)
  show ?case
  proof (cases "name \<in> set (im_keys cs)")
    case True
    with 3 have "set (im_keys cs) - insert name names \<subset> set (im_keys cs) - names" by auto
    then show ?thesis by (simp add: psubset_card_mono)
  next
    case False
    then have "deps_of cs name = []" using deps_of_declared by blast
    moreover have "set (im_keys cs) - insert name names = set (im_keys cs) - names" using False by blast
    ultimately show ?thesis by simp
  qed
qed simp_all

definition container_names_in_task ::
  "container index_map \<Rightarrow> string \<Rightarrow> string list option \<Rightarrow> string set" where
  "container_names_in_task cs root task_dependencies =
     names_loop cs {} (rev (root # or_empty task_dependencies))"

lemma names_loop_reach:
  assumes "\<And>a b. a \<in> names \<Longrightarrow> b \<in> set (deps_of cs a) \<Longrightarrow> b \<in> names \<union> set stack"
  shows "names_loop cs names stack = names \<union> reachable_from (deps_of cs) (set stack)"
  using assms
proof (induction cs names stack rule: names_loop.induct)
  case (1 cs names)
  then show ?case by (simp add: reachable_from_def)
next
  case (2 cs names name stack)
  show ?case
  proof (cases "name \<in> names")
    case True
    have "names_loop cs names stack = names \<union> reachable_from (deps_of cs) (set stack)"
      by (rule 2(1)[OF True]) (use 2(3) True in auto)
    with reachable_known[of name names "deps_of cs" "set stack"] 2(3) True show ?thesis by simp
  next
    case False
    have "names_loop cs (insert name names) (rev (deps_of cs name) @ stack) =
        insert name names \<union> reachable_from (deps_of cs) (set (rev (deps_of cs name) @ stack))"
      by (rule 2(2)[OF False]) (use 2(3) in auto)
    with False show ?thesis by (simp add: reachable_expand)
  qed
qed

lemma names_reachable:
  "container_names_in_task cs root tdeps = reachable_from (deps_of cs) (set (root # or_empty tdeps))"
  unfolding container_names_in_task_def using names_loop_reach[of "{}" cs] by simp

text \<open>
  The walk ends, also on a configuration whose dependencies
  form a cycle, and returns exactly the task's own container, its task-level dependencies and every
  container reachable from those through \<open>dependencies\<close>.
\<close>

theorem container_names_in_task_reachable:
  "container_names_in_task cs root tdeps =
     reachable_from (deps_of cs) (set (root # or_empty tdeps))"
  unfolding container_names_in_task_def using names_loop_reach[of "{}" cs] by simp


section \<open>Task listings\<close>

definition non_blank :: "string option \<Rightarrow> string option" where
  "non_blank description = (case description of None \<Rightarrow> None
     | Some d \<Rightarrow> if trim d = [] then None else Some d)"

definition quiet_line :: "string \<Rightarrow> string option \<Rightarrow> string" where
  "quiet_line name description = (case non_blank description of
       Some d \<Rightarrow> printable name @ [CHR 9] @ printable d | None \<Rightarrow> printable name)"

definition task_description :: "task index_map \<Rightarrow> string \<Rightarrow> string option" where
  "task_description ts name = (case im_get ts name of None \<Rightarrow> None | Some t \<Rightarrow> t_description t)"

definition format_task_list_quiet :: "task index_map \<Rightarrow> safe_text" where
  "format_task_list_quiet ts =
     text_join (map (\<lambda>name. Text (quiet_line name (task_description ts name) @ [CHR 10]))
       (sort (im_keys ts))) []"

definition listed_group :: "task \<Rightarrow> string option" where
  "listed_group t = (case t_group t of None \<Rightarrow> None | Some g \<Rightarrow> if g = [] then None else Some g)"

definition format_task_line :: "string \<Rightarrow> string option \<Rightarrow> string" where
  "format_task_line name description = (case non_blank description of
       Some d \<Rightarrow> ''- '' @ printable name @ '': '' @ printable d | None \<Rightarrow> ''- '' @ printable name)"

text \<open>The map from a listed group to its tasks, and its keys, the ungrouped bucket last.\<close>

definition group_names :: "task index_map \<Rightarrow> string option \<Rightarrow> string list" where
  "group_names ts g = sort (map fst (filter (\<lambda>(_, t). listed_group t = g) ts))"

definition group_keys :: "task index_map \<Rightarrow> string option list" where
  "group_keys ts =
     map Some (sort_dedup (List.map_filter (\<lambda>(_, t). listed_group t) ts)) @
     (if \<exists>(_, t) \<in> set ts. listed_group t = None then [None] else [])"

definition group_heading :: "string option \<Rightarrow> string" where
  "group_heading g = (case g of Some n \<Rightarrow> printable n @ '':'' | None \<Rightarrow> ''Ungrouped tasks:'')"

definition group_block :: "task index_map \<Rightarrow> string option \<Rightarrow> string list" where
  "group_block ts g =
     group_heading g # map (\<lambda>n. format_task_line n (task_description ts n)) (group_names ts g)"

fun group_lines :: "task index_map \<Rightarrow> string option list \<Rightarrow> string list" where
  "group_lines ts [] = []"
| "group_lines ts [g] = group_block ts g"
| "group_lines ts (g # gs) = group_block ts g @ [[]] @ group_lines ts gs"

definition format_task_list :: "string \<Rightarrow> task index_map \<Rightarrow> safe_text" where
  "format_task_list project ts =
     (if list_all (\<lambda>(_, t). listed_group t = None) ts
      then text_join (map Text ((''Tasks in '' @ printable project @ '':'') #
             map (\<lambda>n. format_task_line n (task_description ts n)) (sort (im_keys ts)) @ [[]])) [CHR 10]
      else text_join (map Text ((''Tasks in '' @ printable project @ '':'') # [] #
             group_lines ts (group_keys ts) @ [[]])) [CHR 10])"

lemma join_empty: "join [] xs = concat xs"
  by (induction xs rule: induct_list012) auto

lemma concat_lines_join: "concat (map (\<lambda>x. f x @ [d]) xs) = join [d] (map f xs @ [[]])"
  by (induction xs) (auto simp: join_Cons)

lemma quiet_line_one_line: "CHR 10 \<notin> set (quiet_line n d)"
  by (auto simp: quiet_line_def split: option.splits)

lemma quiet_line_fields:
  "split_once (CHR 9) (quiet_line n d) = map_option (\<lambda>d. (printable n, printable d)) (non_blank d)"
  by (auto simp: quiet_line_def split: option.splits)

text \<open>
  The quiet listing is machine readable whatever the names and
  descriptions hold. Split at its line breaks it is one line per task in name order and a final empty
  string; split at its first tab a line gives the task's name and, when that is not blank, its
  description, each as \<open>printable\<close> writes it.
\<close>

theorem quiet_listing_parsable:
  "split (CHR 10) (as_str (format_task_list_quiet ts)) =
     map (\<lambda>n. quiet_line n (task_description ts n)) (sort (im_keys ts)) @ [[]] \<and>
   split_once (CHR 9) (quiet_line n d) =
     map_option (\<lambda>d. (printable n, printable d)) (non_blank d)"
proof (intro conjI)
  let ?line = "\<lambda>n. quiet_line n (task_description ts n)"
  have "as_str (format_task_list_quiet ts) = join [CHR 10] (map ?line (sort (im_keys ts)) @ [[]])"
    by (simp add: format_task_list_quiet_def text_join_def join_empty concat_lines_join comp_def)
  then show "split (CHR 10) (as_str (format_task_list_quiet ts)) = map ?line (sort (im_keys ts)) @ [[]]"
    by (simp only:) (rule split_join, auto simp: quiet_line_one_line)
qed (simp add: quiet_line_fields)

end
