(* ===== verification/Config_Extends.thy ===== *)
theory Config_Extends
  imports Config_Model
begin

text \<open>
  Container inheritance, \<open>resolve_extends\<close> of \<open>ratect-core/src/config.rs\<close>: the memoised walk up each
  container's \<open>extends\<close> chain with its cycle check, the per-field merge (\<open>inherit_container_fields\<close>),
  and the record of which container supplied each field that is anchored on its declaring file
  (\<open>Suppliers\<close>). The reference is the chain itself (\<open>extends_chain\<close>): a field's value is the first
  one set along it.
\<close>

section \<open>Definitions\<close>

definition inherit_container_fields :: "container \<Rightarrow> container \<Rightarrow> container" where
  "inherit_container_fields child parent = child\<lparr>
     image := opt_or (image child) (image parent),
     image_pull_policy := opt_or (image_pull_policy child) (image_pull_policy parent),
     build_directory := opt_or (build_directory child) (build_directory parent),
     build_args := opt_or (build_args child) (build_args parent),
     dockerfile := opt_or (dockerfile child) (dockerfile parent),
     build_target := opt_or (build_target child) (build_target parent),
     build_secrets := opt_or (build_secrets child) (build_secrets parent),
     build_ssh := opt_or (build_ssh child) (build_ssh parent),
     volumes := opt_or (volumes child) (volumes parent),
     dependencies := opt_or (dependencies child) (dependencies parent),
     environment := opt_or (environment child) (environment parent),
     run_as_current_user := opt_or (run_as_current_user child) (run_as_current_user parent),
     additional_hostnames := opt_or (additional_hostnames child) (additional_hostnames parent),
     additional_hosts := opt_or (additional_hosts child) (additional_hosts parent),
     ports := opt_or (ports child) (ports parent),
     health_check := opt_or (health_check child) (health_check parent),
     setup_commands := opt_or (setup_commands child) (setup_commands parent),
     run_to_completion := opt_or (run_to_completion child) (run_to_completion parent),
     external_health_check := opt_or (external_health_check child) (external_health_check parent),
     working_directory := opt_or (working_directory child) (working_directory parent),
     command := opt_or (command child) (command parent),
     entrypoint := opt_or (entrypoint child) (entrypoint parent),
     labels := opt_or (labels child) (labels parent),
     capabilities_to_add := opt_or (capabilities_to_add child) (capabilities_to_add parent),
     capabilities_to_drop := opt_or (capabilities_to_drop child) (capabilities_to_drop parent),
     privileged := opt_or (privileged child) (privileged parent),
     shm_size := opt_or (shm_size child) (shm_size parent),
     devices := opt_or (devices child) (devices parent),
     enable_init_process := opt_or (enable_init_process child) (enable_init_process parent),
     log_driver := opt_or (log_driver child) (log_driver parent),
     log_options := opt_or (log_options child) (log_options parent),
     stop_signal := opt_or (stop_signal child) (stop_signal parent),
     stop_grace_period := opt_or (stop_grace_period child) (stop_grace_period parent),
     ulimits := opt_or (ulimits child) (ulimits parent),
     dns := opt_or (dns child) (dns parent),
     dns_search := opt_or (dns_search child) (dns_search parent),
     dns_options := opt_or (dns_options child) (dns_options parent),
     network_mode := opt_or (network_mode child) (network_mode parent),
     user := opt_or (user child) (user parent),
     group := opt_or (group child) (group parent),
     groups := opt_or (groups child) (groups parent),
     identity := opt_or (identity child) (identity parent)\<rparr>"

record suppliers =
  sp_image :: string
  sp_volumes :: string
  sp_build_directory :: string
  sp_build_secrets :: string
  sp_build_ssh :: string
  sp_run_as_current_user :: string

definition suppliers_own :: "string \<Rightarrow> suppliers" where
  "suppliers_own name = \<lparr>sp_image = name, sp_volumes = name, sp_build_directory = name,
     sp_build_secrets = name, sp_build_ssh = name, sp_run_as_current_user = name\<rparr>"

definition inherit_suppliers :: "string \<Rightarrow> container \<Rightarrow> suppliers \<Rightarrow> suppliers" where
  "inherit_suppliers name merged inherited =
     \<lparr>sp_image = (if image merged = None then sp_image inherited else name),
      sp_volumes = (if volumes merged = None then sp_volumes inherited else name),
      sp_build_directory = (if build_directory merged = None then sp_build_directory inherited else name),
      sp_build_secrets = (if build_secrets merged = None then sp_build_secrets inherited else name),
      sp_build_ssh = (if build_ssh merged = None then sp_build_ssh inherited else name),
      sp_run_as_current_user =
        (if run_as_current_user merged = None then sp_run_as_current_user inherited else name)\<rparr>"

datatype extends_error =
    Cyclic_Extends string "string list"
  | Undefined_Parent string string
  | Extends_Panic

type_synonym extends_state = "container index_map \<times> suppliers index_map"

text \<open>The two \<open>expect\<close>s and the indexing of the source, which panic, are \<open>Extends_Panic\<close>.\<close>

function resolve_container_extends ::
  "container index_map \<Rightarrow> string \<Rightarrow> extends_state \<Rightarrow> string list \<Rightarrow> (extends_error, extends_state) result"
where
  "resolve_container_extends source name st ancestors =
     (if im_contains (fst st) name then Ok st
      else if name \<in> set ancestors then Err (Cyclic_Extends name (ancestors @ [name]))
      else case im_get source name of
        None \<Rightarrow> Err Extends_Panic
      | Some own \<Rightarrow> (case extends own of
          None \<Rightarrow> Ok (im_insert (fst st) name (own\<lparr>extends := None\<rparr>),
                     im_insert (snd st) name (suppliers_own name))
        | Some parent \<Rightarrow>
            (if \<not> im_contains source parent then Err (Undefined_Parent name parent)
             else rbind (resolve_container_extends source parent st (ancestors @ [name])) (\<lambda>st'.
               (case im_get (snd st') parent of None \<Rightarrow> Err Extends_Panic | Some inherited \<Rightarrow>
                 (case im_get (fst st') parent of None \<Rightarrow> Err Extends_Panic | Some p \<Rightarrow>
                   Ok (im_insert (fst st') name ((inherit_container_fields own p)\<lparr>extends := None\<rparr>),
                       im_insert (snd st') name (inherit_suppliers name own inherited))))))))"
  by pat_completeness auto
termination
proof (relation "measure (\<lambda>(source, name, st, ancestors). card (set (im_keys source) - set ancestors))",
    goal_cases)
  case (2 source name st ancestors own parent)
  then have "set (im_keys source) - set (ancestors @ [name]) \<subset> set (im_keys source) - set ancestors"
    by (auto dest: im_get_Some_key)
  then show ?case by (simp add: psubset_card_mono)
qed simp

declare resolve_container_extends.simps [simp del]

definition resolve_extends ::
  "container index_map \<Rightarrow> (extends_error, container index_map \<times> suppliers index_map) result" where
  "resolve_extends cs =
     rbind (fold_res (\<lambda>name st. resolve_container_extends cs name st []) (im_keys cs) ([], []))
       (\<lambda>st. rbind (map_res (\<lambda>name. case im_get (fst st) name of
                 None \<Rightarrow> Err Extends_Panic | Some c \<Rightarrow> Ok (name, c)) (im_keys cs))
          (\<lambda>cs'. Ok (cs', snd st)))"

lemma inherit_fields [simp]:
  "image (inherit_container_fields child parent) = opt_or (image child) (image parent)"
  "image_pull_policy (inherit_container_fields child parent) = opt_or (image_pull_policy child) (image_pull_policy parent)"
  "build_directory (inherit_container_fields child parent) = opt_or (build_directory child) (build_directory parent)"
  "build_args (inherit_container_fields child parent) = opt_or (build_args child) (build_args parent)"
  "dockerfile (inherit_container_fields child parent) = opt_or (dockerfile child) (dockerfile parent)"
  "build_target (inherit_container_fields child parent) = opt_or (build_target child) (build_target parent)"
  "build_secrets (inherit_container_fields child parent) = opt_or (build_secrets child) (build_secrets parent)"
  "build_ssh (inherit_container_fields child parent) = opt_or (build_ssh child) (build_ssh parent)"
  "volumes (inherit_container_fields child parent) = opt_or (volumes child) (volumes parent)"
  "dependencies (inherit_container_fields child parent) = opt_or (dependencies child) (dependencies parent)"
  "environment (inherit_container_fields child parent) = opt_or (environment child) (environment parent)"
  "run_as_current_user (inherit_container_fields child parent) = opt_or (run_as_current_user child) (run_as_current_user parent)"
  "additional_hostnames (inherit_container_fields child parent) = opt_or (additional_hostnames child) (additional_hostnames parent)"
  "additional_hosts (inherit_container_fields child parent) = opt_or (additional_hosts child) (additional_hosts parent)"
  "ports (inherit_container_fields child parent) = opt_or (ports child) (ports parent)"
  "health_check (inherit_container_fields child parent) = opt_or (health_check child) (health_check parent)"
  "setup_commands (inherit_container_fields child parent) = opt_or (setup_commands child) (setup_commands parent)"
  "run_to_completion (inherit_container_fields child parent) = opt_or (run_to_completion child) (run_to_completion parent)"
  "external_health_check (inherit_container_fields child parent) = opt_or (external_health_check child) (external_health_check parent)"
  "working_directory (inherit_container_fields child parent) = opt_or (working_directory child) (working_directory parent)"
  "command (inherit_container_fields child parent) = opt_or (command child) (command parent)"
  "entrypoint (inherit_container_fields child parent) = opt_or (entrypoint child) (entrypoint parent)"
  "labels (inherit_container_fields child parent) = opt_or (labels child) (labels parent)"
  "capabilities_to_add (inherit_container_fields child parent) = opt_or (capabilities_to_add child) (capabilities_to_add parent)"
  "capabilities_to_drop (inherit_container_fields child parent) = opt_or (capabilities_to_drop child) (capabilities_to_drop parent)"
  "privileged (inherit_container_fields child parent) = opt_or (privileged child) (privileged parent)"
  "shm_size (inherit_container_fields child parent) = opt_or (shm_size child) (shm_size parent)"
  "devices (inherit_container_fields child parent) = opt_or (devices child) (devices parent)"
  "enable_init_process (inherit_container_fields child parent) = opt_or (enable_init_process child) (enable_init_process parent)"
  "log_driver (inherit_container_fields child parent) = opt_or (log_driver child) (log_driver parent)"
  "log_options (inherit_container_fields child parent) = opt_or (log_options child) (log_options parent)"
  "stop_signal (inherit_container_fields child parent) = opt_or (stop_signal child) (stop_signal parent)"
  "stop_grace_period (inherit_container_fields child parent) = opt_or (stop_grace_period child) (stop_grace_period parent)"
  "ulimits (inherit_container_fields child parent) = opt_or (ulimits child) (ulimits parent)"
  "dns (inherit_container_fields child parent) = opt_or (dns child) (dns parent)"
  "dns_search (inherit_container_fields child parent) = opt_or (dns_search child) (dns_search parent)"
  "dns_options (inherit_container_fields child parent) = opt_or (dns_options child) (dns_options parent)"
  "network_mode (inherit_container_fields child parent) = opt_or (network_mode child) (network_mode parent)"
  "user (inherit_container_fields child parent) = opt_or (user child) (user parent)"
  "group (inherit_container_fields child parent) = opt_or (group child) (group parent)"
  "groups (inherit_container_fields child parent) = opt_or (groups child) (groups parent)"
  "identity (inherit_container_fields child parent) = opt_or (identity child) (identity parent)"
  "extends (inherit_container_fields child parent) = extends child"
  "reports_readiness_for (inherit_container_fields child parent) = reports_readiness_for child"
  "build_directory_in_bundle (inherit_container_fields child parent) = build_directory_in_bundle child"
  by (simp_all add: inherit_container_fields_def)

section \<open>The chain\<close>

definition parent_of :: "container index_map \<Rightarrow> string \<Rightarrow> string list" where
  "parent_of cs name = (case im_get cs name of None \<Rightarrow> []
     | Some c \<Rightarrow> (case extends c of None \<Rightarrow> [] | Some p \<Rightarrow> [p]))"

lemma in_parent_of [simp]:
  "p \<in> set (parent_of cs n) \<longleftrightarrow> (\<exists>c. im_get cs n = Some c \<and> extends c = Some p)"
  by (cases "im_get cs n"; cases "extends (the (im_get cs n))") (auto simp: parent_of_def)

interpretation extends_graph: functional_digraph "parent_of cs" for cs
proof
  show "length (parent_of cs n) \<le> 1" for n by (simp add: parent_of_def split: option.split)
  have "{n. parent_of cs n \<noteq> []} \<subseteq> set (im_keys cs)"
    by (auto simp: parent_of_def split: option.splits dest: im_get_Some_key)
  then show "finite {n. parent_of cs n \<noteq> []}" by (rule finite_subset) simp
qed

inductive extends_chain :: "container index_map \<Rightarrow> string \<Rightarrow> (string \<times> container) list \<Rightarrow> bool" for cs where
  chain_end: "im_get cs n = Some c \<Longrightarrow> extends c = None \<Longrightarrow> extends_chain cs n [(n, c)]"
| chain_step: "im_get cs n = Some c \<Longrightarrow> extends c = Some p \<Longrightarrow> extends_chain cs p ch \<Longrightarrow>
    extends_chain cs n ((n, c) # ch)"

inductive_cases extends_chainE: "extends_chain cs n ch"

fun merged_chain :: "(string \<times> container) list \<Rightarrow> container" where
  "merged_chain [] = container_default"
| "merged_chain [(n, c)] = c\<lparr>extends := None\<rparr>"
| "merged_chain ((n, c) # ch) = (inherit_container_fields c (merged_chain ch))\<lparr>extends := None\<rparr>"

fun chain_suppliers :: "(string \<times> container) list \<Rightarrow> suppliers" where
  "chain_suppliers [] = suppliers_own []"
| "chain_suppliers [(n, c)] = suppliers_own n"
| "chain_suppliers ((n, c) # ch) = inherit_suppliers n c (chain_suppliers ch)"

text \<open>The first value set along a chain, and the container that set it (the last one's name when
  none did).\<close>

fun first_set :: "(container \<Rightarrow> 'a option) \<Rightarrow> (string \<times> container) list \<Rightarrow> 'a option" where
  "first_set f [] = None"
| "first_set f ((n, c) # ch) = opt_or (f c) (first_set f ch)"

fun first_setter :: "(container \<Rightarrow> 'a option) \<Rightarrow> (string \<times> container) list \<Rightarrow> string" where
  "first_setter f [] = []"
| "first_setter f [(n, c)] = n"
| "first_setter f ((n, c) # ch) = (if f c = None then first_setter f ch else n)"

lemma opt_or_None [simp]: "opt_or a None = a"
  by (cases a) simp_all

lemma chain_not_Nil: "extends_chain cs n ch \<Longrightarrow> ch \<noteq> []"
  by (auto elim: extends_chainE)

lemma chain_deterministic: "extends_chain cs n ch \<Longrightarrow> extends_chain cs n ch' \<Longrightarrow> ch = ch'"
proof (induction arbitrary: ch' rule: extends_chain.induct)
  case (chain_end n c)
  then show ?case by (auto elim: extends_chainE)
next
  case (chain_step n c p ch)
  from chain_step.prems chain_step.hyps obtain ch2 where "ch' = (n, c) # ch2" "extends_chain cs p ch2"
    by (auto elim: extends_chainE)
  with chain_step.IH show ?case by simp
qed

lemma chain_shrinks:
  assumes "(n, m) \<in> (edges_of (parent_of cs))\<^sup>+" and "extends_chain cs n ch"
  shows "\<exists>ch'. extends_chain cs m ch' \<and> length ch' < length ch"
  using assms
proof (induction rule: trancl_induct)
  case (base m)
  then show ?case by (simp, elim exE conjE) (erule extends_chainE; fastforce)
next
  case (step m k)
  then obtain ch' where ch': "extends_chain cs m ch'" "length ch' < length ch" by blast
  with step(2) show ?case by (simp, elim exE conjE) (erule extends_chainE[of cs m ch']; fastforce)
qed

lemma chain_no_cycle: "extends_chain cs n ch \<Longrightarrow> (n, n) \<notin> (edges_of (parent_of cs))\<^sup>+"
  using chain_shrinks chain_deterministic by fastforce

section \<open>The walk follows the chain\<close>

text \<open>What the two memo tables hold: for each name in them, the merge of its chain.\<close>

definition extends_inv :: "container index_map \<Rightarrow> extends_state \<Rightarrow> bool" where
  "extends_inv cs st \<longleftrightarrow>
     (\<forall>n c. im_get (fst st) n = Some c \<longrightarrow>
        (\<exists>ch. extends_chain cs n ch \<and> c = merged_chain ch \<and>
              im_get (snd st) n = Some (chain_suppliers ch)))"

lemma extends_inv_empty [simp]: "extends_inv cs ([], [])"
  by (simp add: extends_inv_def)

lemma extends_inv_insert:
  "extends_inv cs st \<Longrightarrow> extends_chain cs n ch \<Longrightarrow>
     extends_inv cs (im_insert (fst st) n (merged_chain ch), im_insert (snd st) n (chain_suppliers ch))"
  by (auto simp: extends_inv_def)

lemma merged_chain_Cons:
  "ch \<noteq> [] \<Longrightarrow> merged_chain ((n, c) # ch) = (inherit_container_fields c (merged_chain ch))\<lparr>extends := None\<rparr>"
  "ch \<noteq> [] \<Longrightarrow> chain_suppliers ((n, c) # ch) = inherit_suppliers n c (chain_suppliers ch)"
  by (cases ch; simp)+

lemma resolve_container_extends_ok:
  assumes "resolve_container_extends cs name st anc = Inr st'" and "extends_inv cs st"
  shows "extends_inv cs st' \<and> im_contains (fst st') name \<and>
         set (im_keys (fst st)) \<subseteq> set (im_keys (fst st'))"
  using assms
proof (induction cs name st anc arbitrary: st' rule: resolve_container_extends.induct)
  case (1 cs name st anc)
  show ?case
  proof (cases "im_contains (fst st) name")
    case True
    with 1(2,3) show ?thesis by (simp add: resolve_container_extends.simps[of cs name])
  next
    case new: False
    with 1(2) obtain own where anc: "name \<notin> set anc" and own: "im_get cs name = Some own"
      by (subst (asm) resolve_container_extends.simps) (auto split: if_splits option.splits)
    show ?thesis
    proof (cases "extends own")
      case None
      with 1(2) new anc own have "st' = (im_insert (fst st) name (own\<lparr>extends := None\<rparr>),
          im_insert (snd st) name (suppliers_own name))"
        by (simp add: resolve_container_extends.simps[of cs name])
      with extends_inv_insert[OF 1(3) chain_end[OF own None]] show ?thesis
        by (auto simp: im_contains_def)
    next
      case (Some parent)
      from 1(2) new anc own Some obtain st2 inh p where
        decl: "im_contains cs parent" and
        rec: "resolve_container_extends cs parent st (anc @ [name]) = Inr st2" and
        inh: "im_get (snd st2) parent = Some inh" and p: "im_get (fst st2) parent = Some p" and
        st': "st' = (im_insert (fst st2) name ((inherit_container_fields own p)\<lparr>extends := None\<rparr>),
                 im_insert (snd st2) name (inherit_suppliers name own inh))"
        by (auto simp: resolve_container_extends.simps[of cs name] result_simps)
      have IH: "extends_inv cs st2" "set (im_keys (fst st)) \<subseteq> set (im_keys (fst st2))"
        using 1(1)[OF new anc own Some _ rec 1(3)] decl by auto
      with p obtain ch where ch: "extends_chain cs parent ch" "p = merged_chain ch"
        "inh = chain_suppliers ch" using inh unfolding extends_inv_def by fastforce
      have chn: "extends_chain cs name ((name, own) # ch)" by (rule chain_step[OF own Some ch(1)])
      show ?thesis
        using extends_inv_insert[OF IH(1) chn] IH(2)
        by (auto simp: st' merged_chain_Cons[OF chain_not_Nil[OF ch(1)]] ch im_contains_def)
    qed
  qed
qed

section \<open>Errors\<close>

text \<open>What each error says of the configuration; a panic says something that cannot be.\<close>

fun extends_error_true :: "container index_map \<Rightarrow> extends_error \<Rightarrow> bool" where
  "extends_error_true cs (Cyclic_Extends n path) \<longleftrightarrow>
     path \<noteq> [] \<and> last path = n \<and> n \<in> set (butlast path) \<and>
     successively (\<lambda>a b. (a, b) \<in> edges_of (parent_of cs)) path"
| "extends_error_true cs (Undefined_Parent n p) \<longleftrightarrow> p \<in> set (parent_of cs n) \<and> \<not> im_contains cs p"
| "extends_error_true cs Extends_Panic \<longleftrightarrow> False"

lemma resolve_container_extends_err:
  assumes "resolve_container_extends cs name st anc = Inl e" and "extends_inv cs st"
    and "im_contains cs name"
    and "successively (\<lambda>a b. (a, b) \<in> edges_of (parent_of cs)) (anc @ [name])"
  shows "extends_error_true cs e"
  using assms
proof (induction cs name st anc rule: resolve_container_extends.induct)
  case (1 cs name st anc)
  from 1(4) obtain own where own: "im_get cs name = Some own"
    by (auto simp: im_contains_def dest: im_get_key)
  from 1(2) have new: "\<not> im_contains (fst st) name"
    by (auto simp: resolve_container_extends.simps[of cs name])
  show ?case
  proof (cases "name \<in> set anc")
    case True
    with 1(2) new have "e = Cyclic_Extends name (anc @ [name])"
      by (simp add: resolve_container_extends.simps[of cs name])
    with True 1(5) show ?thesis by simp
  next
    case anc: False
    from 1(2) new anc own obtain parent where parent: "extends own = Some parent"
      by (auto simp: resolve_container_extends.simps[of cs name] split: option.splits)
    show ?thesis
    proof (cases "im_contains cs parent")
      case False
      with 1(2) new anc own parent show ?thesis
        by (auto simp: resolve_container_extends.simps[of cs name])
    next
      case decl: True
      show ?thesis
      proof (cases "resolve_container_extends cs parent st (anc @ [name])")
        case (Inl e')
        then have "e = e'" using 1(2) new anc own parent decl
          by (simp add: resolve_container_extends.simps[of cs name])
        moreover have "successively (\<lambda>a b. (a, b) \<in> edges_of (parent_of cs)) ((anc @ [name]) @ [parent])"
          using 1(5) own parent by (simp add: successively_append_iff)
        ultimately show ?thesis
          using 1(1)[OF new anc own parent _ _ 1(3) decl] decl Inl by simp
      next
        case (Inr st2)
        from resolve_container_extends_ok[OF Inr 1(3)] obtain p inh where
          "im_get (fst st2) parent = Some p" "im_get (snd st2) parent = Some inh"
          unfolding extends_inv_def im_contains_def by (meson im_get_key)
        then show ?thesis using 1(2) new anc own parent decl Inr
          by (simp add: resolve_container_extends.simps[of cs name])
      qed
    qed
  qed
qed

lemma resolve_extends_state:
  assumes "resolve_extends cs = Inr (cs', sups)"
  obtains res where "extends_inv cs (res, sups)" and "set (im_keys cs) \<subseteq> set (im_keys res)"
    and "cs' = map (\<lambda>n. (n, the (im_get res n))) (im_keys cs)"
proof -
  from assms obtain res where
    loop: "fold_res (\<lambda>name st. resolve_container_extends cs name st []) (im_keys cs) ([], []) = Inr (res, sups)"
    and collect: "list_all2 (\<lambda>n y. (case im_get res n of None \<Rightarrow> Err Extends_Panic | Some c \<Rightarrow> Ok (n, c)) = Inr y)
                    (im_keys cs) cs'"
    by (auto simp: resolve_extends_def map_res_Ok)
  have inv: "extends_inv cs (res, sups) \<and> set (im_keys cs) \<subseteq> set (im_keys res)"
    using fold_res_inv_prefix[OF loop, of "\<lambda>ns st. extends_inv cs st \<and> set ns \<subseteq> set (im_keys (fst st))"]
    by (fastforce simp: im_contains_def dest: resolve_container_extends_ok)
  have "cs' = map (\<lambda>n. (n, the (im_get res n))) (im_keys cs)"
    using collect
    by (auto simp: list_eq_iff_nth_eq list_all2_conv_all_nth result_simps)
  with inv that show thesis by blast
qed

section \<open>Results\<close>

text \<open>Every inherited field of a merged chain is the first one set along it.\<close>

lemma merged_chain_fields:
  "image (merged_chain ch) = first_set image ch"
  "image_pull_policy (merged_chain ch) = first_set image_pull_policy ch"
  "build_directory (merged_chain ch) = first_set build_directory ch"
  "build_args (merged_chain ch) = first_set build_args ch"
  "dockerfile (merged_chain ch) = first_set dockerfile ch"
  "build_target (merged_chain ch) = first_set build_target ch"
  "build_secrets (merged_chain ch) = first_set build_secrets ch"
  "build_ssh (merged_chain ch) = first_set build_ssh ch"
  "volumes (merged_chain ch) = first_set volumes ch"
  "dependencies (merged_chain ch) = first_set dependencies ch"
  "environment (merged_chain ch) = first_set environment ch"
  "run_as_current_user (merged_chain ch) = first_set run_as_current_user ch"
  "additional_hostnames (merged_chain ch) = first_set additional_hostnames ch"
  "additional_hosts (merged_chain ch) = first_set additional_hosts ch"
  "ports (merged_chain ch) = first_set ports ch"
  "health_check (merged_chain ch) = first_set health_check ch"
  "setup_commands (merged_chain ch) = first_set setup_commands ch"
  "run_to_completion (merged_chain ch) = first_set run_to_completion ch"
  "external_health_check (merged_chain ch) = first_set external_health_check ch"
  "working_directory (merged_chain ch) = first_set working_directory ch"
  "command (merged_chain ch) = first_set command ch"
  "entrypoint (merged_chain ch) = first_set entrypoint ch"
  "labels (merged_chain ch) = first_set labels ch"
  "capabilities_to_add (merged_chain ch) = first_set capabilities_to_add ch"
  "capabilities_to_drop (merged_chain ch) = first_set capabilities_to_drop ch"
  "privileged (merged_chain ch) = first_set privileged ch"
  "shm_size (merged_chain ch) = first_set shm_size ch"
  "devices (merged_chain ch) = first_set devices ch"
  "enable_init_process (merged_chain ch) = first_set enable_init_process ch"
  "log_driver (merged_chain ch) = first_set log_driver ch"
  "log_options (merged_chain ch) = first_set log_options ch"
  "stop_signal (merged_chain ch) = first_set stop_signal ch"
  "stop_grace_period (merged_chain ch) = first_set stop_grace_period ch"
  "ulimits (merged_chain ch) = first_set ulimits ch"
  "dns (merged_chain ch) = first_set dns ch"
  "dns_search (merged_chain ch) = first_set dns_search ch"
  "dns_options (merged_chain ch) = first_set dns_options ch"
  "network_mode (merged_chain ch) = first_set network_mode ch"
  "user (merged_chain ch) = first_set user ch"
  "group (merged_chain ch) = first_set group ch"
  "groups (merged_chain ch) = first_set groups ch"
  "identity (merged_chain ch) = first_set identity ch"
  by (induction ch rule: merged_chain.induct) (simp_all add: container_default_def)

lemma chain_suppliers_fields:
  "ch \<noteq> [] \<Longrightarrow> sp_image (chain_suppliers ch) = first_setter image ch"
  "ch \<noteq> [] \<Longrightarrow> sp_volumes (chain_suppliers ch) = first_setter volumes ch"
  "ch \<noteq> [] \<Longrightarrow> sp_build_directory (chain_suppliers ch) = first_setter build_directory ch"
  "ch \<noteq> [] \<Longrightarrow> sp_build_secrets (chain_suppliers ch) = first_setter build_secrets ch"
  "ch \<noteq> [] \<Longrightarrow> sp_build_ssh (chain_suppliers ch) = first_setter build_ssh ch"
  "ch \<noteq> [] \<Longrightarrow> sp_run_as_current_user (chain_suppliers ch) = first_setter run_as_current_user ch"
  by (induction ch rule: chain_suppliers.induct) (simp_all add: suppliers_own_def inherit_suppliers_def)

lemma resolve_extends_chain:
  assumes "resolve_extends cs = Inr (cs', sups)" and "n \<in> set (im_keys cs)"
  obtains ch where "extends_chain cs n ch" and "im_get cs' n = Some (merged_chain ch)"
    and "im_get sups n = Some (chain_suppliers ch)"
proof -
  obtain res where inv: "extends_inv cs (res, sups)" and keys: "set (im_keys cs) \<subseteq> set (im_keys res)"
    and cs': "cs' = map (\<lambda>n. (n, the (im_get res n))) (im_keys cs)"
    using resolve_extends_state[OF assms(1)] .
  from assms(2) keys obtain c where c: "im_get res n = Some c" using im_get_key by blast
  from inv[unfolded extends_inv_def] c obtain ch where ch: "extends_chain cs n ch"
    "c = merged_chain ch" "im_get sups n = Some (chain_suppliers ch)" by auto
  have "im_get cs' n = Some c"
    using assms(2) c by (auto simp: cs' im_get_def map_of_map_restrict)
  with ch that show thesis by simp
qed



text \<open>
  C18 (resolve_extends_ok_iff): inheritance resolves exactly when every \<open>extends\<close> names a declared
  container and none leads back to itself. The error is truthful: a reported cycle is the path
  actually walked, ending where it passed before, and a reported parent is one not declared; the
  panics in the walk cannot happen.
\<close>

theorem resolve_extends_ok_iff:
  "(is_ok (resolve_extends cs) \<longleftrightarrow>
      snd ` edges_of (parent_of cs) \<subseteq> set (im_keys cs) \<and> acyclic (edges_of (parent_of cs))) \<and>
   (case resolve_extends cs of Inl e \<Rightarrow> extends_error_true cs e | Inr _ \<Rightarrow> True)"
proof -
  let ?E = "edges_of (parent_of cs)"
  have err: "extends_error_true cs e" if bad: "resolve_extends cs = Inl e" for e
  proof (cases "fold_res (\<lambda>name st. resolve_container_extends cs name st []) (im_keys cs) ([], [])")
    case (Inl e')
    with bad have "e' = e" by (simp add: resolve_extends_def)
    with Inl have loop: "fold_res (\<lambda>name st. resolve_container_extends cs name st []) (im_keys cs) ([], []) = Inl e"
      by simp
    show ?thesis
      by (rule fold_res_Err[OF loop, of "extends_inv cs"])
        (auto simp: im_contains_def dest: resolve_container_extends_ok resolve_container_extends_err)
  next
    case (Inr st)
    have "set (im_keys cs) \<subseteq> set (im_keys (fst st))"
      using fold_res_inv_prefix[OF Inr, of "\<lambda>ns st. extends_inv cs st \<and> set ns \<subseteq> set (im_keys (fst st))"]
      by (fastforce simp: im_contains_def dest: resolve_container_extends_ok)
    then have "\<exists>ys. map_res (\<lambda>name. case im_get (fst st) name of
        None \<Rightarrow> Err Extends_Panic | Some c \<Rightarrow> Ok (name, c)) (im_keys cs) = Inr ys"
      by (intro map_res_total) (use im_get_key in \<open>fastforce split: option.split\<close>)
    with bad Inr show ?thesis by (auto simp: resolve_extends_def)
  qed
  have "snd ` ?E \<subseteq> set (im_keys cs) \<and> acyclic ?E" if "resolve_extends cs = Inr (cs', sups)" for cs' sups
  proof -
    have chain: "\<exists>ch. extends_chain cs n ch" if "n \<in> set (im_keys cs)" for n
      using resolve_extends_chain[OF \<open>resolve_extends cs = Inr (cs', sups)\<close> that] by blast
    have key: "a \<in> set (im_keys cs)" if "(a, b) \<in> ?E" for a b using that by (auto dest: im_get_Some_key)
    have "b \<in> set (im_keys cs)" if ab: "(a, b) \<in> ?E" for a b
    proof -
      obtain ch where "extends_chain cs a ch" using chain key[OF ab] by blast
      with chain_shrinks[of a b cs ch] ab obtain ch' where "extends_chain cs b ch'" by blast
      then show ?thesis by (auto elim: extends_chainE dest: im_get_Some_key)
    qed
    moreover have "acyclic ?E"
    proof (rule acyclicI, rule allI)
      fix a
      show "(a, a) \<notin> ?E\<^sup>+"
        by (metis chain chain_no_cycle key tranclD)
    qed
    ultimately show ?thesis by auto
  qed
  moreover have False if "resolve_extends cs = Inl e" "snd ` ?E \<subseteq> set (im_keys cs)" "acyclic ?E" for e
  proof (cases e)
    case (Cyclic_Extends n path)
    with err[OF that(1)] have "path = butlast path @ [n]" and "n \<in> set (butlast path)"
      and "successively (\<lambda>a b. (a, b) \<in> ?E) path" by auto
    then show False using path_returns_cycle[of ?E "butlast path" n] that(3) by (simp add: acyclic_def)
  next
    case (Undefined_Parent n p)
    with err[OF that(1)] have "(n, p) \<in> ?E" and "p \<notin> set (im_keys cs)" by (auto simp: im_contains_def)
    with that(2) imageI[of "(n, p)" ?E snd] show False by (simp del: in_edges_of) blast
  qed (use err[OF that(1)] in simp)
  ultimately show ?thesis using err by (cases "resolve_extends cs") auto
qed

end
