(* ===== verification/Config_Checks.thy ===== *)
theory Config_Checks
  imports Config_Extends
begin

text \<open>
  The load-time rules of \<open>ratect-core/src/config.rs\<close> that judge a whole configuration once inheritance
  has been resolved: references to undeclared containers, cache scopes, run-to-completion conflicts,
  cache destinations under user mapping, customisations outside a task's graph, setup command targets,
  network modes (with the walk to the owner of a shared network namespace), container identities and
  passed-through users and groups. Each is a loop in declaration order that stops at the first
  offender; \<open>checks_after_extends\<close> runs them in the order \<open>load_project_impl\<close> does.
\<close>

section \<open>Errors\<close>

datatype check_error =
    Undeclared_Reference string string
  | Conflicting_Cache_Scopes string
  | Rtc_Health_Check string
  | Rtc_Setup_Commands string
  | Relative_Cache string string
  | Customised_Outside string string
  | Setup_Target_Not_Dependency string string
  | Setup_Target_Completes string string
  | Network_Undeclared string string string
  | Network_Loop string string "string list"
  | Field_Off_Network string string string
  | Network_Target_Not_Dependency string string
  | Network_Target_Completes string string
  | Owner_Off_Network string string string string
  | Field_On_Owner string string string
  | Task_Ports_Owner_Off string string string string
  | Task_Ports_On_Owner string string string
  | Task_Ports_Off_Network string string string
  | Not_A_User_Name string string
  | Root_Id string string string
  | Duplicate_User string string
  | Duplicate_Id string string string string
  | Identity_Conflict string string
  | Identity_Relative_Cache string string
  | Group_Without_User string
  | User_And_Run_As string
  | Not_A_Name_Or_Id string string string
  | Inherited_Run_As string string

section \<open>References\<close>

definition external_health_check_container_name :: "string \<Rightarrow> string" where
  "external_health_check_container_name container = ''ratect-health-check-'' @ container"

definition companions :: "config \<Rightarrow> string set" where
  "companions cfg = set (map (external_health_check_container_name \<circ> fst)
     (filter (\<lambda>(_, c). external_health_check c \<noteq> None) (containers cfg)))"

definition check_reference :: "config \<Rightarrow> string \<Rightarrow> string \<Rightarrow> (check_error, unit) result" where
  "check_reference cfg referrer reference =
     (if im_contains (containers cfg) reference \<or> reference \<in> companions cfg then Ok ()
      else Err (Undeclared_Reference reference referrer))"

definition task_references :: "task \<Rightarrow> string list" where
  "task_references t = (case t_run t of None \<Rightarrow> [] | Some r \<Rightarrow> [tr_container r]) @ or_empty (t_dependencies t)"

definition reject_references_to_undeclared_containers :: "config \<Rightarrow> (check_error, unit) result" where
  "reject_references_to_undeclared_containers cfg =
     rbind (each_res (\<lambda>(name, c). each_res (check_reference cfg (''container '' @ name)) (or_empty (dependencies c)))
              (containers cfg))
       (\<lambda>_. each_res (\<lambda>(name, t). each_res (check_reference cfg (''task '' @ name)) (task_references t))
              (tasks cfg))"

section \<open>Cache scopes, run to completion, cache destinations\<close>

definition cache_mounts :: "container \<Rightarrow> cache_volume list" where
  "cache_mounts c = List.map_filter (\<lambda>v. case v of Cache cv \<Rightarrow> Some cv | _ \<Rightarrow> None) (or_empty (volumes c))"

definition project_caches :: "config \<Rightarrow> cache_volume list" where
  "project_caches cfg = concat (map (\<lambda>(_, c). cache_mounts c) (containers cfg))"

definition see_scope ::
  "cache_volume \<Rightarrow> cache_scope index_map \<Rightarrow> (check_error, cache_scope index_map) result" where
  "see_scope cv seen = (case im_get seen (cv_name cv) of
       Some s \<Rightarrow> if s \<noteq> effective_scope cv then Err (Conflicting_Cache_Scopes (cv_name cv))
                 else Ok (im_insert seen (cv_name cv) (effective_scope cv))
     | None \<Rightarrow> Ok (im_insert seen (cv_name cv) (effective_scope cv)))"

definition reject_conflicting_cache_scopes :: "config \<Rightarrow> (check_error, unit) result" where
  "reject_conflicting_cache_scopes cfg =
     rbind (fold_res see_scope (project_caches cfg) []) (\<lambda>_. Ok ())"

definition completes :: "container \<Rightarrow> bool" where
  "completes c \<longleftrightarrow> run_to_completion c = Some True"

definition has_setup_commands :: "container \<Rightarrow> bool" where
  "has_setup_commands c \<longleftrightarrow> or_empty (setup_commands c) \<noteq> []"

definition reject_run_to_completion_conflicts :: "config \<Rightarrow> (check_error, unit) result" where
  "reject_run_to_completion_conflicts cfg = each_res (\<lambda>(name, c).
     if \<not> completes c then Ok ()
     else if health_check c \<noteq> None then Err (Rtc_Health_Check name)
     else if has_setup_commands c then Err (Rtc_Setup_Commands name)
     else Ok ()) (containers cfg)"

definition runs_as_current_user :: "container \<Rightarrow> bool" where
  "runs_as_current_user c \<longleftrightarrow> (case run_as_current_user c of None \<Rightarrow> False | Some u \<Rightarrow> rcu_enabled u)"

definition reject_relative_cache_mounts_under_user_mapping :: "config \<Rightarrow> (check_error, unit) result" where
  "reject_relative_cache_mounts_under_user_mapping cfg = each_res (\<lambda>(name, c).
     if \<not> runs_as_current_user c then Ok ()
     else each_res (\<lambda>cv. if starts_with (cv_container cv) ''/'' then Ok ()
                         else Err (Relative_Cache name (cv_container cv))) (cache_mounts c)) (containers cfg)"

definition reject_customisations_outside_the_task_graph :: "config \<Rightarrow> (check_error, unit) result" where
  "reject_customisations_outside_the_task_graph cfg = each_res (\<lambda>(task_name, t).
     case (t_run t, t_customise t) of
       (Some r, Some cu) \<Rightarrow>
         (case List.find (\<lambda>n. n \<notin> container_names_in_task (containers cfg) (tr_container r) (t_dependencies t))
                 (im_keys cu) of
            Some n \<Rightarrow> Err (Customised_Outside task_name n)
          | None \<Rightarrow> Ok ())
     | _ \<Rightarrow> Ok ()) (tasks cfg)"

section \<open>Setup command targets\<close>

definition target_completes :: "config \<Rightarrow> string \<Rightarrow> bool" where
  "target_completes cfg target \<longleftrightarrow>
     (case im_get (containers cfg) target of None \<Rightarrow> False | Some c \<Rightarrow> completes c)"

definition check_setup_target :: "config \<Rightarrow> string \<Rightarrow> container \<Rightarrow> setup_command \<Rightarrow> (check_error, unit) result" where
  "check_setup_target cfg name c sc = (case sc_run_in sc of
       None \<Rightarrow> Ok ()
     | Some target \<Rightarrow>
         if target = name then Ok ()
         else if target \<notin> set (or_empty (dependencies c)) then Err (Setup_Target_Not_Dependency name target)
         else if target_completes cfg target then Err (Setup_Target_Completes name target)
         else Ok ())"

definition validate_setup_command_targets :: "config \<Rightarrow> (check_error, unit) result" where
  "validate_setup_command_targets cfg =
     each_res (\<lambda>(name, c). each_res (check_setup_target cfg name c) (or_empty (setup_commands c)))
       (containers cfg)"

section \<open>Network modes\<close>

text \<open>
  The \<open>loop\<close> of \<open>network_namespace_owner\<close>: it ends because every name it goes on from is declared and
  not yet on the path.
\<close>

function owner_walk ::
  "container index_map \<Rightarrow> string \<Rightarrow> string \<Rightarrow> string list \<Rightarrow> string \<Rightarrow>
     (check_error, string \<times> string option) result" where
  "owner_walk cs name target path owner =
     (case im_get cs owner of
        None \<Rightarrow> Err (Network_Undeclared name target owner)
      | Some c \<Rightarrow>
          if owner \<in> set path
          then Err (Network_Loop name target (dropWhile (\<lambda>v. v \<noteq> owner) path @ [owner]))
          else (case network_mode c of
              Some (Container_Network n) \<Rightarrow> owner_walk cs name target (path @ [owner]) n
            | Some m \<Rightarrow> Ok (owner, Some (network_mode_string m))
            | None \<Rightarrow> Ok (owner, None)))"
  by pat_completeness auto
termination
proof (relation "measure (\<lambda>(cs, name, target, path, owner). card (set (im_keys cs) - set path))", goal_cases)
  case (2 cs name target path owner c m n)
  then have "set (im_keys cs) - set (path @ [owner]) \<subset> set (im_keys cs) - set path"
    by (auto dest: im_get_Some_key)
  then show ?case by (simp add: psubset_card_mono)
qed simp

declare owner_walk.simps [simp del]

definition network_namespace_owner ::
  "config \<Rightarrow> string \<Rightarrow> string \<Rightarrow> (check_error, string \<times> string option) result" where
  "network_namespace_owner cfg name target = owner_walk (containers cfg) name target [] target"

definition task_network_fields :: "container \<Rightarrow> (string \<times> bool) list" where
  "task_network_fields c = [(''ports'', ports c \<noteq> None),
     (''additional_hostnames'', additional_hostnames c \<noteq> None),
     (''external_health_check'', external_health_check c \<noteq> None)]"

definition shared_namespace_fields :: "container \<Rightarrow> (string \<times> bool) list" where
  "shared_namespace_fields c = [(''additional_hosts'', additional_hosts c \<noteq> None),
     (''dns'', dns c \<noteq> None), (''dns_search'', dns_search c \<noteq> None),
     (''dns_options'', dns_options c \<noteq> None)]"

definition check_shared_network ::
  "config \<Rightarrow> string \<Rightarrow> container \<Rightarrow> string \<Rightarrow> (check_error, unit) result" where
  "check_shared_network cfg name c target =
     rbind (network_namespace_owner cfg name target) (\<lambda>(owner, owner_off).
       if target \<notin> set (or_empty (dependencies c)) then Err (Network_Target_Not_Dependency name target)
       else if target_completes cfg target then Err (Network_Target_Completes name target)
       else (case (List.find snd (task_network_fields c), owner_off) of
           (Some (field, _), Some m) \<Rightarrow> Err (Owner_Off_Network name field owner m)
         | _ \<Rightarrow> (case List.find snd (task_network_fields c @ shared_namespace_fields c) of
               Some (field, _) \<Rightarrow> Err (Field_On_Owner name field owner)
             | None \<Rightarrow> Ok ())))"

definition check_network_mode :: "config \<Rightarrow> string \<times> container \<Rightarrow> (check_error, unit) result" where
  "check_network_mode cfg nc = (case network_mode (snd nc) of
       None \<Rightarrow> Ok ()
     | Some (Container_Network target) \<Rightarrow> check_shared_network cfg (fst nc) (snd nc) target
     | Some m \<Rightarrow> (case List.find snd (task_network_fields (snd nc)) of
           Some (field, _) \<Rightarrow> Err (Field_Off_Network (fst nc) field (network_mode_string m))
         | None \<Rightarrow> Ok ()))"

text \<open>The containers a task adds \<open>ports\<close> to: its \<open>run\<close> block's, then its customisations'.\<close>

definition task_port_containers :: "task \<Rightarrow> string list" where
  "task_port_containers t =
     (case t_run t of Some r \<Rightarrow> if tr_ports r \<noteq> None then [tr_container r] else [] | None \<Rightarrow> []) @
     map fst (filter (\<lambda>(_, cu). cu_ports cu \<noteq> None) (or_empty (t_customise t)))"

definition check_task_ports :: "config \<Rightarrow> string \<Rightarrow> string \<Rightarrow> (check_error, unit) result" where
  "check_task_ports cfg task_name name =
     (case im_get (containers cfg) name of None \<Rightarrow> Ok () | Some c \<Rightarrow>
       (case network_mode c of
          None \<Rightarrow> Ok ()
        | Some (Container_Network target) \<Rightarrow>
            rbind (network_namespace_owner cfg name target) (\<lambda>(owner, owner_off).
              case owner_off of Some m \<Rightarrow> Err (Task_Ports_Owner_Off task_name name owner m)
                              | None \<Rightarrow> Err (Task_Ports_On_Owner task_name name owner))
        | Some m \<Rightarrow> Err (Task_Ports_Off_Network task_name name (network_mode_string m))))"

definition validate_network_modes :: "config \<Rightarrow> (check_error, unit) result" where
  "validate_network_modes cfg =
     rbind (each_res (check_network_mode cfg) (containers cfg))
       (\<lambda>_. each_res (\<lambda>(task_name, t). each_res (check_task_ports cfg task_name) (task_port_containers t))
              (tasks cfg))"

section \<open>Identity\<close>

definition is_user_name :: "string \<Rightarrow> bool" where
  "is_user_name name = (case name of [] \<Rightarrow> False
     | c # cs \<Rightarrow> (is_ascii_alphabetic c \<or> c = CHR ''_'') \<and>
         list_all (\<lambda>r. is_ascii_alphanumeric r \<or> r \<in> set ''_.-'') cs)"

definition check_against_earlier ::
  "string \<Rightarrow> additional_user \<Rightarrow> additional_user \<Rightarrow> (check_error, unit) result" where
  "check_against_earlier container u earlier =
     (if au_name earlier = au_name u then Err (Duplicate_User container (au_name u))
      else if au_uid earlier = au_uid u then Err (Duplicate_Id container (au_name earlier) (au_name u) ''uid'')
      else if au_gid earlier = au_gid u then Err (Duplicate_Id container (au_name earlier) (au_name u) ''gid'')
      else Ok ())"

fun check_users :: "string \<Rightarrow> additional_user list \<Rightarrow> additional_user list \<Rightarrow> (check_error, unit) result" where
  "check_users container earlier [] = Ok ()"
| "check_users container earlier (u # us) =
     (if \<not> is_user_name (au_name u) then Err (Not_A_User_Name container (au_name u))
      else if au_uid u = 0 \<or> au_gid u = 0
      then Err (Root_Id container (au_name u) (if au_uid u = 0 then ''uid'' else ''gid''))
      else rbind (each_res (check_against_earlier container u) earlier)
             (\<lambda>_. check_users container (earlier @ [u]) us))"

definition validate_additional_users :: "string \<Rightarrow> additional_user list \<Rightarrow> (check_error, unit) result" where
  "validate_additional_users container users = check_users container [] users"

definition check_identity :: "string \<Rightarrow> container \<Rightarrow> (check_error, unit) result" where
  "check_identity name c = (case identity c of
       None \<Rightarrow> Ok ()
     | Some i \<Rightarrow> rbind (validate_additional_users name (id_additional_users i)) (\<lambda>_.
         if user c \<noteq> None then Err (Identity_Conflict name ''user'')
         else if group c \<noteq> None then Err (Identity_Conflict name ''group'')
         else if runs_as_current_user c then Err (Identity_Conflict name ''run_as_current_user'')
         else each_res (\<lambda>cv. if starts_with (cv_container cv) ''/'' then Ok ()
                             else Err (Identity_Relative_Cache name (cv_container cv))) (cache_mounts c)))"

definition validate_identity :: "config \<Rightarrow> (check_error, unit) result" where
  "validate_identity cfg = each_res (\<lambda>(name, c). check_identity name c) (containers cfg)"

definition passthrough_values :: "container \<Rightarrow> (string \<times> string) list" where
  "passthrough_values c =
     (case user c of Some u \<Rightarrow> [(''user'', u)] | None \<Rightarrow> []) @
     (case group c of Some g \<Rightarrow> [(''group'', g)] | None \<Rightarrow> []) @
     map (Pair ''groups'') (or_empty (groups c))"

definition check_passthrough :: "string \<Rightarrow> container \<Rightarrow> (check_error, unit) result" where
  "check_passthrough name c =
     (if group c \<noteq> None \<and> user c = None then Err (Group_Without_User name)
      else if user c \<noteq> None \<and> runs_as_current_user c then Err (User_And_Run_As name)
      else each_res (\<lambda>(field, v). if v \<noteq> [] \<and> CHR '':'' \<notin> set v then Ok ()
                                  else Err (Not_A_Name_Or_Id name field v)) (passthrough_values c))"

definition validate_passthrough_identity :: "config \<Rightarrow> (check_error, unit) result" where
  "validate_passthrough_identity cfg = each_res (\<lambda>(name, c). check_passthrough name c) (containers cfg)"

definition suppliers_of :: "suppliers index_map \<Rightarrow> string \<Rightarrow> suppliers" where
  "suppliers_of sups name = (case im_get sups name of Some s \<Rightarrow> s | None \<Rightarrow> suppliers_own name)"

definition reject_inherited_run_as_current_user ::
  "config \<Rightarrow> suppliers index_map \<Rightarrow> (check_error, unit) result" where
  "reject_inherited_run_as_current_user cfg sups = each_res (\<lambda>(name, c).
     if \<not> runs_as_current_user c \<or> sp_run_as_current_user (suppliers_of sups name) = name then Ok ()
     else Err (Inherited_Run_As name (sp_run_as_current_user (suppliers_of sups name)))) (containers cfg)"

definition checks_after_extends :: "config \<Rightarrow> suppliers index_map \<Rightarrow> (check_error, unit) result" where
  "checks_after_extends cfg sups = each_res id
     [reject_references_to_undeclared_containers cfg,
      reject_conflicting_cache_scopes cfg,
      reject_run_to_completion_conflicts cfg,
      reject_relative_cache_mounts_under_user_mapping cfg,
      reject_customisations_outside_the_task_graph cfg,
      validate_setup_command_targets cfg,
      validate_network_modes cfg,
      validate_identity cfg,
      validate_passthrough_identity cfg,
      reject_inherited_run_as_current_user cfg sups]"

section \<open>Whose network a container is on\<close>

definition net_next :: "container index_map \<Rightarrow> string \<Rightarrow> string list" where
  "net_next cs n = (case im_get cs n of None \<Rightarrow> [] | Some c \<Rightarrow>
     (case network_mode c of Some (Container_Network m) \<Rightarrow> [m] | _ \<Rightarrow> []))"

lemma net_next_declared: "net_next cs n \<noteq> [] \<Longrightarrow> n \<in> set (im_keys cs)"
  by (auto simp: net_next_def split: option.splits dest: im_get_Some_key)

interpretation network_graph: functional_digraph "net_next cs" for cs
proof
  have "{n. net_next cs n \<noteq> []} \<subseteq> set (im_keys cs)" using net_next_declared by auto
  then show "finite {n. net_next cs n \<noteq> []}" by (rule finite_subset) simp
  show "length (net_next cs n) \<le> 1" for n
    by (simp add: net_next_def split: option.split network_mode.split)
qed

text \<open>The reference: \<open>owner\<close> is where the chain of \<open>container:\<close> modes from \<open>target\<close> ends, at a declared
  container, and \<open>off\<close> is that container's own mode.\<close>

definition network_owner :: "container index_map \<Rightarrow> string \<Rightarrow> string \<Rightarrow> string option \<Rightarrow> bool" where
  "network_owner cs target owner off \<longleftrightarrow>
     (target, owner) \<in> (edges_of (net_next cs))\<^sup>* \<and> net_next cs owner = [] \<and>
     (\<exists>c. im_get cs owner = Some c \<and> off = map_option network_mode_string (network_mode c))"

lemma network_owner_step:
  "net_next cs a = [b] \<Longrightarrow> network_owner cs b owner off \<Longrightarrow> network_owner cs a owner off"
  unfolding network_owner_def by (auto intro: converse_rtrancl_into_rtrancl)

lemma network_owner_back:
  assumes "net_next cs a = [b]" and "network_owner cs a owner off"
  shows "network_owner cs b owner off"
proof -
  from assms(2) have "(a, owner) \<in> (edges_of (net_next cs))\<^sup>*" and "a \<noteq> owner"
    using assms(1) by (auto simp: network_owner_def)
  then have "(b, owner) \<in> (edges_of (net_next cs))\<^sup>*"
    using assms(1) by (auto elim: converse_rtranclE)
  with assms(2) show ?thesis by (simp add: network_owner_def)
qed

lemma owner_walk_sound: "owner_walk cs name target path a = Inr (owner, off) \<Longrightarrow> network_owner cs a owner off"
proof (induction cs name target path a rule: owner_walk.induct)
  case (1 cs name target path a)
  from 1(2) obtain c where c: "im_get cs a = Some c" and new: "a \<notin> set path"
    by (subst (asm) owner_walk.simps) (auto split: option.splits if_splits)
  show ?case
  proof (cases "\<exists>n. network_mode c = Some (Container_Network n)")
    case True
    then obtain n where n: "network_mode c = Some (Container_Network n)" by blast
    with 1 c new have "network_owner cs n owner off" by (simp add: owner_walk.simps[of cs name target path a])
    then show ?thesis by (rule network_owner_step[rotated]) (simp add: net_next_def c n)
  next
    case False
    with 1(2) c new show ?thesis
      by (auto simp: owner_walk.simps[of cs name target path a] network_owner_def net_next_def
          split: option.splits network_mode.splits dest: im_get_Some_key)
  qed
qed

lemma owner_walk_complete:
  assumes "network_owner cs a owner off" and "\<And>v. v \<in> set path \<Longrightarrow> (v, a) \<in> (edges_of (net_next cs))\<^sup>+"
  shows "owner_walk cs name target path a = Inr (owner, off)"
  using assms
proof (induction cs name target path a rule: owner_walk.induct)
  case (1 cs name target path a)
  have "(a, a) \<notin> (edges_of (net_next cs))\<^sup>+"
    using 1(2) network_graph.sink_no_cycle[of a owner cs] by (simp add: network_owner_def)
  then have new: "a \<notin> set path" using 1(3) by blast
  show ?case
  proof (cases "net_next cs a")
    case Nil
    then have "a = owner" using 1(2) by (auto simp: network_owner_def elim: converse_rtranclE)
    with 1(2) new Nil show ?thesis
      by (auto simp: owner_walk.simps[of cs name target path owner] network_owner_def net_next_def
          split: option.splits network_mode.splits dest: im_get_Some_key)
  next
    case (Cons b bs)
    then obtain c where c: "im_get cs a = Some c" "network_mode c = Some (Container_Network b)" and bs: "bs = []"
      by (auto simp: net_next_def split: option.splits network_mode.splits)
    have edge: "(a, b) \<in> edges_of (net_next cs)" by (simp add: Cons)
    have "owner_walk cs name target (path @ [a]) b = Inr (owner, off)"
    proof (rule 1(1)[OF c(1) new c(2) refl])
      show "network_owner cs b owner off" using network_owner_back 1(2) Cons bs by blast
      show "(v, b) \<in> (edges_of (net_next cs))\<^sup>+" if "v \<in> set (path @ [a])" for v
        using that 1(3)[of v] edge trancl_into_trancl[OF _ edge] by (auto simp del: in_edges_of)
    qed
    with c new show ?thesis by (simp add: owner_walk.simps[of cs name target path a])
  qed
qed

text \<open>
  C20 (network_namespace_owner_correct): the walk over \<open>container:\<close> network modes ends on every
  configuration, loops included, and returns an owner exactly when the chain ends at a declared
  container that has a network of its own; what it returns is that container and its mode.
\<close>

theorem network_namespace_owner_correct:
  "network_namespace_owner cfg name target = Inr (owner, off) \<longleftrightarrow>
     network_owner (containers cfg) target owner off"
  unfolding network_namespace_owner_def
  using owner_walk_sound owner_walk_complete[where path = "[]"] by auto

lemma owner_found: "(\<exists>x. network_namespace_owner cfg name target = Inr x) \<longleftrightarrow>
    (\<exists>owner off. network_owner (containers cfg) target owner off)"
  unfolding network_namespace_owner_def
  using owner_walk_sound owner_walk_complete[where path = "[]"] by fastforce

section \<open>What a configuration that passes promises\<close>

definition references_declared :: "config \<Rightarrow> bool" where
  "references_declared cfg \<longleftrightarrow>
     (\<forall>(n, c) \<in> set (containers cfg).
        set (or_empty (dependencies c)) \<subseteq> set (im_keys (containers cfg)) \<union> companions cfg) \<and>
     (\<forall>(n, t) \<in> set (tasks cfg).
        set (task_references t) \<subseteq> set (im_keys (containers cfg)) \<union> companions cfg)"

definition caches_one_scope :: "config \<Rightarrow> bool" where
  "caches_one_scope cfg \<longleftrightarrow>
     (\<forall>a \<in> set (project_caches cfg). \<forall>b \<in> set (project_caches cfg).
        cv_name a = cv_name b \<longrightarrow> effective_scope a = effective_scope b)"

definition completion_sound :: "container \<Rightarrow> bool" where
  "completion_sound c \<longleftrightarrow> (completes c \<longrightarrow> health_check c = None \<and> \<not> has_setup_commands c)"

definition cache_paths_absolute :: "container \<Rightarrow> bool" where
  "cache_paths_absolute c \<longleftrightarrow> (\<forall>cv \<in> set (cache_mounts c). starts_with (cv_container cv) ''/'')"

definition customisations_in_graph :: "config \<Rightarrow> task \<Rightarrow> bool" where
  "customisations_in_graph cfg t \<longleftrightarrow> (\<forall>r cu. t_run t = Some r \<longrightarrow> t_customise t = Some cu \<longrightarrow>
     set (im_keys cu) \<subseteq>
       reachable_from (deps_of (containers cfg)) (set (tr_container r # or_empty (t_dependencies t))))"

definition setup_targets_sound :: "config \<Rightarrow> string \<Rightarrow> container \<Rightarrow> bool" where
  "setup_targets_sound cfg n c \<longleftrightarrow> (\<forall>sc \<in> set (or_empty (setup_commands c)). \<forall>target.
     sc_run_in sc = Some target \<longrightarrow> target \<noteq> n \<longrightarrow>
       target \<in> set (or_empty (dependencies c)) \<and> \<not> target_completes cfg target)"

definition no_field_set :: "(string \<times> bool) list \<Rightarrow> bool" where
  "no_field_set fs \<longleftrightarrow> \<not> (\<exists>f \<in> set fs. snd f)"

definition network_sound :: "config \<Rightarrow> container \<Rightarrow> bool" where
  "network_sound cfg c \<longleftrightarrow> (case network_mode c of
       None \<Rightarrow> True
     | Some (Container_Network target) \<Rightarrow>
         (\<exists>owner off. network_owner (containers cfg) target owner off) \<and>
         target \<in> set (or_empty (dependencies c)) \<and> \<not> target_completes cfg target \<and>
         no_field_set (task_network_fields c) \<and> no_field_set (shared_namespace_fields c)
     | Some _ \<Rightarrow> no_field_set (task_network_fields c))"

definition task_ports_sound :: "config \<Rightarrow> task \<Rightarrow> bool" where
  "task_ports_sound cfg t \<longleftrightarrow> (\<forall>n \<in> set (task_port_containers t). \<forall>c.
     im_get (containers cfg) n = Some c \<longrightarrow> network_mode c = None)"

definition users_sound :: "additional_user list \<Rightarrow> bool" where
  "users_sound us \<longleftrightarrow> distinct (map au_name us) \<and> distinct (map au_uid us) \<and> distinct (map au_gid us) \<and>
     (\<forall>u \<in> set us. is_user_name (au_name u) \<and> au_uid u \<noteq> 0 \<and> au_gid u \<noteq> 0)"

definition identity_sound :: "container \<Rightarrow> bool" where
  "identity_sound c \<longleftrightarrow> (\<forall>i. identity c = Some i \<longrightarrow> users_sound (id_additional_users i) \<and>
     user c = None \<and> group c = None \<and> \<not> runs_as_current_user c \<and> cache_paths_absolute c)"

definition passthrough_sound :: "container \<Rightarrow> bool" where
  "passthrough_sound c \<longleftrightarrow> (group c \<noteq> None \<longrightarrow> user c \<noteq> None) \<and> (user c \<noteq> None \<longrightarrow> \<not> runs_as_current_user c) \<and>
     (\<forall>(f, v) \<in> set (passthrough_values c). v \<noteq> [] \<and> CHR '':'' \<notin> set v)"

definition config_sound :: "config \<Rightarrow> suppliers index_map \<Rightarrow> bool" where
  "config_sound cfg sups \<longleftrightarrow> references_declared cfg \<and> caches_one_scope cfg \<and>
     (\<forall>(n, c) \<in> set (containers cfg).
        completion_sound c \<and> (runs_as_current_user c \<longrightarrow> cache_paths_absolute c) \<and>
        setup_targets_sound cfg n c \<and> network_sound cfg c \<and> identity_sound c \<and> passthrough_sound c \<and>
        (runs_as_current_user c \<longrightarrow> sp_run_as_current_user (suppliers_of sups n) = n)) \<and>
     (\<forall>(n, t) \<in> set (tasks cfg). customisations_in_graph cfg t \<and> task_ports_sound cfg t)"

section \<open>One lemma per rule\<close>

lemma each_pair_iff:
  assumes "\<And>a b. f a b = Inr () \<longleftrightarrow> P a b"
  shows "each_res (\<lambda>(a, b). f a b) xs = Inr () \<longleftrightarrow> (\<forall>(a, b) \<in> set xs. P a b)"
  using assms by (induction xs) auto

lemma rbind_unit_Ok: "rbind r (\<lambda>_ :: unit. r') = Inr y \<longleftrightarrow> r = Inr () \<and> r' = Inr y"
  by (cases r) auto

text \<open>A rule that reports the first offender passes exactly when there is none.\<close>

lemma find_reject:
  "(case List.find P xs of Some x \<Rightarrow> Inl (f x) | None \<Rightarrow> r) = Inr y \<longleftrightarrow>
     \<not> (\<exists>x \<in> set xs. P x) \<and> r = Inr y"
  by (induction xs) auto

lemma check_references_ok:
  "each_res (check_reference cfg r) ns = Inr () \<longleftrightarrow> set ns \<subseteq> set (im_keys (containers cfg)) \<union> companions cfg"
  by (auto simp: check_reference_def im_contains_def)

lemma reject_references_ok:
  "reject_references_to_undeclared_containers cfg = Inr () \<longleftrightarrow> references_declared cfg"
proof -
  let ?known = "set (im_keys (containers cfg)) \<union> companions cfg"
  have "each_res (\<lambda>(n, c). each_res (check_reference cfg (''container '' @ n)) (or_empty (dependencies c)))
          (containers cfg) = Inr () \<longleftrightarrow> (\<forall>(n, c) \<in> set (containers cfg). set (or_empty (dependencies c)) \<subseteq> ?known)"
    by (rule each_pair_iff) (rule check_references_ok)
  moreover have "each_res (\<lambda>(n, t). each_res (check_reference cfg (''task '' @ n)) (task_references t))
          (tasks cfg) = Inr () \<longleftrightarrow> (\<forall>(n, t) \<in> set (tasks cfg). set (task_references t) \<subseteq> ?known)"
    by (rule each_pair_iff) (rule check_references_ok)
  ultimately show ?thesis
    by (simp only: reject_references_to_undeclared_containers_def references_declared_def rbind_unit_Ok)
qed

lemma see_scope_Ok:
  "see_scope cv seen = Inr seen' \<longleftrightarrow>
     (\<forall>s. im_get seen (cv_name cv) = Some s \<longrightarrow> s = effective_scope cv) \<and>
     seen' = im_insert seen (cv_name cv) (effective_scope cv)"
  by (cases "im_get seen (cv_name cv)") (auto simp: see_scope_def)

lemma scopes_agree:
  assumes "fold_res see_scope cvs [] = Inr t"
  shows "\<forall>a \<in> set cvs. im_get t (cv_name a) = Some (effective_scope a)"
  by (rule fold_res_inv_prefix[OF assms]) (auto simp: see_scope_Ok)

lemma scopes_clash:
  assumes "fold_res see_scope cvs [] = Inl e"
  obtains a b where "a \<in> set cvs" and "b \<in> set cvs" and "cv_name a = cv_name b"
    and "effective_scope a \<noteq> effective_scope b"
proof -
  let ?P = "\<lambda>seen. \<forall>k s. im_get seen k = Some s \<longrightarrow> (\<exists>a \<in> set cvs. cv_name a = k \<and> effective_scope a = s)"
  have keep: "?P v" if "x \<in> set cvs" "?P u" "see_scope x u = Inr v" for x u v
    using that by (auto simp: see_scope_Ok)
  have start: "?P []" by simp
  obtain x u where "x \<in> set cvs" and u: "?P u" and "see_scope x u = Inl e"
    using fold_res_Err[of see_scope cvs "[]" e ?P] assms start keep by blast
  moreover then obtain s where "im_get u (cv_name x) = Some s" and "s \<noteq> effective_scope x"
    by (auto simp: see_scope_def split: option.splits if_splits)
  ultimately show thesis using that by metis
qed

lemma reject_conflicting_ok: "reject_conflicting_cache_scopes cfg = Inr () \<longleftrightarrow> caches_one_scope cfg"
proof (cases "fold_res see_scope (project_caches cfg) []")
  case (Inl e)
  then show ?thesis using scopes_clash[OF Inl]
    by (simp add: reject_conflicting_cache_scopes_def caches_one_scope_def) blast
next
  case (Inr t)
  then show ?thesis using scopes_agree[OF Inr]
    by (simp add: reject_conflicting_cache_scopes_def caches_one_scope_def) (metis option.inject)
qed

lemma reject_run_to_completion_ok:
  "reject_run_to_completion_conflicts cfg = Inr () \<longleftrightarrow> (\<forall>(n, c) \<in> set (containers cfg). completion_sound c)"
  unfolding reject_run_to_completion_conflicts_def
  by (rule each_pair_iff) (auto simp: completion_sound_def)

lemma cache_paths_ok:
  "each_res (\<lambda>cv. if starts_with (cv_container cv) ''/'' then Ok () else Err (e (cv_container cv))) (cache_mounts c) = Inr ()
     \<longleftrightarrow> cache_paths_absolute c"
  by (simp add: cache_paths_absolute_def)

lemma reject_relative_cache_ok:
  "reject_relative_cache_mounts_under_user_mapping cfg = Inr () \<longleftrightarrow>
     (\<forall>(n, c) \<in> set (containers cfg). runs_as_current_user c \<longrightarrow> cache_paths_absolute c)"
  unfolding reject_relative_cache_mounts_under_user_mapping_def
  by (rule each_pair_iff) (auto simp: cache_paths_absolute_def)

lemma reject_customisations_ok:
  "reject_customisations_outside_the_task_graph cfg = Inr () \<longleftrightarrow>
     (\<forall>(n, t) \<in> set (tasks cfg). customisations_in_graph cfg t)"
  unfolding reject_customisations_outside_the_task_graph_def
  by (rule each_pair_iff)
    (auto simp: customisations_in_graph_def names_reachable find_reject split: option.split)

lemma validate_setup_ok:
  "validate_setup_command_targets cfg = Inr () \<longleftrightarrow>
     (\<forall>(n, c) \<in> set (containers cfg). setup_targets_sound cfg n c)"
proof -
  have "each_res (check_setup_target cfg n c) (or_empty (setup_commands c)) = Inr () \<longleftrightarrow>
      setup_targets_sound cfg n c" for n c
    unfolding each_res_Ok setup_targets_sound_def
    by (intro ball_cong refl) (auto simp: check_setup_target_def split: option.split)
  then show ?thesis unfolding validate_setup_command_targets_def by (rule each_pair_iff)
qed

lemma find_field_None: "List.find snd fs = None \<longleftrightarrow> no_field_set fs"
  by (induction fs) (auto simp: no_field_set_def)

lemma no_field_set_append [simp]: "no_field_set (fs @ gs) \<longleftrightarrow> no_field_set fs \<and> no_field_set gs"
  by (auto simp: no_field_set_def)

lemma field_rules_ok:
  "(case List.find snd fs of
       None \<Rightarrow> (case List.find snd (fs @ gs) of Some (f, _) \<Rightarrow> Inl (e2 f) | None \<Rightarrow> Inr ())
     | Some (f, _) \<Rightarrow> (case off of Some m \<Rightarrow> Inl (e1 f m)
         | None \<Rightarrow> (case List.find snd (fs @ gs) of Some (f, _) \<Rightarrow> Inl (e2 f) | None \<Rightarrow> Inr ()))) = Inr () \<longleftrightarrow>
   no_field_set fs \<and> no_field_set gs"
  using find_field_None[of fs] find_field_None[of "fs @ gs"]
  by (cases "List.find snd fs"; cases "List.find snd (fs @ gs)"; cases off) (auto split: prod.splits)

lemma check_network_mode_ok: "check_network_mode cfg (n, c) = Inr () \<longleftrightarrow> network_sound cfg c"
proof (cases "network_mode c")
  case (Some m)
  show ?thesis
  proof (cases m)
    case (Container_Network target)
    have "check_shared_network cfg n c target = Inr () \<longleftrightarrow>
      (\<exists>x. network_namespace_owner cfg n target = Inr x) \<and>
      target \<in> set (or_empty (dependencies c)) \<and> \<not> target_completes cfg target \<and>
      no_field_set (task_network_fields c) \<and> no_field_set (shared_namespace_fields c)"
      by (cases "network_namespace_owner cfg n target")
        (simp_all add: check_shared_network_def field_rules_ok split: prod.split)
    with Some Container_Network show ?thesis
      by (simp only: check_network_mode_def network_sound_def owner_found fst_conv snd_conv option.case network_mode.case)
  qed (use Some find_field_None[of "task_network_fields c"] in
      \<open>auto simp: check_network_mode_def network_sound_def split: option.splits\<close>)
qed (simp add: check_network_mode_def network_sound_def)

lemma check_task_ports_ok:
  "check_task_ports cfg tn n = Inr () \<longleftrightarrow>
     (\<forall>c. im_get (containers cfg) n = Some c \<longrightarrow> network_mode c = None)"
  by (cases "im_get (containers cfg) n")
    (auto simp: check_task_ports_def split: option.splits network_mode.splits)

lemma validate_network_modes_ok:
  "validate_network_modes cfg = Inr () \<longleftrightarrow>
     (\<forall>(n, c) \<in> set (containers cfg). network_sound cfg c) \<and>
     (\<forall>(n, t) \<in> set (tasks cfg). task_ports_sound cfg t)"
proof -
  have "each_res (check_network_mode cfg) (containers cfg) = Inr () \<longleftrightarrow>
      (\<forall>(n, c) \<in> set (containers cfg). network_sound cfg c)"
    using check_network_mode_ok by auto
  moreover have "each_res (\<lambda>(tn, t). each_res (check_task_ports cfg tn) (task_port_containers t)) (tasks cfg) = Inr () \<longleftrightarrow>
      (\<forall>(n, t) \<in> set (tasks cfg). task_ports_sound cfg t)"
    by (rule each_pair_iff) (simp add: task_ports_sound_def check_task_ports_ok)
  ultimately show ?thesis by (simp only: validate_network_modes_def rbind_unit_Ok)
qed

lemma check_users_ok:
  "check_users k earlier us = Inr () \<longleftrightarrow>
     users_sound us \<and> (\<forall>u \<in> set us. \<forall>e \<in> set earlier.
        au_name e \<noteq> au_name u \<and> au_uid e \<noteq> au_uid u \<and> au_gid e \<noteq> au_gid u)"
proof (induction k earlier us rule: check_users.induct)
  case (2 k earlier u us)
  have "each_res (check_against_earlier k u) earlier = Inr () \<longleftrightarrow>
      (\<forall>e \<in> set earlier. au_name e \<noteq> au_name u \<and> au_uid e \<noteq> au_uid u \<and> au_gid e \<noteq> au_gid u)"
    unfolding each_res_Ok by (intro ball_cong refl) (simp add: check_against_earlier_def)
  with 2 show ?case
    by (simp only: check_users.simps guard_Ok rbind_unit_Ok) (auto simp: users_sound_def image_iff)
qed (simp add: users_sound_def)

lemma check_identity_ok: "check_identity n c = Inr () \<longleftrightarrow> identity_sound c"
proof (cases "identity c")
  case (Some i)
  then show ?thesis
    unfolding check_identity_def validate_additional_users_def identity_sound_def
    by (simp only: option.case rbind_unit_Ok check_users_ok guard_Ok)
      (auto simp: cache_paths_absolute_def)
qed (simp add: check_identity_def identity_sound_def)

lemma check_passthrough_ok: "check_passthrough n c = Inr () \<longleftrightarrow> passthrough_sound c"
proof -
  have vals: "each_res (\<lambda>(field, v). if v \<noteq> [] \<and> CHR '':'' \<notin> set v then Ok () else Err (Not_A_Name_Or_Id n field v))
      (passthrough_values c) = Inr () \<longleftrightarrow> (\<forall>(f, v) \<in> set (passthrough_values c). v \<noteq> [] \<and> CHR '':'' \<notin> set v)"
    by (rule each_pair_iff) simp
  show ?thesis
    by (simp only: check_passthrough_def passthrough_sound_def guard_Ok vals de_Morgan_conj not_not
        imp_conv_disj conj_assoc)
qed

lemma reject_inherited_ok:
  "reject_inherited_run_as_current_user cfg sups = Inr () \<longleftrightarrow>
     (\<forall>(n, c) \<in> set (containers cfg). runs_as_current_user c \<longrightarrow> sp_run_as_current_user (suppliers_of sups n) = n)"
  unfolding reject_inherited_run_as_current_user_def by (rule each_pair_iff) simp

text \<open>
  C19 (checks_after_extends_iff): the load-time rules accept exactly the configurations that
  \<open>config_sound\<close> describes: every reference is to a declared or generated container; a cache name has
  one scope; a run-to-completion container has no health check or setup commands; a customised
  container is in its task's graph; a setup command runs in its own container or in a dependency that
  stays up; a shared network is a running dependency's, ends at a container with a network of its own,
  and no field is set that needs the network left; additional users have distinct names and ids; and a
  container has one source of identity.
\<close>

theorem checks_after_extends_iff: "checks_after_extends cfg sups = Inr () \<longleftrightarrow> config_sound cfg sups"
proof -
  have "validate_identity cfg = Inr () \<longleftrightarrow> (\<forall>(n, c) \<in> set (containers cfg). identity_sound c)"
    unfolding validate_identity_def by (rule each_pair_iff) (rule check_identity_ok)
  moreover have "validate_passthrough_identity cfg = Inr () \<longleftrightarrow> (\<forall>(n, c) \<in> set (containers cfg). passthrough_sound c)"
    unfolding validate_passthrough_identity_def by (rule each_pair_iff) (rule check_passthrough_ok)
  ultimately show ?thesis
    unfolding checks_after_extends_def config_sound_def
    by (simp only: each_res.simps id_apply rbind_unit_Ok reject_references_ok reject_conflicting_ok
        reject_run_to_completion_ok reject_relative_cache_ok reject_customisations_ok validate_setup_ok
        validate_network_modes_ok reject_inherited_ok) blast
qed

end
