(* ===== verification/Command_Line.thy ===== *)
theory Command_Line
  imports Rust_Std
begin

text \<open>
  The command-line tokenizer of \<open>ratect-core/src/docker.rs\<close> (\<open>tokenize_command_line\<close>), which turns a
  \<open>command\<close> or \<open>entrypoint\<close> into literal arguments with no shell in between, and \<open>build_cmd\<close>, which
  appends the arguments given after \<open>--\<close>. The index \<open>i\<close> of the source is the remaining input; an
  error carries the input, as its message does.
\<close>

datatype tokenizer_state = Normal | Single_Quote | Double_Quote

datatype command_error =
    Dangling_Backslash string
  | Unbalanced_Double string
  | Unbalanced_Single string

fun tokenize_from ::
  "string \<Rightarrow> tokenizer_state \<Rightarrow> string \<Rightarrow> string list \<Rightarrow> string \<Rightarrow> (command_error, string list) result" where
  "tokenize_from input state [] arguments current =
     (case state of
        Double_Quote \<Rightarrow> Err (Unbalanced_Double input)
      | Single_Quote \<Rightarrow> Err (Unbalanced_Single input)
      | Normal \<Rightarrow> Ok (if current \<noteq> [] then arguments @ [current] else arguments))"
| "tokenize_from input Normal (c # cs) arguments current =
     (if c = CHR 92 then
        (case cs of [] \<Rightarrow> Err (Dangling_Backslash input)
         | d # ds \<Rightarrow> tokenize_from input Normal ds arguments (current @ [d]))
      else if is_whitespace c then
        (if list_ex (\<lambda>c. \<not> is_whitespace c) current
         then tokenize_from input Normal cs (arguments @ [current]) []
         else tokenize_from input Normal cs arguments [])
      else if c = CHR 39 then tokenize_from input Single_Quote cs arguments current
      else if c = CHR 34 then tokenize_from input Double_Quote cs arguments current
      else tokenize_from input Normal cs arguments (current @ [c]))"
| "tokenize_from input Single_Quote (c # cs) arguments current =
     (if c = CHR 39 then tokenize_from input Normal cs arguments current
      else tokenize_from input Single_Quote cs arguments (current @ [c]))"
| "tokenize_from input Double_Quote (c # cs) arguments current =
     (if c = CHR 34 then tokenize_from input Normal cs arguments current
      else if c = CHR 92 then
        (case cs of [] \<Rightarrow> Err (Dangling_Backslash input)
         | d # ds \<Rightarrow> tokenize_from input Double_Quote ds arguments (current @ [d]))
      else tokenize_from input Double_Quote cs arguments (current @ [c]))"

definition tokenize_command_line :: "string \<Rightarrow> (command_error, string list) result" where
  "tokenize_command_line input = tokenize_from input Normal input [] []"

definition build_cmd :: "string option \<Rightarrow> string list \<Rightarrow> (command_error, string list option) result" where
  "build_cmd command additional_args = (case command of
       Some c \<Rightarrow> rbind (tokenize_command_line c) (\<lambda>argv. Ok (Some (argv @ additional_args)))
     | None \<Rightarrow> Ok (if additional_args = [] then None else Some additional_args))"

section \<open>Quoting\<close>

text \<open>Three ways to write a character literally: after a backslash, between single quotes, and
  between double quotes with a backslash.\<close>

definition backslashed :: "string \<Rightarrow> string" where
  "backslashed w = concat (map (\<lambda>c. [CHR 92, c]) w)"

definition single_quoted :: "string \<Rightarrow> string" where
  "single_quoted w = [CHR 39] @ w @ [CHR 39]"

definition double_quoted :: "string \<Rightarrow> string" where
  "double_quoted w = [CHR 34] @ backslashed w @ [CHR 34]"

lemma backslashed_simps [simp]: "backslashed [] = []" "backslashed (c # w) = CHR 92 # c # backslashed w"
  by (simp_all add: backslashed_def)

lemma tokenize_backslashed [simp]:
  "tokenize_from input Normal (backslashed w @ rest) args cur = tokenize_from input Normal rest args (cur @ w)"
  "tokenize_from input Double_Quote (backslashed w @ rest) args cur =
     tokenize_from input Double_Quote rest args (cur @ w)"
  by (induction w arbitrary: cur) simp_all

lemma tokenize_single_inside:
  "CHR 39 \<notin> set w \<Longrightarrow>
     tokenize_from input Single_Quote (w @ rest) args cur = tokenize_from input Single_Quote rest args (cur @ w)"
  by (induction w arbitrary: cur) auto

lemma quote_chars [simp]: "\<not> is_whitespace (CHR 34)" "\<not> is_whitespace (CHR 39)" "is_whitespace (CHR 32)"
  by (simp_all add: is_whitespace_def char_code_def)

lemma tokenize_quoted [simp]:
  "CHR 39 \<notin> set w \<Longrightarrow> tokenize_from input Normal (single_quoted w @ rest) args cur =
     tokenize_from input Normal rest args (cur @ w)"
  "tokenize_from input Normal (double_quoted w @ rest) args cur =
     tokenize_from input Normal rest args (cur @ w)"
  by (simp_all add: single_quoted_def double_quoted_def tokenize_single_inside)

text \<open>A plain word is one whose characters the tokenizer gives no meaning.\<close>

definition plain_word :: "string \<Rightarrow> bool" where
  "plain_word w \<longleftrightarrow> list_all (\<lambda>c. \<not> is_whitespace c \<and> c \<notin> {CHR 92, CHR 39, CHR 34}) w"

lemma tokenize_plain:
  "plain_word w \<Longrightarrow>
     tokenize_from input Normal (w @ rest) args cur = tokenize_from input Normal rest args (cur @ w)"
  by (induction w arbitrary: cur) (auto simp: plain_word_def)

text \<open>The three ways, and a plain word as it is, all write \<open>w\<close>.\<close>

inductive writes :: "string \<Rightarrow> string \<Rightarrow> bool" where
  w_nil: "writes [] []"
| w_plain: "plain_word w \<Longrightarrow> writes s u \<Longrightarrow> writes (w @ s) (w @ u)"
| w_backslash: "writes s u \<Longrightarrow> writes (backslashed w @ s) (w @ u)"
| w_single: "CHR 39 \<notin> set w \<Longrightarrow> writes s u \<Longrightarrow> writes (single_quoted w @ s) (w @ u)"
| w_double: "writes s u \<Longrightarrow> writes (double_quoted w @ s) (w @ u)"

lemma tokenize_writes:
  "writes s w \<Longrightarrow> tokenize_from input Normal (s @ rest) args cur = tokenize_from input Normal rest args (cur @ w)"
  by (induction arbitrary: cur rule: writes.induct) (simp_all add: tokenize_plain)

lemma tokenize_words:
  assumes "list_all2 writes ss ws" and "\<And>w. w \<in> set ws \<Longrightarrow> list_ex (\<lambda>c. \<not> is_whitespace c) w"
  shows "tokenize_from input Normal (join [CHR 32] ss) args [] = Inr (args @ ws)"
  using assms
proof (induction ss ws arbitrary: args rule: list_all2_induct)
  case (Cons s ss w ws)
  have w: "list_ex (\<lambda>c. \<not> is_whitespace c) w" using Cons.prems by simp
  then have "w \<noteq> []" by auto
  show ?case
  proof (cases ss)
    case Nil
    then show ?thesis
      using Cons.hyps(2) \<open>w \<noteq> []\<close> tokenize_writes[OF Cons.hyps(1), of input "[]"] by simp
  next
    case (Cons a as)
    then have "join [CHR 32] (s # ss) = s @ CHR 32 # join [CHR 32] ss" by (simp add: join_Cons)
    then show ?thesis
      using Cons.IH Cons.prems w by (simp add: tokenize_writes[OF Cons.hyps(1)])
  qed
qed simp

text \<open>
  C29 (tokenize_written_words): the tokenizer reads back what was written: when each argument is
  spelled with plain characters, backslashes, single or double quotes in any mixture, the line of
  these spellings separated by spaces gives exactly the arguments, and \<open>build_cmd\<close> appends the
  arguments given on the command line unchanged and unsplit.
\<close>

theorem tokenize_written_words:
  assumes "list_all2 writes ss ws" and "list_all (list_ex (\<lambda>c. \<not> is_whitespace c)) ws"
  shows "tokenize_command_line (join [CHR 32] ss) = Inr ws \<and>
         build_cmd (Some (join [CHR 32] ss)) extra = Inr (Some (ws @ extra))"
  using tokenize_words[OF assms(1), of _ "[]"] assms(2)
  by (simp add: tokenize_command_line_def build_cmd_def list_all_iff)

theorem tokenize_written_words_witness:
  "tokenize_command_line (join [CHR 32] [''sh'', ''-c'', single_quoted ''echo $HOME; exit'', double_quoted ''a'']) =
     Inr [''sh'', ''-c'', ''echo $HOME; exit'', ''a''] \<and>
   build_cmd (Some (join [CHR 32] [''sh'', ''-c'', single_quoted ''echo $HOME; exit'', double_quoted ''a''])) [''b c''] =
     Inr (Some ([''sh'', ''-c'', ''echo $HOME; exit'', ''a''] @ [''b c'']))"
proof (rule tokenize_written_words)
  have plain: "writes w w" if "plain_word w" for w using w_plain[OF that w_nil] by simp
  have "writes (single_quoted ''echo $HOME; exit'') ''echo $HOME; exit''"
    using w_single[OF _ w_nil, of "''echo $HOME; exit''"] by simp
  moreover have "writes (double_quoted ''a'') ''a''" using w_double[OF w_nil, of "''a''"] by simp
  ultimately show "list_all2 writes [''sh'', ''-c'', single_quoted ''echo $HOME; exit'', double_quoted ''a'']
      [''sh'', ''-c'', ''echo $HOME; exit'', ''a'']"
    using plain by (simp add: plain_word_def is_whitespace_def char_code_def)
qed (simp add: is_whitespace_def char_code_def)

section \<open>When a command is refused\<close>

text \<open>The reference: a character-by-character automaton whose state is the quote it is in and
  whether the next character is escaped.\<close>

fun quote_step :: "tokenizer_state \<times> bool \<Rightarrow> char \<Rightarrow> tokenizer_state \<times> bool" where
  "quote_step (m, True) c = (m, False)"
| "quote_step (Normal, False) c =
     (if c = CHR 92 then (Normal, True) else if c = CHR 39 then (Single_Quote, False)
      else if c = CHR 34 then (Double_Quote, False) else (Normal, False))"
| "quote_step (Single_Quote, False) c = (if c = CHR 39 then Normal else Single_Quote, False)"
| "quote_step (Double_Quote, False) c =
     (if c = CHR 92 then (Double_Quote, True) else (if c = CHR 34 then Normal else Double_Quote, False))"

fun verdict :: "string \<Rightarrow> tokenizer_state \<times> bool \<Rightarrow> command_error option" where
  "verdict input (_, True) = Some (Dangling_Backslash input)"
| "verdict input (Normal, False) = None"
| "verdict input (Single_Quote, False) = Some (Unbalanced_Single input)"
| "verdict input (Double_Quote, False) = Some (Unbalanced_Double input)"

definition error_of :: "('e, 'a) result \<Rightarrow> 'e option" where
  "error_of r = (case r of Inl e \<Rightarrow> Some e | Inr _ \<Rightarrow> None)"

lemma tokenize_from_verdict:
  "error_of (tokenize_from input m cs args cur) = verdict input (foldl quote_step (m, False) cs)"
proof (induction input m cs args cur rule: tokenize_from.induct)
  case (2 input c cs arguments current)
  have "\<not> is_whitespace (CHR 92)" by (simp add: is_whitespace_def char_code_def)
  with 2 show ?case by (auto simp: error_of_def split: list.splits)
next
  case (4 input c cs arguments current)
  then show ?case by (auto simp: error_of_def split: list.splits)
qed (auto simp: error_of_def split: tokenizer_state.splits)

text \<open>
  A command line is refused exactly when it ends with a backslash that escapes
  nothing or inside a quote, each with its own error; any other text is accepted.
\<close>

theorem tokenize_refusals:
  "error_of (tokenize_command_line s) = verdict s (foldl quote_step (Normal, False) s)"
  by (simp add: tokenize_command_line_def tokenize_from_verdict)

end
