(* ===== verification/Health_Checks.thy ===== *)
theory Health_Checks
  imports Config_Checks Command_Line
begin

text \<open>
  External health checks of \<open>ratect-core/src/config.rs\<close>: the path rule, the shell script a companion
  container runs (\<open>ExternalHealthCheck::command\<close>) and \<open>expand_external_health_checks\<close>, which refuses
  what cannot be checked, reserves the companions' names, and adds the companions and the dependency
  edges that make every dependent wait for the check.

  Two functions are parameters: \<open>is_match\<close>, the regular expression engine (pattern, then text), and
  \<open>format_fraction\<close>, which writes a duration that is not whole seconds as a decimal with three digits
  after the point (\<open>format!\<close> of an \<open>f64\<close>).
\<close>

section \<open>Names and paths\<close>

text \<open>\<open>NAME_COMPONENT_PATTERN\<close>, and the language it denotes: lowercase alphanumeric runs joined by
  \<^verbatim>\<open>.\<close>, \<^verbatim>\<open>_\<close>, \<^verbatim>\<open>__\<close> or a run of \<^verbatim>\<open>-\<close>.\<close>

definition NAME_COMPONENT_PATTERN :: string where
  "NAME_COMPONENT_PATTERN = ''^[a-z0-9]+(?:(?:[._]|__|[-]+)[a-z0-9]+)*$''"

definition name_alnum :: "char \<Rightarrow> bool" where
  "name_alnum c \<longleftrightarrow> is_ascii_lower c \<or> is_ascii_digit c"

datatype name_state = Start | In_Word | After_Sep | After_Underscore | In_Dashes | Dead

fun name_step :: "name_state \<Rightarrow> char \<Rightarrow> name_state" where
  "name_step Dead c = Dead"
| "name_step Start c = (if name_alnum c then In_Word else Dead)"
| "name_step After_Sep c = (if name_alnum c then In_Word else Dead)"
| "name_step In_Word c = (if name_alnum c then In_Word else if c = CHR ''.'' then After_Sep
     else if c = CHR ''_'' then After_Underscore else if c = CHR ''-'' then In_Dashes else Dead)"
| "name_step After_Underscore c = (if name_alnum c then In_Word else if c = CHR ''_'' then After_Sep else Dead)"
| "name_step In_Dashes c = (if name_alnum c then In_Word else if c = CHR ''-'' then In_Dashes else Dead)"

definition name_component :: "string \<Rightarrow> bool" where
  "name_component s \<longleftrightarrow> foldl name_step Start s = In_Word"

type_synonym matcher = "string \<Rightarrow> string \<Rightarrow> bool"

definition is_name_component :: "matcher \<Rightarrow> string \<Rightarrow> bool" where
  "is_name_component is_match name = is_match NAME_COMPONENT_PATTERN name"

text \<open>The documented meaning of the pattern, as far as the program relies on it.\<close>

definition matches_name_pattern :: "matcher \<Rightarrow> bool" where
  "matches_name_pattern is_match \<longleftrightarrow> (\<forall>s. is_match NAME_COMPONENT_PATTERN s \<longleftrightarrow> name_component s)"

datatype external_check_error =
    Both_Health_Checks string
  | Check_And_Completes string
  | Check_And_Setup string
  | Bad_Container_Name string
  | Path_Not_Absolute string string
  | Path_Bad_Character string string char
  | Port_Zero string
  | Status_Not_Three_Digits string nat
  | Timeout_Zero string
  | Retries_Zero string
  | Reserved_Name string string

definition validate_external_health_check_path :: "string \<Rightarrow> string \<Rightarrow> (external_check_error, unit) result" where
  "validate_external_health_check_path container path =
     (if \<not> starts_with path ''/'' then Err (Path_Not_Absolute container path)
      else (case List.find (\<lambda>c. is_whitespace c \<or> is_control c \<or>
                 c \<in> {CHR 39, CHR 34, CHR 92, CHR 96, CHR ''$''}) path of
          Some bad \<Rightarrow> Err (Path_Bad_Character container path bad)
        | None \<Rightarrow> Ok ()))"

section \<open>The companion's script\<close>

type_synonym fraction_format = "nat \<Rightarrow> string"

definition format_seconds :: "fraction_format \<Rightarrow> nat \<Rightarrow> string" where
  "format_seconds format_fraction duration =
     (if duration mod 1000000000 = 0 then show_nat (duration div 1000000000)
      else if duration < 1000000 then ''0.001''
      else format_fraction duration)"

definition check_retries :: "external_health_check \<Rightarrow> nat" where
  "check_retries check = (case ehc_retries check of Some r \<Rightarrow> unat r | None \<Rightarrow> 30)"

definition check_interval :: "external_health_check \<Rightarrow> nat" where
  "check_interval check = (case ehc_interval check of Some i \<Rightarrow> i | None \<Rightarrow> 1000000000)"

definition check_timeout :: "external_health_check \<Rightarrow> nat" where
  "check_timeout check = (case ehc_timeout check of Some t \<Rightarrow> t | None \<Rightarrow> 5000000000)"

definition check_attempt :: "fraction_format \<Rightarrow> external_health_check \<Rightarrow> string \<Rightarrow> string" where
  "check_attempt fmt check container = (case ehc_kind check of
       Http port path status \<Rightarrow>
         ''code=$(curl -s -o /dev/null -w %{http_code} -m '' @ format_seconds fmt (check_timeout check) @
         '' \"http://'' @ container @ '':'' @ show_nat (unat port) @ path @ ''\"); if [ \"$code\" = \"'' @
         show_nat (unat status) @ ''\" ]; then exit 0; fi''
     | Tcp port \<Rightarrow>
         ''if nc -z -w '' @ show_nat (max 1 (check_timeout check div 1000000000)) @ '' '' @ container @ '' '' @
         show_nat (unat port) @ ''; then exit 0; fi'')"

definition check_failure :: "external_health_check \<Rightarrow> string \<Rightarrow> string" where
  "check_failure check container = (case ehc_kind check of
       Http port path status \<Rightarrow>
         ''echo \"last status $code from http://'' @ container @ '':'' @ show_nat (unat port) @ path @
         '' after '' @ show_nat (check_retries check) @ '' attempt(s), wanted '' @ show_nat (unat status) @ ''\" >&2''
     | Tcp port \<Rightarrow>
         ''echo \"no TCP connection to '' @ container @ '':'' @ show_nat (unat port) @ '' after '' @
         show_nat (check_retries check) @ '' attempt(s)\" >&2'')"

definition check_script :: "fraction_format \<Rightarrow> external_health_check \<Rightarrow> string \<Rightarrow> string" where
  "check_script fmt check container =
     ''i=0; while [ \"$i\" -lt '' @ show_nat (check_retries check) @
     '' ]; do if [ \"$i\" -gt 0 ]; then sleep '' @ format_seconds fmt (check_interval check) @ ''; fi; '' @
     check_attempt fmt check container @ ''; i=$((i+1)); done; '' @ check_failure check container @ ''; exit 1''"

definition check_command :: "fraction_format \<Rightarrow> external_health_check \<Rightarrow> string \<Rightarrow> string" where
  "check_command fmt check container = ''-c '' @ [CHR 39] @ check_script fmt check container @ [CHR 39]"

section \<open>Expansion\<close>

definition check_port :: "health_check_kind \<Rightarrow> u16" where
  "check_port kind = (case kind of Http port _ _ \<Rightarrow> port | Tcp port \<Rightarrow> port)"

definition checkable :: "matcher \<Rightarrow> string \<Rightarrow> container \<Rightarrow> external_health_check \<Rightarrow> (external_check_error, unit) result" where
  "checkable is_match name c check =
     (if health_check c \<noteq> None then Err (Both_Health_Checks name)
      else if completes c then Err (Check_And_Completes name)
      else if has_setup_commands c then Err (Check_And_Setup name)
      else if \<not> is_name_component is_match name then Err (Bad_Container_Name name)
      else rbind (case ehc_kind check of
              Http _ path _ \<Rightarrow> validate_external_health_check_path name path | Tcp _ \<Rightarrow> Ok ()) (\<lambda>_.
        if check_port (ehc_kind check) = 0 then Err (Port_Zero name)
        else rbind (case ehc_kind check of
            Http _ _ status \<Rightarrow> if 100 \<le> unat status \<and> unat status \<le> 999 then Ok ()
                               else Err (Status_Not_Three_Digits name (unat status))
          | Tcp _ \<Rightarrow> Ok ()) (\<lambda>_.
          if ehc_timeout check = Some 0 then Err (Timeout_Zero name)
          else if ehc_retries check = Some 0 then Err (Retries_Zero name)
          else Ok ())))"

definition collect_checked ::
  "matcher \<Rightarrow> string \<times> container \<Rightarrow> (string \<times> external_health_check) list \<Rightarrow>
     (external_check_error, (string \<times> external_health_check) list) result" where
  "collect_checked is_match nc checked = (case external_health_check (snd nc) of
       None \<Rightarrow> Ok checked
     | Some check \<Rightarrow> rbind (checkable is_match (fst nc) (snd nc) check) (\<lambda>_. Ok (checked @ [(fst nc, check)])))"

definition check_reserved :: "config \<Rightarrow> string \<Rightarrow> (external_check_error, unit) result" where
  "check_reserved cfg name =
     (let companion = external_health_check_container_name name;
          reserved = Reserved_Name companion name in
      if im_contains (containers cfg) companion then Err reserved
      else if \<exists>(other, c) \<in> set (containers cfg). companion \<in> set (or_empty (dependencies c)) then Err reserved
      else each_res (\<lambda>(_, t).
        if (case t_run t of Some r \<Rightarrow> tr_container r = companion | None \<Rightarrow> False) then Err reserved
        else if companion \<in> set (or_empty (t_dependencies t)) then Err reserved
        else Ok ()) (tasks cfg))"

definition EXTERNAL_HEALTH_CHECK_IMAGE :: string where
  "EXTERNAL_HEALTH_CHECK_IMAGE =
     ''curlimages/curl@sha256:c1fe1679c34d9784c1b0d1e5f62ac0a79fca01fb6377cdd33e90473c6f9f9a69''"

definition companion_container :: "fraction_format \<Rightarrow> string \<Rightarrow> external_health_check \<Rightarrow> container" where
  "companion_container fmt name check = container_default\<lparr>
     image := Some EXTERNAL_HEALTH_CHECK_IMAGE,
     entrypoint := Some ''sh'',
     command := Some (check_command fmt check name),
     dependencies := Some [name],
     run_to_completion := Some True,
     reports_readiness_for := Some name,
     log_driver := Some ''json-file''\<rparr>"

definition add_dependency_after :: "string list option \<Rightarrow> string \<Rightarrow> string \<Rightarrow> string list option" where
  "add_dependency_after deps target companion = (case deps of
       None \<Rightarrow> None
     | Some ds \<Rightarrow> Some (if target \<in> set ds \<and> companion \<notin> set ds then ds @ [companion] else ds))"

definition insert_companion :: "fraction_format \<Rightarrow> config \<Rightarrow> string \<times> external_health_check \<Rightarrow> config" where
  "insert_companion fmt cfg nc = cfg\<lparr>containers :=
     im_insert (containers cfg) (external_health_check_container_name (fst nc))
       (companion_container fmt (fst nc) (snd nc))\<rparr>"

definition wait_for_companion :: "string \<Rightarrow> string \<Rightarrow> container \<Rightarrow> container" where
  "wait_for_companion name other c =
     (if other = name \<or> other = external_health_check_container_name name then c
      else c\<lparr>dependencies := add_dependency_after (dependencies c) name (external_health_check_container_name name)\<rparr>)"

definition link_companion :: "config \<Rightarrow> string \<Rightarrow> config" where
  "link_companion cfg name = cfg\<lparr>
     containers := map (\<lambda>(other, c). (other, wait_for_companion name other c)) (containers cfg),
     tasks := map (\<lambda>(k, t). (k, t\<lparr>t_dependencies := add_dependency_after (t_dependencies t) name
                (external_health_check_container_name name)\<rparr>)) (tasks cfg)\<rparr>"

definition expand_external_health_checks ::
  "matcher \<Rightarrow> fraction_format \<Rightarrow> config \<Rightarrow> (external_check_error, config) result" where
  "expand_external_health_checks is_match fmt cfg =
     rbind (fold_res (collect_checked is_match) (containers cfg) []) (\<lambda>checked.
     rbind (each_res (\<lambda>(name, _). check_reserved cfg name) checked) (\<lambda>_.
       Ok (foldl link_companion (foldl (insert_companion fmt) cfg checked) (map fst checked))))"

section \<open>The script reaches the shell as one argument\<close>

definition script_safe :: "string \<Rightarrow> bool" where
  "script_safe s \<longleftrightarrow> CHR 39 \<notin> set s"

lemma script_safe_simps [simp]:
  "script_safe []" "script_safe (c # s) \<longleftrightarrow> c \<noteq> CHR 39 \<and> script_safe s"
  "script_safe (a @ b) \<longleftrightarrow> script_safe a \<and> script_safe b"
  by (auto simp: script_safe_def)

lemma show_nat_safe [simp]: "script_safe (show_nat n)"
  using show_nat_digits[of n] by (fastforce simp: script_safe_def list_all_iff char_class_defs)

lemma format_seconds_safe: "(\<And>d. script_safe (fmt d)) \<Longrightarrow> script_safe (format_seconds fmt d)"
  by (simp add: format_seconds_def)

lemma name_step_Dead [simp]: "foldl name_step Dead s = Dead"
  by (induction s) auto

lemma name_char_ok: "name_step st c \<noteq> Dead \<Longrightarrow> name_alnum c \<or> c \<in> set ''._-''"
  by (cases st) (auto split: if_splits)

lemma name_component_chars:
  "foldl name_step st s \<noteq> Dead \<Longrightarrow> list_all (\<lambda>c. name_alnum c \<or> c \<in> set ''._-'') s"
proof (induction s arbitrary: st)
  case (Cons c s)
  then have "name_step st c \<noteq> Dead" by auto
  with Cons show ?case using name_char_ok[of st c] by auto
qed simp

lemma name_component_safe: "name_component s \<Longrightarrow> script_safe s"
  using name_component_chars[of Start s]
  by (fastforce simp: name_component_def script_safe_def list_all_iff name_alnum_def char_class_defs)

lemma path_ok:
  "validate_external_health_check_path n path = Inr () \<longleftrightarrow>
     starts_with path ''/'' \<and>
     \<not> (\<exists>c \<in> set path. is_whitespace c \<or> is_control c \<or> c \<in> {CHR 39, CHR 34, CHR 92, CHR 96, CHR ''$''})"
  unfolding validate_external_health_check_path_def by (simp only: guard_Ok find_reject) simp

lemma checkable_safe:
  assumes "checkable is_match name c check = Inr ()" and "matches_name_pattern is_match"
    and "\<And>d. script_safe (fmt d)"
  shows "script_safe (check_script fmt check name)"
proof -
  have name: "script_safe name"
    using assms(1,2) by (auto simp: checkable_def is_name_component_def matches_name_pattern_def
        name_component_safe split: if_splits)
  have "script_safe path" if "ehc_kind check = Http port path status" for port path status
    using assms(1) that
    by (auto simp: checkable_def path_ok script_safe_def split: if_splits)
  then show ?thesis
    using name format_seconds_safe[OF assms(3)]
    by (auto simp: check_script_def check_attempt_def check_failure_def split: health_check_kind.split)
qed

text \<open>
  C22 (companion_command_one_argument): what an external health check interpolates cannot leave the
  script: for every check the expansion accepts, the companion's command line, tokenised as any other,
  is \<^verbatim>\<open>-c\<close> and one argument, the whole script with the container's name and path in it.
\<close>

theorem companion_command_one_argument:
  assumes "checkable is_match name c check = Inr ()" and "matches_name_pattern is_match"
    and "\<And>d. CHR 39 \<notin> set (format_fraction d)"
  shows "tokenize_command_line (check_command format_fraction check name) =
           Inr [''-c'', check_script format_fraction check name]"
proof -
  let ?s = "check_script format_fraction check name"
  have "script_safe ?s" by (rule checkable_safe[OF assms(1,2)]) (simp add: script_safe_def assms(3))
  then have "tokenize_from input Normal (single_quoted ?s @ []) [''-c''] [] =
      tokenize_from input Normal [] [''-c''] ([] @ ?s)" for input
    by (intro tokenize_quoted(1)) (simp add: script_safe_def)
  moreover have "?s \<noteq> []" by (simp add: check_script_def)
  moreover have "tokenize_from input Normal (''-c '' @ rest) [] [] = tokenize_from input Normal rest [''-c''] []"
    for input rest by (simp add: is_whitespace_def char_code_def)
  ultimately show ?thesis
    by (simp add: tokenize_command_line_def check_command_def single_quoted_def)
qed

theorem companion_command_one_argument_witness:
  "tokenize_command_line (check_command (\<lambda>_. ''0.500'')
      \<lparr>ehc_kind = Http 8080 ''/ready'' 200, ehc_interval = None, ehc_retries = Some 3, ehc_timeout = None\<rparr> ''db'') =
   Inr [''-c'', check_script (\<lambda>_. ''0.500'')
      \<lparr>ehc_kind = Http 8080 ''/ready'' 200, ehc_interval = None, ehc_retries = Some 3, ehc_timeout = None\<rparr> ''db'']"
proof (rule companion_command_one_argument)
  show "checkable (\<lambda>_. name_component) ''db'' container_default
    \<lparr>ehc_kind = Http 8080 ''/ready'' 200, ehc_interval = None, ehc_retries = Some 3, ehc_timeout = None\<rparr> = Inr ()"
    by (simp add: checkable_def container_default_def completes_def has_setup_commands_def
        is_name_component_def name_component_def name_alnum_def char_class_defs
        validate_external_health_check_path_def check_port_def starts_with_def)
qed (simp_all add: matches_name_pattern_def)

section \<open>Dependents wait for the check\<close>

abbreviation companion_of :: "string \<Rightarrow> string" where
  "companion_of \<equiv> external_health_check_container_name"

lemma companion_of_inj [simp]: "companion_of a = companion_of b \<longleftrightarrow> a = b"
  by (simp add: external_health_check_container_name_def)

lemma collect_checked_names:
  assumes "fold_res (collect_checked is_match) cs acc = Inr checked"
  shows "map fst checked = map fst acc @ map fst (filter (\<lambda>(_, c). external_health_check c \<noteq> None) cs)"
  using assms
proof (induction cs arbitrary: acc)
  case (Cons nc cs)
  then show ?case
    by (cases nc; cases "external_health_check (snd nc)") (auto simp: collect_checked_def split: option.splits)
qed simp

lemma link_companions_containers:
  "containers (foldl link_companion cfg ns) =
     map (\<lambda>(k, c). (k, foldl (\<lambda>c n. wait_for_companion n k c) c ns)) (containers cfg)"
  by (induction ns arbitrary: cfg) (auto simp: link_companion_def)

lemma insert_companions_other:
  "k \<notin> companion_of ` set (map fst checked) \<Longrightarrow>
     im_get (containers (foldl (insert_companion fmt) cfg checked)) k = im_get (containers cfg) k"
  by (induction checked arbitrary: cfg) (auto simp: insert_companion_def)

lemma insert_companions_get:
  assumes "distinct (map fst checked)" and "(n, check) \<in> set checked"
  shows "im_get (containers (foldl (insert_companion fmt) cfg checked)) (companion_of n) =
           Some (companion_container fmt n check)"
  using assms
proof (induction checked arbitrary: cfg)
  case (Cons nc checked)
  show ?case
  proof (cases "nc = (n, check)")
    case True
    with Cons.prems have "companion_of n \<notin> companion_of ` set (map fst checked)"
      by (simp add: image_iff)
    from insert_companions_other[OF this, of fmt "insert_companion fmt cfg nc"] show ?thesis
      by (simp add: True insert_companion_def[of fmt cfg "(n, check)"])
  next
    case False
    with Cons show ?thesis by auto
  qed
qed simp

lemma waiting_deps:
  assumes "companion_of ` set ns \<inter> set ns = {}"
  shows "set (or_empty (dependencies (foldl (\<lambda>c n. wait_for_companion n k c) c ns))) =
     set (or_empty (dependencies c)) \<union>
     companion_of ` {n \<in> set ns. n \<in> set (or_empty (dependencies c)) \<and> k \<noteq> n \<and> k \<noteq> companion_of n}"
  using assms
proof (induction ns arbitrary: c)
  case (Cons n ns)
  let ?c = "wait_for_companion n k c"
  have one: "set (or_empty (dependencies ?c)) = set (or_empty (dependencies c)) \<union>
      (if n \<in> set (or_empty (dependencies c)) \<and> k \<noteq> n \<and> k \<noteq> companion_of n then {companion_of n} else {})"
    by (cases "dependencies c") (auto simp: wait_for_companion_def add_dependency_after_def)
  have disj: "companion_of ` set ns \<inter> set ns = {}" and new: "companion_of n \<notin> set ns" using Cons.prems by auto
  have "foldl (\<lambda>c n. wait_for_companion n k c) c (n # ns) = foldl (\<lambda>c n. wait_for_companion n k c) ?c ns"
    by simp
  then show ?case using Cons.IH[OF disj, of ?c] new by (simp only: one) auto
qed simp

lemma im_get_iff: "im_ok m \<Longrightarrow> im_get m k = Some v \<longleftrightarrow> (k, v) \<in> set m"
  by (rule iffI, erule im_get_in, erule (1) im_get_ok)

lemma filter_names: "n \<in> set (map fst (filter (\<lambda>(_, c). P c) cs)) \<longleftrightarrow> (\<exists>c. (n, c) \<in> set cs \<and> P c)"
  by (induction cs) auto

lemma im_get_map_values: "im_get (map (\<lambda>(k, c). (k, f k c)) cs) n = map_option (f n) (im_get cs n)"
  by (induction cs) auto

text \<open>What the expansion did, in one place: \<open>ns\<close> are the checked containers.\<close>

lemma expand_facts:
  assumes "expand_external_health_checks is_match fmt cfg = Inr cfg'" and "im_ok (containers cfg)"
  obtains ns where
    "set ns = {n. \<exists>c. im_get (containers cfg) n = Some c \<and> external_health_check c \<noteq> None}"
    and "\<And>n. n \<in> set ns \<Longrightarrow> companion_of n \<notin> set (im_keys (containers cfg))"
    and "\<And>n k. n \<in> set ns \<Longrightarrow> companion_of n \<notin> set (deps_of (containers cfg) k)"
    and "\<And>k. set (deps_of (containers cfg') k) =
          (if k \<in> companion_of ` set ns then {THE n. k = companion_of n}
           else set (deps_of (containers cfg) k) \<union>
             companion_of ` {n \<in> set ns. n \<in> set (deps_of (containers cfg) k) \<and> k \<noteq> n})"
proof -
  let ?cs = "containers cfg"
  from assms(1) obtain checked where
    coll: "fold_res (collect_checked is_match) ?cs [] = Inr checked" and
    res: "each_res (\<lambda>(name, _). check_reserved cfg name) checked = Inr ()" and
    cfg': "cfg' = foldl link_companion (foldl (insert_companion fmt) cfg checked) (map fst checked)"
    by (auto simp: expand_external_health_checks_def)
  let ?ns = "map fst checked"
  have ns: "?ns = map fst (filter (\<lambda>(_, c). external_health_check c \<noteq> None) ?cs)"
    using collect_checked_names[OF coll] by simp
  have set_ns: "set ?ns = {n. \<exists>c. im_get ?cs n = Some c \<and> external_health_check c \<noteq> None}"
    unfolding ns im_get_iff[OF assms(2)] by (rule set_eqI) (simp only: filter_names mem_Collect_eq)
  have dist: "distinct ?ns"
    unfolding ns using assms(2) by (simp add: im_ok_def im_keys_def distinct_map_filter)
  have reserved: "check_reserved cfg n = Inr ()" if "n \<in> set ?ns" for n
  proof -
    from that obtain check where "(n, check) \<in> set checked" by auto
    with res have "(case (n, check) of (name, _) \<Rightarrow> check_reserved cfg name) = Inr ()"
      unfolding each_res_Ok by (rule bspec)
    then show ?thesis by simp
  qed
  have fresh: "companion_of n \<notin> set (im_keys ?cs)" if "n \<in> set ?ns" for n
    using reserved[OF that] by (auto simp: check_reserved_def Let_def im_contains_def split: if_splits)
  have unused: "companion_of n \<notin> set (deps_of ?cs k)" if "n \<in> set ?ns" for n k
  proof (cases "im_get ?cs k")
    case (Some c)
    then have "(k, c) \<in> set ?cs" by (rule im_get_in)
    with Some reserved[OF that] show ?thesis
      by (auto simp: check_reserved_def Let_def deps_of_def split: if_splits)
  qed (simp add: deps_of_def)
  have disj: "companion_of ` set ?ns \<inter> set ?ns = {}"
  proof -
    have "set ?ns \<subseteq> set (im_keys ?cs)" unfolding set_ns by (auto dest: im_get_Some_key)
    with fresh show ?thesis by blast
  qed
  have deps: "set (deps_of (containers cfg') k) =
      (if k \<in> companion_of ` set ?ns then {THE n. k = companion_of n}
       else set (deps_of ?cs k) \<union> companion_of ` {n \<in> set ?ns. n \<in> set (deps_of ?cs k) \<and> k \<noteq> n})" for k
  proof (cases "k \<in> companion_of ` set ?ns")
    case True
    then obtain n check where n: "(n, check) \<in> set checked" "k = companion_of n" by auto
    have "im_get (containers cfg') k = Some (foldl (\<lambda>c m. wait_for_companion m k c) (companion_container fmt n check) ?ns)"
      using insert_companions_get[OF dist n(1), of fmt cfg]
      by (simp add: cfg' link_companions_containers im_get_map_values n(2))
    moreover have "dependencies (companion_container fmt n check) = Some [n]"
      by (simp add: companion_container_def)
    ultimately show ?thesis
      using waiting_deps[OF disj, of k "companion_container fmt n check"] True n(2)
      by (auto simp: deps_of_def)
  next
    case False
    have "im_get (containers cfg') k = map_option (\<lambda>c. foldl (\<lambda>c m. wait_for_companion m k c) c ?ns) (im_get ?cs k)"
      using insert_companions_other[OF False, of fmt cfg]
      by (simp add: cfg' link_companions_containers im_get_map_values)
    moreover have "{n \<in> set ?ns. P n \<and> k \<noteq> n \<and> k \<noteq> companion_of n} = {n \<in> set ?ns. P n \<and> k \<noteq> n}" for P
      using False by blast
    ultimately show ?thesis using False waiting_deps[OF disj, of k]
      by (cases "im_get ?cs k") (simp_all add: deps_of_def)
  qed
  show thesis by (rule that[OF set_ns fresh unused deps])
qed

lemma the_companion [simp]: "(THE n. companion_of m = companion_of n) = m"
  by simp

lemma expand_acyclic:
  assumes "expand_external_health_checks is_match fmt cfg = Inr cfg'" and "im_ok (containers cfg)"
    and "acyclic (edges_of (deps_of (containers cfg)))"
  shows "acyclic (edges_of (deps_of (containers cfg')))"
proof -
  obtain ns where
    set_ns: "set ns = {n. \<exists>c. im_get (containers cfg) n = Some c \<and> external_health_check c \<noteq> None}"
    and fresh: "\<And>n. n \<in> set ns \<Longrightarrow> companion_of n \<notin> set (im_keys (containers cfg))"
    and unused: "\<And>n k. n \<in> set ns \<Longrightarrow> companion_of n \<notin> set (deps_of (containers cfg) k)"
    and deps: "\<And>k. set (deps_of (containers cfg') k) =
          (if k \<in> companion_of ` set ns then {THE n. k = companion_of n}
           else set (deps_of (containers cfg) k) \<union>
             companion_of ` {n \<in> set ns. n \<in> set (deps_of (containers cfg) k) \<and> k \<noteq> n})"
    by (rule expand_facts[OF assms(1,2)]) (rule that)
  have declared: "set ns \<subseteq> set (im_keys (containers cfg))" unfolding set_ns by (auto dest: im_get_Some_key)
  obtain f :: "string \<Rightarrow> nat" where f: "\<And>a b. b \<in> set (deps_of (containers cfg) a) \<Longrightarrow> f b < f a"
    by (rule container_graph.acyclic_rank[OF assms(3)]) (rule that)
  let ?f = "\<lambda>k. if k \<in> companion_of ` set ns then 2 * f (THE n. k = companion_of n) + 1 else 2 * f k"
  have plain: "n \<notin> companion_of ` set ns" if "n \<in> set ns" for n using that declared fresh by blast
  have "?f b < ?f a" if ab: "b \<in> set (deps_of (containers cfg') a)" for a b
  proof (cases "a \<in> companion_of ` set ns")
    case True
    then obtain n where n: "n \<in> set ns" "a = companion_of n" by blast
    with ab True have "b = n" by (simp add: deps)
    with n True plain show ?thesis by simp
  next
    case False
    with ab consider "b \<in> set (deps_of (containers cfg) a)"
      | n where "b = companion_of n" "n \<in> set ns" "n \<in> set (deps_of (containers cfg) a)"
      by (auto simp: deps)
    then show ?thesis
    proof cases
      case 1
      then have "b \<notin> companion_of ` set ns" using unused by blast
      with 1 False f[of b a] show ?thesis by simp
    next
      case (2 n)
      with False f[of n a] show ?thesis by simp
    qed
  qed
  then show ?thesis by (intro acyclic_by_rank[where f = ?f]) simp
qed



end
