(* ===== verification/Task_Graph.thy ===== *)
theory Task_Graph
  imports Config_Model
begin

text \<open>
  The container graph of one task run, from \<open>ratect-core/src/engine.rs\<close>: \<open>build_dependency_graph\<close> (a
  depth-first walk with an ancestor path, which refuses a cycle before anything starts),
  \<open>declared_dependencies\<close> (the order a display uses), \<open>is_narrated\<close>, and \<open>dependents_to_stop_first\<close>
  (which containers must be stopped before which). The path the source pushes to and pops from is an
  argument; the graph it fills is the result.
\<close>

section \<open>Building the graph\<close>

datatype graph_error =
    Circular_Dependency string
  | Undeclared_Container_Bug string

type_synonym dep_graph = "string list index_map"

function visit_container ::
  "container index_map \<Rightarrow> string \<Rightarrow> string list option \<Rightarrow> string list \<Rightarrow> dep_graph \<Rightarrow>
     (graph_error, dep_graph) result" where
  "visit_container cs name extra path graph =
     (if im_contains graph name then Ok graph
      else if name \<in> set path then Err (Circular_Dependency name)
      else case im_get cs name of
        None \<Rightarrow> Err (Undeclared_Container_Bug name)
      | Some c \<Rightarrow>
          (let ds = sort_dedup (or_empty (dependencies c) @ or_empty extra) in
           rbind (fold_res (\<lambda>d g. visit_container cs d None (path @ [name]) g) ds graph)
             (\<lambda>g. Ok (im_insert g name ds))))"
  by pat_completeness auto
termination
proof (relation "measure (\<lambda>(cs, name, extra, path, graph). card (set (im_keys cs) - set path))", goal_cases)
  case (2 cs name extra path graph c ds d g)
  then have "set (im_keys cs) - set (path @ [name]) \<subset> set (im_keys cs) - set path"
    by (auto dest: im_get_Some_key)
  then show ?case by (simp add: psubset_card_mono)
qed simp

declare visit_container.simps [simp del]

definition build_dependency_graph ::
  "container index_map \<Rightarrow> string \<Rightarrow> string list option \<Rightarrow> (graph_error, dep_graph) result" where
  "build_dependency_graph cs root task_dependencies = visit_container cs root task_dependencies [] []"

definition declared_dependencies :: "container \<Rightarrow> string list option \<Rightarrow> string list" where
  "declared_dependencies c task =
     foldl (\<lambda>declared name. if name \<in> set declared then declared else declared @ [name]) []
       (or_empty task @ or_empty (dependencies c))"

definition is_narrated :: "container index_map \<Rightarrow> string \<Rightarrow> bool" where
  "is_narrated cs name \<longleftrightarrow> (case im_get cs name of None \<Rightarrow> True | Some c \<Rightarrow> reports_readiness_for c = None)"

section \<open>The graph it should build\<close>

definition task_succs :: "container index_map \<Rightarrow> string \<Rightarrow> string list option \<Rightarrow> string \<Rightarrow> string list" where
  "task_succs cs root tdeps n = sort_dedup (deps_of cs n @ (if n = root then or_empty tdeps else []))"

lemma set_task_succs [simp]:
  "set (task_succs cs root tdeps n) = set (deps_of cs n) \<union> (if n = root then set (or_empty tdeps) else {})"
  by (simp add: task_succs_def)

interpretation task_graph: finite_digraph "task_succs cs root tdeps" for cs root tdeps
proof
  have "{n. task_succs cs root tdeps n \<noteq> []} \<subseteq> insert root {n. deps_of cs n \<noteq> []}"
    by (auto simp: task_succs_def sort_dedup_def)
  then show "finite {n. task_succs cs root tdeps n \<noteq> []}"
    using container_graph.finite_support by (simp add: finite_subset)
qed

lemma task_reach:
  "reachable_from (task_succs cs root tdeps) {root} = container_names_in_task cs root tdeps"
  unfolding names_reachable
proof (rule sym, rule reachable_from_eqI)
  let ?R = "reachable_from (deps_of cs) (set (root # or_empty tdeps))"
  show "{root} \<subseteq> ?R" using reachable_from_start[of "set (root # or_empty tdeps)" "deps_of cs"] by auto
  show "b \<in> ?R" if "a \<in> ?R" "b \<in> set (task_succs cs root tdeps a)" for a b
    using that reachable_from_step[OF that(1), of b]
      reachable_from_start[of "set (root # or_empty tdeps)" "deps_of cs"]
    by (auto split: if_splits)
  let ?T = "reachable_from (task_succs cs root tdeps) {root}"
  have root: "root \<in> ?T" using reachable_from_start[of "{root}" "task_succs cs root tdeps"] by auto
  have step: "b \<in> ?T" if "a \<in> ?T" "b \<in> set (task_succs cs root tdeps a)" for a b
    by (rule reachable_from_step[OF that])
  show "?R \<subseteq> ?T"
  proof (rule reachable_from_least)
    show "set (root # or_empty tdeps) \<subseteq> ?T" using root step[OF root] by auto
    show "b \<in> ?T" if "a \<in> ?T" "b \<in> set (deps_of cs a)" for a b using step[OF that(1), of b] that(2) by simp
  qed
qed

text \<open>A graph in which every node was added after all it lists.\<close>

inductive topological :: "dep_graph \<Rightarrow> bool" where
  topo_nil: "topological []"
| topo_snoc: "topological g \<Longrightarrow> n \<notin> set (im_keys g) \<Longrightarrow> set ds \<subseteq> set (im_keys g) \<Longrightarrow>
    topological (g @ [(n, ds)])"

definition graph_succs :: "dep_graph \<Rightarrow> string \<Rightarrow> string list" where
  "graph_succs g n = or_empty (im_get g n)"

lemma im_keys_append [simp]: "im_keys (g @ h) = im_keys g @ im_keys h"
  by (simp add: im_keys_def)

lemma im_insert_new: "k \<notin> set (im_keys m) \<Longrightarrow> im_insert m k v = m @ [(k, v)]"
  by (induction m k v rule: im_insert.induct) auto

lemma graph_succs_snoc:
  "n \<notin> set (im_keys g) \<Longrightarrow> graph_succs (g @ [(n, ds)]) = (graph_succs g)(n := ds)"
  by (rule ext) (simp add: graph_succs_def im_insert_new[symmetric])

lemma topological_rank:
  "topological g \<Longrightarrow> \<exists>f :: string \<Rightarrow> nat. \<forall>a. \<forall>b \<in> set (graph_succs g a). f b < f a \<and> b \<in> set (im_keys g)"
proof (induction rule: topological.induct)
  case topo_nil
  show ?case by (simp add: graph_succs_def)
next
  case (topo_snoc g n ds)
  then obtain f :: "string \<Rightarrow> nat" where
    f: "\<And>a b. b \<in> set (graph_succs g a) \<Longrightarrow> f b < f a \<and> b \<in> set (im_keys g)" by blast
  let ?f = "f(n := Suc (\<Sum>d \<in> set ds. f d))"
  have "?f b < ?f a \<and> b \<in> set (im_keys (g @ [(n, ds)]))" if b: "b \<in> set (graph_succs (g @ [(n, ds)]) a)" for a b
  proof (cases "a = n")
    case True
    with b topo_snoc have "b \<in> set ds" "b \<noteq> n" "b \<in> set (im_keys g)" by (auto simp: graph_succs_snoc)
    moreover from this have "f b \<le> (\<Sum>d \<in> set ds. f d)" by (intro member_le_sum) auto
    ultimately show ?thesis using True by simp
  next
    case False
    with b topo_snoc have "b \<in> set (graph_succs g a)" by (simp add: graph_succs_snoc)
    with f have "f b < f a" "b \<in> set (im_keys g)" by auto
    moreover from this topo_snoc have "b \<noteq> n" by blast
    ultimately show ?thesis using False by simp
  qed
  then show ?case by blast
qed

lemma topological_acyclic: "topological g \<Longrightarrow> acyclic (edges_of (graph_succs g))"
proof -
  assume "topological g"
  then obtain f :: "string \<Rightarrow> nat" where "\<And>a b. b \<in> set (graph_succs g a) \<Longrightarrow> f b < f a"
    using topological_rank by blast
  then show ?thesis by (intro acyclic_by_rank[of _ f]) simp
qed

section \<open>What the walk does\<close>

text \<open>The walk's invariant: the graph so far is in topological order, lists what it should, holds
  declared containers of the task only, and none of the current path.\<close>

definition graph_inv :: "container index_map \<Rightarrow> string \<Rightarrow> string list option \<Rightarrow> string list \<Rightarrow> dep_graph \<Rightarrow> bool" where
  "graph_inv cs root tdeps path g \<longleftrightarrow> topological g \<and> set path \<inter> set (im_keys g) = {} \<and>
     (\<forall>n \<in> set (im_keys g). im_get g n = Some (task_succs cs root tdeps n) \<and> n \<in> set (im_keys cs) \<and>
        n \<in> reachable_from (task_succs cs root tdeps) {root})"

text \<open>Where a call stands: at the root with the task's own dependencies, or below it without.\<close>

definition visit_ctx :: "container index_map \<Rightarrow> string \<Rightarrow> string list option \<Rightarrow> string \<Rightarrow> string list option \<Rightarrow> string list \<Rightarrow> bool" where
  "visit_ctx cs root tdeps name extra path \<longleftrightarrow>
     (if path = [] then name = root \<and> extra = tdeps else root \<in> set path \<and> extra = None) \<and>
     name \<in> reachable_from (task_succs cs root tdeps) {root} \<and>
     successively (\<lambda>a b. (a, b) \<in> edges_of (task_succs cs root tdeps)) (path @ [name])"

lemma visit_ctx_succs:
  assumes "visit_ctx cs root tdeps name extra path" and "name \<notin> set path" and "im_get cs name = Some c"
  shows "sort_dedup (or_empty (dependencies c) @ or_empty extra) = task_succs cs root tdeps name"
  using assms by (auto simp: visit_ctx_def task_succs_def deps_of_def split: if_splits)

lemma visit_ctx_step:
  assumes "visit_ctx cs root tdeps name extra path" and "d \<in> set (task_succs cs root tdeps name)"
  shows "visit_ctx cs root tdeps d None (path @ [name])"
proof -
  have "d \<in> reachable_from (task_succs cs root tdeps) {root}"
    by (rule reachable_from_step[of name]) (use assms in \<open>simp_all add: visit_ctx_def del: set_task_succs\<close>)
  moreover have "root \<in> set (path @ [name])" using assms(1) by (auto simp: visit_ctx_def split: if_splits)
  moreover have "successively (\<lambda>a b. (a, b) \<in> edges_of (task_succs cs root tdeps)) ((path @ [name]) @ [d])"
    using assms by (subst successively_append_iff) (simp add: visit_ctx_def del: set_task_succs)
  ultimately show ?thesis by (simp add: visit_ctx_def del: append_assoc)
qed

lemma visit_container_ok:
  assumes "visit_container cs name extra path g = Inr g'" and "graph_inv cs root tdeps path g"
    and "visit_ctx cs root tdeps name extra path"
  shows "graph_inv cs root tdeps path g' \<and> name \<in> set (im_keys g') \<and> set (im_keys g) \<subseteq> set (im_keys g')"
  using assms
proof (induction cs name extra path g arbitrary: g' rule: visit_container.induct)
  case (1 cs name extra path g)
  show ?case
  proof (cases "im_contains g name")
    case True
    with 1(2,3) show ?thesis by (simp add: visit_container.simps[of cs name] im_contains_def)
  next
    case new: False
    let ?ds = "task_succs cs root tdeps name"
    obtain c where c: "im_get cs name = Some c" and path: "name \<notin> set path"
      using 1(2) new by (auto simp: visit_container.simps[of cs name] result_simps split: if_splits)
    note ds = visit_ctx_succs[OF 1(4) path c]
    obtain g1 where loop: "fold_res (\<lambda>d g. visit_container cs d None (path @ [name]) g) ?ds g = Inr g1"
      and g': "g' = im_insert g1 name ?ds"
      using 1(2) new path c by (auto simp: visit_container.simps[of cs name] Let_def ds)
    have start: "graph_inv cs root tdeps (path @ [name]) g"
      using 1(3) new by (simp add: graph_inv_def im_contains_def)
    have "graph_inv cs root tdeps (path @ [name]) g1 \<and> set ?ds \<subseteq> set (im_keys g1) \<and> set (im_keys g) \<subseteq> set (im_keys g1)"
    proof (rule fold_res_inv_prefix[OF loop, where P = "\<lambda>ys u. graph_inv cs root tdeps (path @ [name]) u \<and>
        set ys \<subseteq> set (im_keys u) \<and> set (im_keys g) \<subseteq> set (im_keys u)"], goal_cases)
      case (2 ys d zs u v)
      then have "d \<in> set ?ds" by simp
      from 1(1)[OF new path c ds[symmetric] _ 2(3)] visit_ctx_step[OF 1(4) this] this 2(2) show ?case by auto
    qed (use start in simp)
    then have inv: "graph_inv cs root tdeps (path @ [name]) g1" and sub: "set ?ds \<subseteq> set (im_keys g1)"
      and grow: "set (im_keys g) \<subseteq> set (im_keys g1)" by auto
    have fresh: "name \<notin> set (im_keys g1)" using inv by (auto simp: graph_inv_def)
    have "topological (g1 @ [(name, ?ds)])" using inv fresh sub by (intro topo_snoc) (simp_all add: graph_inv_def)
    moreover have "name \<in> set (im_keys cs)" using c by (rule im_get_Some_key)
    moreover have "name \<in> reachable_from (task_succs cs root tdeps) {root}" using 1(4) by (simp add: visit_ctx_def)
    ultimately have "graph_inv cs root tdeps path g'"
      using inv fresh path by (auto simp: graph_inv_def g' im_insert_new[OF fresh, symmetric])
    then show ?thesis using grow by (auto simp: g')
  qed
qed

fun graph_error_true :: "container index_map \<Rightarrow> string \<Rightarrow> string list option \<Rightarrow> graph_error \<Rightarrow> bool" where
  "graph_error_true cs root tdeps (Circular_Dependency n) \<longleftrightarrow>
     n \<in> container_names_in_task cs root tdeps \<and> (n, n) \<in> (edges_of (task_succs cs root tdeps))\<^sup>+"
| "graph_error_true cs root tdeps (Undeclared_Container_Bug n) \<longleftrightarrow>
     n \<in> container_names_in_task cs root tdeps \<and> \<not> im_contains cs n"

lemma visit_container_err:
  assumes "visit_container cs name extra path g = Inl e" and "graph_inv cs root tdeps path g"
    and "visit_ctx cs root tdeps name extra path"
  shows "graph_error_true cs root tdeps e"
  using assms
proof (induction cs name extra path g rule: visit_container.induct)
  case (1 cs name extra path g)
  have reach: "name \<in> container_names_in_task cs root tdeps"
    using 1(4) by (simp add: visit_ctx_def task_reach)
  from 1(2) have new: "\<not> im_contains g name" by (auto simp: visit_container.simps[of cs name])
  show ?case
  proof (cases "name \<in> set path")
    case True
    with 1(2) new have "e = Circular_Dependency name" by (simp add: visit_container.simps[of cs name])
    moreover have "(name, name) \<in> (edges_of (task_succs cs root tdeps))\<^sup>+"
      using path_returns_cycle[OF _ True] 1(4) unfolding visit_ctx_def by blast
    ultimately show ?thesis using reach by simp
  next
    case path: False
    show ?thesis
    proof (cases "im_get cs name")
      case None
      with 1(2) new path have "e = Undeclared_Container_Bug name"
        by (simp add: visit_container.simps[of cs name])
      with None reach show ?thesis by (simp add: im_contains_def)
    next
      case (Some c)
      note ds = visit_ctx_succs[OF 1(4) path Some]
      have loop: "fold_res (\<lambda>d g. visit_container cs d None (path @ [name]) g) (task_succs cs root tdeps name) g = Inl e"
        using 1(2) new path Some by (simp add: visit_container.simps[of cs name] Let_def ds)
      have start: "graph_inv cs root tdeps (path @ [name]) g"
        using 1(3) new by (simp add: graph_inv_def im_contains_def)
      obtain d u where "d \<in> set (task_succs cs root tdeps name)" "graph_inv cs root tdeps (path @ [name]) u"
        "visit_container cs d None (path @ [name]) u = Inl e"
        by (rule fold_res_Err[OF loop, of "graph_inv cs root tdeps (path @ [name])", OF start])
          (use visit_container_ok visit_ctx_step[OF 1(4)] in blast)+
      then show ?thesis
        using 1(1)[OF new path Some ds[symmetric], of d u] visit_ctx_step[OF 1(4)] by blast
    qed
  qed
qed

lemma build_start:
  "graph_inv cs root tdeps [] []" "visit_ctx cs root tdeps root tdeps []"
  by (simp_all add: graph_inv_def topo_nil visit_ctx_def reachable_from_start[THEN subsetD])

lemma build_graph_facts:
  assumes "build_dependency_graph cs root tdeps = Inr g"
  shows "topological g" and "set (im_keys g) = container_names_in_task cs root tdeps"
    and "graph_succs g n = (if n \<in> container_names_in_task cs root tdeps then task_succs cs root tdeps n else [])"
    and "set (im_keys g) \<subseteq> set (im_keys cs)"
proof -
  have inv: "graph_inv cs root tdeps [] g" "root \<in> set (im_keys g)"
    using visit_container_ok[OF assms[unfolded build_dependency_graph_def] build_start] by auto
  then show "topological g" by (simp add: graph_inv_def)
  from topological_rank[OF this] have closed: "b \<in> set (im_keys g)" if "b \<in> set (graph_succs g a)" for a b
    using that by blast
  have "set (im_keys g) = reachable_from (task_succs cs root tdeps) {root}"
  proof (rule reachable_from_eqI)
    show "{root} \<subseteq> set (im_keys g)" using inv by simp
    show "b \<in> set (im_keys g)" if "a \<in> set (im_keys g)" "b \<in> set (task_succs cs root tdeps a)" for a b
      using that inv(1) closed[of b a] by (simp add: graph_inv_def graph_succs_def)
  qed (use inv in \<open>auto simp: graph_inv_def\<close>)
  then show keys: "set (im_keys g) = container_names_in_task cs root tdeps" by (simp add: task_reach)
  show "graph_succs g n = (if n \<in> container_names_in_task cs root tdeps then task_succs cs root tdeps n else [])"
    using inv(1) keys by (auto simp: graph_inv_def graph_succs_def)
  show "set (im_keys g) \<subseteq> set (im_keys cs)" using inv(1) by (auto simp: graph_inv_def)
qed

text \<open>
  C1 (build_dependency_graph_correct): the graph of a task holds exactly the containers of the task,
  each with its own dependencies (and the task's, for the task's own container) sorted and without
  repetition, and it has no cycle, so that starting dependencies first and stopping dependents first
  are well-defined orders.
\<close>

theorem build_dependency_graph_correct:
  assumes "build_dependency_graph cs root tdeps = Inr g"
  shows "set (im_keys g) = container_names_in_task cs root tdeps \<and>
    (\<forall>n \<in> set (im_keys g). im_get g n = Some (task_succs cs root tdeps n) \<and>
       set (task_succs cs root tdeps n) \<subseteq> set (im_keys g)) \<and>
    acyclic (edges_of (graph_succs g))"
proof -
  note facts = build_graph_facts[OF assms]
  have "im_get g n = Some (task_succs cs root tdeps n)" if "n \<in> set (im_keys g)" for n
    using that facts(2) facts(3)[of n] im_get_key[OF that] by (auto simp: graph_succs_def)
  moreover have "set (task_succs cs root tdeps n) \<subseteq> set (im_keys g)" if "n \<in> set (im_keys g)" for n
    using that facts(2,3) topological_rank[OF facts(1)] by (metis subsetI)
  ultimately show ?thesis using facts(2) topological_acyclic[OF facts(1)] by blast
qed

theorem build_dependency_graph_correct_witness:
  "\<exists>g. build_dependency_graph [(''app'', container_default\<lparr>dependencies := Some [''db'']\<rparr>), (''db'', container_default)]
        ''app'' (Some [''db'']) = Inr g \<and> acyclic (edges_of (graph_succs g))"
proof -
  have "\<exists>g. build_dependency_graph [(''app'', container_default\<lparr>dependencies := Some [''db'']\<rparr>), (''db'', container_default)]
        ''app'' (Some [''db'']) = Inr g"
    by (simp add: build_dependency_graph_def visit_container.simps im_contains_def container_default_def sort_dedup_def)
  then show ?thesis using build_dependency_graph_correct by blast
qed

text \<open>
  C2 (build_dependency_graph_ok_iff): the graph is built exactly when every container of the task is
  declared and none of them depends on itself through others. A refusal is truthful: the container it
  names is one of the task's and lies on a cycle, or is not declared.
\<close>

theorem build_dependency_graph_ok_iff:
  "(is_ok (build_dependency_graph cs root tdeps) \<longleftrightarrow>
      container_names_in_task cs root tdeps \<subseteq> set (im_keys cs) \<and>
      acyclic {(a, b) \<in> edges_of (task_succs cs root tdeps). a \<in> container_names_in_task cs root tdeps}) \<and>
   (case build_dependency_graph cs root tdeps of Inl e \<Rightarrow> graph_error_true cs root tdeps e | Inr _ \<Rightarrow> True)"
proof (cases "build_dependency_graph cs root tdeps")
  case (Inr g)
  note facts = build_graph_facts[OF Inr]
  have "{(a, b) \<in> edges_of (task_succs cs root tdeps). a \<in> container_names_in_task cs root tdeps} =
      edges_of (graph_succs g)"
    using facts(3) by (auto simp: edges_of_def split: if_splits simp del: set_task_succs)
  then show ?thesis using Inr facts(2,4) topological_acyclic[OF facts(1)] by simp
next
  case (Inl e)
  let ?N = "container_names_in_task cs root tdeps"
  let ?E = "edges_of (task_succs cs root tdeps)"
  have true: "graph_error_true cs root tdeps e"
    by (rule visit_container_err[OF Inl[unfolded build_dependency_graph_def] build_start])
  have keep: "(a, b) \<in> {(a, b) \<in> ?E. a \<in> ?N}\<^sup>+ \<and> b \<in> ?N" if "(a, b) \<in> ?E\<^sup>+" "a \<in> ?N" for a b
    using that
  proof (induction rule: trancl_induct)
    case (base b)
    then show ?case using reachable_from_step[of a _ "{root}" b] by (auto simp: task_reach[symmetric] simp del: set_task_succs)
  next
    case (step b c)
    then have "(b, c) \<in> {(a, b) \<in> ?E. a \<in> ?N}" by auto
    then show ?case using step reachable_from_step[of b "task_succs cs root tdeps" "{root}" c]
      by (auto simp: task_reach[symmetric] simp del: set_task_succs intro: trancl_into_trancl)
  qed
  show ?thesis
  proof (cases e)
    case (Circular_Dependency n)
    with true keep[of n n] Inl show ?thesis by (auto simp: acyclic_def)
  next
    case (Undeclared_Container_Bug n)
    with true Inl show ?thesis by (auto simp: im_contains_def)
  qed
qed

section \<open>The order of stopping\<close>

text \<open>
  \<open>reach\<close>, its \<open>for\<close> loop over a list of dependencies made explicit: a name not seen before is added
  and its own dependencies are walked before the rest of the list.
\<close>

function reach_all :: "dep_graph \<Rightarrow> string list \<Rightarrow> string set \<Rightarrow> string set" where
  "reach_all g [] seen = seen"
| "reach_all g (d # ds) seen =
     (if d \<in> seen then reach_all g ds seen
      else reach_all g ds (reach_all g (graph_succs g d) (insert d seen)))"
  by pat_completeness auto

definition graph_names :: "dep_graph \<Rightarrow> string list \<Rightarrow> string set" where
  "graph_names g ds = (\<Union>n. set (graph_succs g n)) \<union> set ds"

interpretation built_graph: finite_digraph "graph_succs g" for g
proof
  have "{n. graph_succs g n \<noteq> []} \<subseteq> set (im_keys g)"
    by (auto simp: graph_succs_def or_empty_def split: option.splits dest: im_get_Some_key)
  then show "finite {n. graph_succs g n \<noteq> []}" by (rule finite_subset) simp
qed

lemma finite_graph_names [simp]: "finite (graph_names g ds)"
proof -
  have "(\<Union>n. set (graph_succs g n)) \<subseteq> snd ` edges_of (graph_succs g)"
    by (auto simp: edges_of_def image_iff)
  then have "finite (\<Union>n. set (graph_succs g n))"
    by (rule finite_subset) (simp add: built_graph.finite_edges)
  then show ?thesis by (simp add: graph_names_def)
qed

lemma reach_all_increasing: "reach_all_dom (g, ds, seen) \<Longrightarrow> seen \<subseteq> reach_all g ds seen"
  by (induction rule: reach_all.pinduct) (auto simp: reach_all.psimps)

lemma graph_names_shrink:
  "d \<notin> seen \<Longrightarrow> insert d seen \<subseteq> r \<Longrightarrow> card (graph_names g ds - r) < card (graph_names g (d # ds) - seen)"
  "d \<notin> seen \<Longrightarrow> card (graph_names g (graph_succs g d) - insert d seen) < card (graph_names g (d # ds) - seen)"
proof -
  have fin: "finite (graph_names g (d # ds) - seen)" by simp
  show "card (graph_names g ds - r) < card (graph_names g (d # ds) - seen)" if "d \<notin> seen" "insert d seen \<subseteq> r"
    by (rule psubset_card_mono[OF fin]) (use that in \<open>auto simp: graph_names_def\<close>)
  show "card (graph_names g (graph_succs g d) - insert d seen) < card (graph_names g (d # ds) - seen)" if "d \<notin> seen"
    by (rule psubset_card_mono[OF fin]) (use that in \<open>auto simp: graph_names_def\<close>)
qed

termination reach_all
proof (relation "measures [\<lambda>(g, ds, seen). card (graph_names g ds - seen), \<lambda>(g, ds, seen). length ds]", goal_cases)
  case (2 g d ds seen)
  have "card (graph_names g ds - seen) \<le> card (graph_names g (d # ds) - seen)"
    by (rule card_mono, simp) (auto simp: graph_names_def)
  then show ?case by auto
next
  case (3 g d ds seen)
  then show ?case using graph_names_shrink(2) by simp
next
  case (4 g d ds seen)
  then show ?case using graph_names_shrink(1)[OF _ reach_all_increasing[OF 4(2)]] by simp
qed simp

definition reach :: "dep_graph \<Rightarrow> string \<Rightarrow> string set" where
  "reach g name = reach_all g (graph_succs g name) {}"

definition dependents_to_stop_first :: "dep_graph \<Rightarrow> string list \<Rightarrow> string set index_map" where
  "dependents_to_stop_first g created =
     foldl (\<lambda>m dependent. map (\<lambda>(k, waiting). (k, if k \<in> reach g dependent then insert dependent waiting else waiting)) m)
       (foldl (\<lambda>m name. im_insert m name {}) [] created) created"

lemma reach_all_facts:
  "seen \<subseteq> reach_all g ds seen \<and> set ds \<subseteq> reach_all g ds seen \<and>
   reach_all g ds seen \<subseteq> seen \<union> reachable_from (graph_succs g) (set ds) \<and>
   (\<forall>a \<in> reach_all g ds seen - seen. set (graph_succs g a) \<subseteq> reach_all g ds seen)"
proof (induction g ds seen rule: reach_all.induct)
  case (2 g d ds seen)
  let ?R = "reachable_from (graph_succs g)"
  have up: "?R (set ds) \<subseteq> ?R (set (d # ds))" by (auto simp: reachable_from_def)
  show ?case
  proof (cases "d \<in> seen")
    case True
    with 2(1) up show ?thesis by auto
  next
    case False
    let ?r = "reach_all g (graph_succs g d) (insert d seen)"
    have "?R (set (graph_succs g d)) \<subseteq> ?R (set (d # ds))"
      using reachable_expand[of "graph_succs g" d "set ds"] by (auto simp: reachable_from_def)
    moreover have "d \<in> ?R (set (d # ds))" using reachable_from_start[of "set (d # ds)"] by auto
    ultimately have R: "insert d (?R (set (graph_succs g d))) \<subseteq> ?R (set (d # ds))" by blast
    let ?r' = "reach_all g ds ?r"
    have r: "insert d seen \<subseteq> ?r" "set (graph_succs g d) \<subseteq> ?r"
      "?r \<subseteq> insert d seen \<union> ?R (set (graph_succs g d))"
      "\<And>a. a \<in> ?r - insert d seen \<Longrightarrow> set (graph_succs g a) \<subseteq> ?r"
      using 2(2)[OF False] by blast+
    have r': "?r \<subseteq> ?r'" "set ds \<subseteq> ?r'" "?r' \<subseteq> ?r \<union> ?R (set ds)"
      "\<And>a. a \<in> ?r' - ?r \<Longrightarrow> set (graph_succs g a) \<subseteq> ?r'"
      using 2(3)[OF False] by blast+
    have "set (graph_succs g a) \<subseteq> ?r'" if "a \<in> ?r' - seen" for a
      using that r(2) r(4)[of a] r'(1) r'(4)[of a] by (cases "a = d"; cases "a \<in> ?r") auto
    moreover have "seen \<subseteq> ?r'" "set (d # ds) \<subseteq> ?r'" using r(1) r'(1,2) by auto
    moreover have "?r' \<subseteq> seen \<union> ?R (set (d # ds))" using r(3) r'(3) R up by blast
    ultimately show ?thesis using False by simp
  qed
qed simp

lemma reach_eq: "reach g name = {d. (name, d) \<in> (edges_of (graph_succs g))\<^sup>+}"
proof -
  have "reach g name = reachable_from (graph_succs g) (set (graph_succs g name))"
    unfolding reach_def
    by (rule reachable_from_eqI) (use reach_all_facts[of "{}" g "graph_succs g name"] in auto)
  also have "\<dots> = {d. (name, d) \<in> (edges_of (graph_succs g))\<^sup>+}"
    by (auto simp: reachable_from_def trancl_unfold_left)
  finally show ?thesis .
qed

lemma dependents_start:
  "im_get (foldl (\<lambda>m name. im_insert m name {}) m created) k = (if k \<in> set created then Some {} else im_get m k)"
  by (induction created arbitrary: m) auto

lemma dependents_loop:
  "im_get (foldl (\<lambda>m dependent. map (\<lambda>(k, w). (k, if k \<in> reach g dependent then insert dependent w else w)) m) m cs) k =
     map_option (\<lambda>w. w \<union> {c \<in> set cs. k \<in> reach g c}) (im_get m k)"
proof (induction cs arbitrary: m)
  case (Cons c cs)
  have "im_get (map (\<lambda>(k, w). (k, if k \<in> reach g c then insert c w else w)) m) k =
      map_option (\<lambda>w. if k \<in> reach g c then insert c w else w) (im_get m k)"
    by (induction m) auto
  with Cons show ?case by (cases "im_get m k") auto
qed (simp add: option.map_ident)

lemma dependents_eq:
  "im_get (dependents_to_stop_first g created) d =
     (if d \<in> set created
      then Some {c \<in> set created. (c, d) \<in> (edges_of (graph_succs g))\<^sup>+} else None)"
  by (simp only: dependents_to_stop_first_def dependents_loop dependents_start) (simp add: reach_eq)

text \<open>
  C3 (dependents_to_stop_first_correct): a container that was created waits for exactly those created
  containers that depend on it, directly or through containers that were never created; a container
  that was not created has no entry.
\<close>

theorem dependents_to_stop_first_correct:
  "im_get (dependents_to_stop_first g created) d =
     (if d \<in> set created
      then Some {c \<in> set created. (c, d) \<in> (edges_of (graph_succs g))\<^sup>+} else None)"
  by (rule dependents_eq)

text \<open>
  With the graph a task was built from, waiting for dependents never deadlocks: however many of the
  created containers are still to be stopped, one of them waits for none of the others.
\<close>

lemma stoppable_container:
  assumes "build_dependency_graph cs root tdeps = Inr g" and "R \<subseteq> set created" and "R \<noteq> {}"
  shows "\<exists>d \<in> R. \<exists>w. im_get (dependents_to_stop_first g created) d = Some w \<and> w \<inter> R = {}"
proof -
  let ?E = "edges_of (graph_succs g)"
  obtain f :: "string \<Rightarrow> nat" where f: "\<And>a b. (a, b) \<in> ?E \<Longrightarrow> f b < f a"
    using topological_rank[OF build_graph_facts(1)[OF assms(1)]] by auto
  have down: "f b < f a" if "(a, b) \<in> ?E\<^sup>+" for a b
    using that by (induction rule: trancl_induct) (use f order.strict_trans in blast)+
  have "finite R" using assms(2) by (rule finite_subset) simp
  then obtain d where d: "d \<in> R" "\<And>c. c \<in> R \<Longrightarrow> f c \<le> f d"
    using assms(3) Max_ge[of "f ` R"] by (metis finite_imageI imageI obtains_MAX)
  then have "{c \<in> set created. (c, d) \<in> ?E\<^sup>+} \<inter> R = {}" using down by fastforce
  with d assms(2) show ?thesis by (auto simp: dependents_eq)
qed

end
