(* ===== verification/Task_Names.thy ===== *)
theory Task_Names
  imports Config_Model "HOL-Library.Product_Lexorder"
begin

text \<open>
  How \<open>ratect-core/src/engine.rs\<close> finds a task and suggests one for a mistyped name: the two-row edit
  distance, \<open>suggest_task_names\<close>, \<open>human_readable_list\<close>, \<open>format_task_suggestions\<close> and \<open>find_task\<close>. The
  reference for the distance is the least number of single-character insertions, deletions and
  substitutions that turn one name into the other.
\<close>

section \<open>Edit distance\<close>

text \<open>The inner loop: \<open>previous\<close> is the previous row from \<open>j - 1\<close> on, \<open>left\<close> is \<open>current_row[j - 1]\<close>.\<close>

fun fill_row :: "char \<Rightarrow> string \<Rightarrow> nat list \<Rightarrow> nat \<Rightarrow> nat list" where
  "fill_row c (d # ds) (p # q # ps) left =
     (let v = (if c = d then p else 1 + min (min p q) left) in v # fill_row c ds (q # ps) v)"
| "fill_row c _ _ left = []"

fun distance_rows :: "nat \<Rightarrow> string \<Rightarrow> string \<Rightarrow> nat list \<Rightarrow> nat list" where
  "distance_rows i [] b previous = previous"
| "distance_rows i (c # a) b previous = distance_rows (Suc i) a b (i # fill_row c b previous i)"

definition edit_distance :: "string \<Rightarrow> string \<Rightarrow> nat" where
  "edit_distance a b = distance_rows 1 a b [0..<Suc (length b)] ! length b"

inductive edits :: "nat \<Rightarrow> string \<Rightarrow> string \<Rightarrow> bool" where
  e_nil: "edits 0 [] []"
| e_keep: "edits n xs ys \<Longrightarrow> edits n (c # xs) (c # ys)"
| e_insert: "edits n xs ys \<Longrightarrow> edits (Suc n) xs (c # ys)"
| e_delete: "edits n xs ys \<Longrightarrow> edits (Suc n) (c # xs) ys"
| e_substitute: "edits n xs ys \<Longrightarrow> edits (Suc n) (c # xs) (d # ys)"

fun lev :: "string \<Rightarrow> string \<Rightarrow> nat" where
  "lev [] ys = length ys"
| "lev xs [] = length xs"
| "lev (x # xs) (y # ys) =
     (if x = y then lev xs ys else 1 + min (min (lev xs ys) (lev xs (y # ys))) (lev (x # xs) ys))"

lemma lev_Nil2 [simp]: "lev xs [] = length xs"
  by (cases xs) auto

lemma lev_sym: "lev xs ys = lev ys xs"
  by (induction xs ys rule: lev.induct) (auto simp: min.commute min.left_commute min.assoc)

lemma lev_lipschitz: "(\<forall>c xs. lev xs (c # ys) \<le> Suc (lev xs ys)) \<and> (\<forall>x xs. lev xs ys \<le> Suc (lev (x # xs) ys))"
proof (induction ys)
  case Nil
  have "lev xs [c] \<le> Suc (length xs)" for c xs by (cases xs) auto
  then show ?case by simp
next
  case (Cons y ys)
  have lower: "lev xs (y # ys) \<le> Suc (lev (x # xs) (y # ys))" for x xs
  proof -
    have "lev xs (y # ys) \<le> Suc (lev xs ys)" "lev xs ys \<le> Suc (lev (x # xs) ys)" using Cons by blast+
    then show ?thesis by (auto simp: min_def)
  qed
  have "lev xs (c # y # ys) \<le> Suc (lev xs (y # ys))" for c xs
    using lower[of "tl xs" c] by (cases xs) (auto simp: min_def)
  with lower show ?case by blast
qed

lemma lev_least: "edits n xs ys \<Longrightarrow> lev xs ys \<le> n"
proof (induction rule: edits.induct)
  case (e_insert n xs ys c)
  then show ?case using lev_lipschitz[of ys] by (meson Suc_le_mono le_trans)
next
  case (e_delete n xs ys c)
  then show ?case using lev_lipschitz[of xs] by (metis Suc_le_mono le_trans lev_sym)
next
  case (e_substitute n xs ys c d)
  then show ?case by (auto simp: min_def)
qed auto

lemma edits_insert_all: "edits (length ys) [] ys"
  by (induction ys) (auto intro: edits.intros)

lemma edits_delete_all: "edits (length xs) xs []"
  by (induction xs) (auto intro: edits.intros)

lemma lev_edits: "edits (lev xs ys) xs ys"
proof (induction xs ys rule: lev.induct)
  case (3 x xs y ys)
  show ?case
  proof (cases "x = y")
    case True
    with 3 show ?thesis by (auto intro: e_keep)
  next
    case False
    with 3 show ?thesis
      by (auto simp: min_def intro: e_insert e_delete e_substitute)
  qed
qed (simp_all add: edits_insert_all edits_delete_all[of "_ # _", simplified])

lemma edits_append: "edits n xs ys \<Longrightarrow> edits m us vs \<Longrightarrow> edits (n + m) (xs @ us) (ys @ vs)"
  by (induction rule: edits.induct) (auto intro: edits.intros)

lemma edits_single: "edits 0 [c] [c]" "edits 1 [] [c]" "edits 1 [c] []" "edits 1 [c] [d]"
  using edits.intros(2-)[OF e_nil] by simp_all

lemma edits_rev: "edits n xs ys \<Longrightarrow> edits n (rev xs) (rev ys)"
proof (induction rule: edits.induct)
  case (e_keep n xs ys c)
  then show ?case using edits_append[OF e_keep.IH edits_single(1)] by simp
next
  case (e_insert n xs ys c)
  then show ?case using edits_append[OF e_insert.IH edits_single(2)] by simp
next
  case (e_delete n xs ys c)
  then show ?case using edits_append[OF e_delete.IH edits_single(3)] by simp
next
  case (e_substitute n xs ys c d)
  then show ?case using edits_append[OF e_substitute.IH edits_single(4)] by simp
qed (simp add: e_nil)

lemma lev_rev: "lev (rev xs) (rev ys) = lev xs ys"
  using lev_least[OF edits_rev[OF lev_edits[of xs ys]]] lev_least[OF edits_rev[OF lev_edits[of "rev xs" "rev ys"]]]
  by simp

text \<open>A row of the table: the distances of \<open>x\<close> to the growing prefixes of \<open>vs\<close>, all read backwards.\<close>

fun row_of :: "string \<Rightarrow> string \<Rightarrow> string \<Rightarrow> nat list" where
  "row_of x u [] = [lev x u]"
| "row_of x u (v # vs) = lev x u # row_of x (v # u) vs"

lemma row_of_Cons: "row_of x u vs = lev x u # tl (row_of x u vs)"
  by (cases vs) auto

lemma fill_row_step: "fill_row c vs (row_of x u vs) (lev (c # x) u) = tl (row_of (c # x) u vs)"
proof (induction vs arbitrary: u)
  case (Cons d ds)
  obtain ps where q: "row_of x (d # u) ds = lev x (d # u) # ps" using row_of_Cons by blast
  have "fill_row c (d # ds) (row_of x u (d # ds)) (lev (c # x) u) =
      lev (c # x) (d # u) # fill_row c ds (row_of x (d # u) ds) (lev (c # x) (d # u))"
    by (simp add: q Let_def)
  then show ?case using Cons[of "d # u"] row_of_Cons[of "c # x" "d # u" ds] by simp
qed simp

lemma distance_rows_step:
  "distance_rows (Suc (length x)) a b (row_of x [] b) = row_of (rev a @ x) [] b"
proof (induction a arbitrary: x)
  case (Cons c a)
  have "Suc (length x) # fill_row c b (row_of x [] b) (Suc (length x)) = row_of (c # x) [] b"
    using fill_row_step[of c b x "[]"] row_of_Cons[of "c # x" "[]" b] by simp
  then show ?case using Cons[of "c # x"] by simp
qed simp

lemma row_of_start: "row_of [] u vs = [length u..<Suc (length u + length vs)]"
proof (induction vs arbitrary: u)
  case (Cons v vs)
  have "[length u..<Suc (length u + length (v # vs))] = length u # [Suc (length u)..<Suc (length u + length (v # vs))]"
    by (rule upt_conv_Cons) simp
  with Cons[of "v # u"] show ?case by simp
qed simp

lemma row_of_last: "row_of x u vs ! length vs = lev x (rev vs @ u)"
  by (induction vs arbitrary: u) auto

lemma edit_distance_lev: "edit_distance a b = lev a b"
  using distance_rows_step[of "[]" a b] row_of_start[of "[]" b] row_of_last[of "rev a" "[]" b]
  by (simp add: edit_distance_def lev_rev)

text \<open>
  The two-row table computes the least number of insertions, deletions and
  substitutions of one character that turn the first name into the second.
\<close>

theorem edit_distance_least: "edit_distance a b = (LEAST n. edits n a b)"
  using lev_edits[of a b] lev_least[of _ a b]
  by (simp add: edit_distance_lev Least_equality[symmetric])

section \<open>Suggestions\<close>

definition suggest_task_names :: "task index_map \<Rightarrow> string \<Rightarrow> string list" where
  "suggest_task_names ts name =
     map snd (sort (filter (\<lambda>(distance, _). distance \<le> 3) (map (\<lambda>k. (edit_distance name k, k)) (im_keys ts))))"

definition human_readable_list :: "string list \<Rightarrow> string \<Rightarrow> string" where
  "human_readable_list items conjunction = (case items of
       [] \<Rightarrow> []
     | [only] \<Rightarrow> only
     | _ \<Rightarrow> join '', '' (butlast items) @ '' '' @ conjunction @ '' '' @ last items)"

definition format_task_suggestions :: "task index_map \<Rightarrow> string \<Rightarrow> string" where
  "format_task_suggestions ts name =
     (let suggestions = suggest_task_names ts name in
      if suggestions = [] then []
      else '' Did you mean '' @
        human_readable_list (map (\<lambda>s. [CHR 39] @ s @ [CHR 39]) suggestions) ''or'' @ ''?'')"

text \<open>The error for a missing task, with its suggestions; \<open>requested\<close> is whether it is the task the run
  was asked for, which the binaries add a hint to.\<close>

datatype find_error = Unknown_Task string string | Missing_Prerequisite string string

definition find_task :: "task index_map \<Rightarrow> string \<Rightarrow> bool \<Rightarrow> (find_error, task) result" where
  "find_task ts name requested = (case im_get ts name of
       Some t \<Rightarrow> Ok t
     | None \<Rightarrow> Err ((if requested then Unknown_Task else Missing_Prerequisite) name (format_task_suggestions ts name)))"

lemma suggestions_paired:
  "map (\<lambda>k. (edit_distance name k, k)) (suggest_task_names ts name) =
     sort (filter (\<lambda>(distance, _). distance \<le> 3) (map (\<lambda>k. (edit_distance name k, k)) (im_keys ts)))"
  unfolding suggest_task_names_def map_map by (rule map_idI) auto

text \<open>
  The tasks suggested for a mistyped name are exactly the tasks at most three
  edits away, each as often as it is declared, the closest first and ties in name order.
\<close>

theorem suggestions_correct:
  "set (suggest_task_names ts name) = {k \<in> set (im_keys ts). \<exists>n \<le> 3. edits n name k} \<and>
   sorted (map (\<lambda>k. (edit_distance name k, k)) (suggest_task_names ts name)) \<and>
   length (suggest_task_names ts name) = length (filter (\<lambda>k. edit_distance name k \<le> 3) (im_keys ts))"
proof (intro conjI)
  have "edit_distance name k \<le> 3 \<longleftrightarrow> (\<exists>n \<le> 3. edits n name k)" for k
    using lev_edits[of name k] lev_least[of _ name k] by (auto simp: edit_distance_lev intro: order.trans)
  then show "set (suggest_task_names ts name) = {k \<in> set (im_keys ts). \<exists>n \<le> 3. edits n name k}"
    by (auto simp: suggest_task_names_def image_iff)
  show "sorted (map (\<lambda>k. (edit_distance name k, k)) (suggest_task_names ts name))"
    by (simp add: suggestions_paired)
  show "length (suggest_task_names ts name) = length (filter (\<lambda>k. edit_distance name k \<le> 3) (im_keys ts))"
    by (simp add: suggest_task_names_def filter_map comp_def)
qed

end
