(* ===== verification/Prerequisites.thy ===== *)
theory Prerequisites
  imports Task_Names
begin

text \<open>
  Prerequisite tasks in \<open>ratect-core/src/engine.rs\<close>: wildcard expansion, \<open>check_prerequisites\<close> (the
  whole order is checked before anything runs) and the run itself: \<open>run_task\<close>, \<open>run_task_scoped\<close> and the
  prerequisite loop of \<open>run_task_internal\<close> with its signal checks.

  The regular expression crate is a parameter: \<open>regex_escape\<close> and \<open>regex_new\<close>, which gives a matcher or
  fails. The set of tasks in progress, which \<open>run_task_scoped\<close> adds to and removes from, is an argument.
  What a task does on Docker after its prerequisites is an argument too (\<open>run_own\<close>, with the evaluation
  of its values and the image override check before it); it may fail and takes time, during which
  signals may arrive.
\<close>

section \<open>Wildcards\<close>

record regex_crate =
  regex_escape :: "string \<Rightarrow> string"
  regex_new :: "string \<Rightarrow> (string \<Rightarrow> bool) option"

datatype run_error =
    Task_Lookup find_error
  | Invalid_Wildcard string
  | Task_Cycle string
  | Task_Interrupted string
  | Own_Failure string

definition wildcard_pattern :: "regex_crate \<Rightarrow> string \<Rightarrow> string" where
  "wildcard_pattern rx pattern =
     ''^'' @ join ''.*'' (map (regex_escape rx) (split (CHR ''*'') pattern)) @ ''$''"

definition wildcard_to_regex :: "regex_crate \<Rightarrow> string \<Rightarrow> (run_error, string \<Rightarrow> bool) result" where
  "wildcard_to_regex rx pattern = (case regex_new rx (wildcard_pattern rx pattern) of
       None \<Rightarrow> Err (Invalid_Wildcard (wildcard_pattern rx pattern)) | Some m \<Rightarrow> Ok m)"

definition expand_one :: "regex_crate \<Rightarrow> task index_map \<Rightarrow> string \<Rightarrow> (run_error, string list) result" where
  "expand_one rx ts pattern =
     (if CHR ''*'' \<notin> set pattern then Ok [pattern]
      else rbind (wildcard_to_regex rx pattern) (\<lambda>m. Ok (sort (filter m (im_keys ts)))))"

definition expand_prerequisite_wildcards ::
  "regex_crate \<Rightarrow> task index_map \<Rightarrow> string list \<Rightarrow> (run_error, string list) result" where
  "expand_prerequisite_wildcards rx ts patterns =
     fold_res (\<lambda>pattern expanded. rbind (expand_one rx ts pattern) (\<lambda>names. Ok (expanded @ names))) patterns []"

section \<open>Checking the order\<close>

definition resolve_prerequisite ::
  "task index_map \<Rightarrow> string list \<Rightarrow> string \<Rightarrow> (run_error, string \<times> task) result" where
  "resolve_prerequisite ts path name =
     rbind (map_err Task_Lookup (find_task ts name False)) (\<lambda>t.
       if name \<in> set path then Err (Task_Cycle name) else Ok (name, t))"

lemma find_task_Ok [simp]: "find_task ts name r = Inr t \<longleftrightarrow> im_get ts name = Some t"
  by (auto simp: find_task_def split: option.splits)

lemma find_task_present [simp]: "im_get ts name = Some t \<Longrightarrow> find_task ts name r = Inr t"
  by simp

lemma resolve_prerequisite_Ok:
  "resolve_prerequisite ts path name = Inr p \<longleftrightarrow>
     (\<exists>t. p = (name, t) \<and> im_get ts name = Some t \<and> name \<notin> set path)"
  by (auto simp: resolve_prerequisite_def)

lemma resolved_members:
  "map_res (resolve_prerequisite ts path) names = Inr resolved \<Longrightarrow> (name, t) \<in> set resolved \<Longrightarrow>
     im_get ts name = Some t \<and> name \<notin> set path \<and> name \<in> set names"
  by (induction names arbitrary: resolved) (auto simp: resolve_prerequisite_Ok)

function check_visit ::
  "regex_crate \<Rightarrow> task index_map \<Rightarrow> task \<Rightarrow> string list \<Rightarrow> string set \<Rightarrow> (run_error, string set) result" where
  "check_visit rx ts t path checked = (case t_prerequisites t of
       None \<Rightarrow> Ok checked
     | Some patterns \<Rightarrow>
         rbind (expand_prerequisite_wildcards rx ts patterns) (\<lambda>names.
         rbind (map_res (resolve_prerequisite ts path) names) (\<lambda>resolved.
           fold_res (\<lambda>p checked.
             if fst p \<in> checked then Ok checked
             else rbind (check_visit rx ts (snd p) (path @ [fst p]) checked) (\<lambda>c. Ok (insert (fst p) c)))
           resolved checked)))"
  by pat_completeness auto
termination
proof (relation "measure (\<lambda>(rx, ts, t, path, checked). card (set (im_keys ts) - set path))", goal_cases)
  case (2 rx ts t path checked patterns names resolved p u)
  obtain n pt where p: "p = (n, pt)" by (cases p)
  from resolved_members[OF 2(3), of n pt] 2(4) p have "n \<in> set (im_keys ts)" "n \<notin> set path"
    by (auto dest: im_get_Some_key)
  then have "set (im_keys ts) - set (path @ [n]) \<subset> set (im_keys ts) - set path" by auto
  then show ?case by (simp add: psubset_card_mono p)
qed simp

declare check_visit.simps [simp del]

definition check_prerequisites ::
  "regex_crate \<Rightarrow> task index_map \<Rightarrow> string \<Rightarrow> bool \<Rightarrow> (run_error, unit) result" where
  "check_prerequisites rx ts task_name skip =
     rbind (map_err Task_Lookup (find_task ts task_name True)) (\<lambda>t.
       if skip then Ok () else rbind (check_visit rx ts t [task_name] {}) (\<lambda>_. Ok ()))"

section \<open>The prerequisite graph\<close>

definition prereq_expansion :: "regex_crate \<Rightarrow> task index_map \<Rightarrow> string \<Rightarrow> (run_error, string list) result" where
  "prereq_expansion rx ts n = (case im_get ts n of None \<Rightarrow> Ok [] | Some t \<Rightarrow>
     (case t_prerequisites t of None \<Rightarrow> Ok [] | Some ps \<Rightarrow> expand_prerequisite_wildcards rx ts ps))"

definition prereqs :: "regex_crate \<Rightarrow> task index_map \<Rightarrow> string \<Rightarrow> string list" where
  "prereqs rx ts n = (case prereq_expansion rx ts n of Inr names \<Rightarrow> names | Inl _ \<Rightarrow> [])"

interpretation prereq_graph: finite_digraph "prereqs rx ts" for rx ts
proof
  have "{n. prereqs rx ts n \<noteq> []} \<subseteq> set (im_keys ts)"
    by (auto simp: prereqs_def prereq_expansion_def split: option.splits dest: im_get_Some_key)
  then show "finite {n. prereqs rx ts n \<noteq> []}" by (rule finite_subset) simp
qed

text \<open>A set of tasks that needs nothing outside it, in which every list expands, and that has no cycle.\<close>

definition checked_ok :: "regex_crate \<Rightarrow> task index_map \<Rightarrow> string set \<Rightarrow> bool" where
  "checked_ok rx ts C \<longleftrightarrow> C \<subseteq> set (im_keys ts) \<and> (\<forall>n \<in> C. is_ok (prereq_expansion rx ts n)) \<and>
     (\<exists>f :: string \<Rightarrow> nat. \<forall>n \<in> C. \<forall>p \<in> set (prereqs rx ts n). p \<in> C \<and> f p < f n)"

lemma checked_ok_empty [simp]: "checked_ok rx ts {}"
  by (simp add: checked_ok_def)

lemma checked_ok_insert:
  assumes "checked_ok rx ts C" and "n \<notin> C" and "n \<in> set (im_keys ts)"
    and "is_ok (prereq_expansion rx ts n)" and "set (prereqs rx ts n) \<subseteq> C"
  shows "checked_ok rx ts (insert n C)"
proof -
  from assms(1) obtain f :: "string \<Rightarrow> nat" where
    f: "\<And>m p. m \<in> C \<Longrightarrow> p \<in> set (prereqs rx ts m) \<Longrightarrow> p \<in> C \<and> f p < f m"
    unfolding checked_ok_def by blast
  let ?f = "f(n := Suc (\<Sum>p \<in> set (prereqs rx ts n). f p))"
  have "p \<in> insert n C \<and> ?f p < ?f m" if m: "m \<in> insert n C" and p: "p \<in> set (prereqs rx ts m)" for m p
  proof (cases "m = n")
    case True
    then have "p \<in> C" "p \<noteq> n" using p assms(2,5) by auto
    moreover have "f p \<le> (\<Sum>p \<in> set (prereqs rx ts n). f p)"
      using p True by (intro member_le_sum) auto
    ultimately show ?thesis using True by simp
  next
    case False
    then have "p \<in> C" "f p < f m" using f m p by auto
    moreover have "p \<noteq> n" using \<open>p \<in> C\<close> assms(2) by blast
    ultimately show ?thesis using False by simp
  qed
  then show ?thesis using assms(1,3,4) unfolding checked_ok_def by blast
qed

lemma check_visit_names:
  assumes "im_get ts n = Some t" and "t_prerequisites t = Some patterns"
  shows "prereq_expansion rx ts n = expand_prerequisite_wildcards rx ts patterns"
  using assms by (simp add: prereq_expansion_def)

lemma resolved_names:
  "map_res (resolve_prerequisite ts path) names = Inr resolved \<Longrightarrow> map fst resolved = names"
  by (induction names arbitrary: resolved) (auto simp: resolve_prerequisite_Ok)

lemma check_visit_ok:
  assumes "check_visit rx ts t path checked = Inr c" and "im_get ts n = Some t"
    and "checked_ok rx ts checked" and "set path \<inter> checked = {}"
  shows "checked_ok rx ts c \<and> set (prereqs rx ts n) \<subseteq> c \<and> checked \<subseteq> c \<and> set path \<inter> c = {} \<and>
         is_ok (prereq_expansion rx ts n)"
  using assms
proof (induction rx ts t path checked arbitrary: n c rule: check_visit.induct)
  case (1 rx ts t path checked)
  show ?case
  proof (cases "t_prerequisites t")
    case None
    with 1(2-) show ?thesis
      by (simp add: check_visit.simps[of rx ts t] prereqs_def prereq_expansion_def)
  next
    case (Some patterns)
    with 1(2) obtain names resolved where
      names: "expand_prerequisite_wildcards rx ts patterns = Inr names" and
      res: "map_res (resolve_prerequisite ts path) names = Inr resolved" and
      loop: "fold_res (\<lambda>p checked. if fst p \<in> checked then Ok checked
             else rbind (check_visit rx ts (snd p) (path @ [fst p]) checked) (\<lambda>c. Ok (insert (fst p) c)))
           resolved checked = Inr c"
      by (auto simp: check_visit.simps[of rx ts t])
    have exp: "prereq_expansion rx ts n = Inr names" using check_visit_names[OF 1(3) Some] names by simp
    let ?P = "\<lambda>ps u. checked_ok rx ts u \<and> set (map fst ps) \<subseteq> u \<and> checked \<subseteq> u \<and> set path \<inter> u = {}"
    have "?P resolved c"
    proof (rule fold_res_inv_prefix[OF loop, where P = ?P], goal_cases)
      case (2 ys p zs u v)
      obtain m pt where p: "p = (m, pt)" by (cases p)
      have m: "im_get ts m = Some pt" "m \<notin> set path" using resolved_members[OF res, of m pt] 2(1) p by auto
      show ?case
      proof (cases "m \<in> u")
        case True
        with 2 p show ?thesis by auto
      next
        case False
        with 2(3) p obtain w where w: "check_visit rx ts pt (path @ [m]) u = Inr w" and v: "v = insert m w" by auto
        have "set (path @ [m]) \<inter> u = {}" using 2(2) False by auto
        then have IH: "checked_ok rx ts w" "set (prereqs rx ts m) \<subseteq> w" "u \<subseteq> w" "set (path @ [m]) \<inter> w = {}"
          "is_ok (prereq_expansion rx ts m)"
          using 1(1)[OF Some names res, of p u w m] 2 p False w m by auto
        have "checked_ok rx ts v" unfolding v
          by (rule checked_ok_insert) (use IH im_get_Some_key[OF m(1)] in auto)
        with IH 2(2) m v p show ?thesis by auto
      qed
    qed (use 1(4,5) in simp)
    then show ?thesis using resolved_names[OF res] exp by (auto simp: prereqs_def)
  qed
qed

text \<open>What an error says of the tasks reached from \<open>start\<close>.\<close>

fun order_error_true :: "regex_crate \<Rightarrow> task index_map \<Rightarrow> string \<Rightarrow> run_error \<Rightarrow> bool" where
  "order_error_true rx ts start (Task_Lookup e) \<longleftrightarrow>
     (\<exists>n. n \<in> reachable_from (prereqs rx ts) {start} \<and> \<not> im_contains ts n \<and>
        e = Missing_Prerequisite n (format_task_suggestions ts n))"
| "order_error_true rx ts start (Invalid_Wildcard p) \<longleftrightarrow>
     (\<exists>n \<in> reachable_from (prereqs rx ts) {start}. prereq_expansion rx ts n = Inl (Invalid_Wildcard p))"
| "order_error_true rx ts start (Task_Cycle n) \<longleftrightarrow>
     n \<in> reachable_from (prereqs rx ts) {start} \<and> (n, n) \<in> (edges_of (prereqs rx ts))\<^sup>+"
| "order_error_true rx ts start _ \<longleftrightarrow> False"

lemma expand_error: "expand_prerequisite_wildcards rx ts ps = Inl e \<Longrightarrow> \<exists>p. e = Invalid_Wildcard p"
  unfolding expand_prerequisite_wildcards_def
  by (erule fold_res_Err[where P = "\<lambda>_. True"])
    (auto simp: expand_one_def wildcard_to_regex_def split: if_splits option.splits)

lemma map_res_Err: "map_res f xs = Inl e \<Longrightarrow> \<exists>x \<in> set xs. f x = Inl e"
  by (induction xs) auto

lemma check_visit_err:
  assumes "check_visit rx ts t path checked = Inl e" and "im_get ts n = Some t"
    and "n \<in> reachable_from (prereqs rx ts) {start}"
    and "path \<noteq> []" and "last path = n" and "successively (\<lambda>a b. (a, b) \<in> edges_of (prereqs rx ts)) path"
  shows "order_error_true rx ts start e"
  using assms
proof (induction rx ts t path checked arbitrary: n rule: check_visit.induct)
  case (1 rx ts t path checked)
  from 1(2) obtain patterns where ps: "t_prerequisites t = Some patterns"
    by (cases "t_prerequisites t") (auto simp: check_visit.simps[of rx ts t])
  note exp = check_visit_names[OF 1(3) ps, of rx]
  show ?case
  proof (cases "expand_prerequisite_wildcards rx ts patterns")
    case (Inl e')
    with 1(2) ps have "e = e'" by (simp add: check_visit.simps[of rx ts t])
    with expand_error[OF Inl] Inl exp 1(4) show ?thesis by auto
  next
    case (Inr names)
    with exp have pre: "prereqs rx ts n = names" by (simp add: prereqs_def)
    have below: "m \<in> reachable_from (prereqs rx ts) {start}"
      "successively (\<lambda>a b. (a, b) \<in> edges_of (prereqs rx ts)) (path @ [m])" if "m \<in> set names" for m
      using reachable_from_step[OF 1(4), of m] that pre 1(5-7) by (simp_all add: successively_append_iff)
    show ?thesis
    proof (cases "map_res (resolve_prerequisite ts path) names")
      case (Inl e')
      with 1(2) ps Inr have "e = e'" by (simp add: check_visit.simps[of rx ts t])
      with map_res_Err[OF Inl] obtain m where m: "m \<in> set names" "resolve_prerequisite ts path m = Inl e" by blast
      show ?thesis
      proof (cases "im_get ts m")
        case None
        with m have "e = Task_Lookup (Missing_Prerequisite m (format_task_suggestions ts m))"
          by (simp add: resolve_prerequisite_def find_task_def)
        with below(1)[OF m(1)] None show ?thesis by (auto simp: im_contains_def)
      next
        case (Some mt)
        with m have e: "e = Task_Cycle m" and again: "m \<in> set path"
          by (auto simp: resolve_prerequisite_def find_task_def split: if_splits)
        show ?thesis using e below(1)[OF m(1)] path_returns_cycle[OF below(2)[OF m(1)] again] by simp
      qed
    next
      case (Inr resolved)
      let ?body = "\<lambda>p checked. if fst p \<in> checked then Ok checked
             else rbind (check_visit rx ts (snd p) (path @ [fst p]) checked) (\<lambda>c. Ok (insert (fst p) c))"
      have "fold_res ?body resolved checked = Inl e"
        using 1(2) ps \<open>expand_prerequisite_wildcards rx ts patterns = Inr names\<close> Inr
        by (simp add: check_visit.simps[of rx ts t])
      then obtain p u where p: "p \<in> set resolved" and "?body p u = Inl e"
        by (rule fold_res_Err[where P = "\<lambda>_. True"]) auto
      then have new: "fst p \<notin> u" and err: "check_visit rx ts (snd p) (path @ [fst p]) u = Inl e"
        by (auto split: if_splits)
      have m: "im_get ts (fst p) = Some (snd p)" "fst p \<in> set names"
        using resolved_members[OF Inr, of "fst p" "snd p"] p by auto
      show ?thesis
        using 1(1)[OF ps \<open>expand_prerequisite_wildcards rx ts patterns = Inr names\<close> Inr p new err m(1)]
          below[OF m(2)] by simp
    qed
  qed
qed

lemma checked_ok_reachable:
  assumes "checked_ok rx ts C" and "n \<in> C"
  shows "checked_ok rx ts (reachable_from (prereqs rx ts) {n})"
proof -
  let ?R = "reachable_from (prereqs rx ts) {n}"
  from assms(1) obtain f :: "string \<Rightarrow> nat" where
    f: "\<And>m p. m \<in> C \<Longrightarrow> p \<in> set (prereqs rx ts m) \<Longrightarrow> p \<in> C \<and> f p < f m"
    unfolding checked_ok_def by blast
  have sub: "?R \<subseteq> C" by (rule reachable_from_least) (use assms(2) f in auto)
  have "p \<in> ?R \<and> f p < f m" if "m \<in> ?R" "p \<in> set (prereqs rx ts m)" for m p
    using f[of m p] sub that reachable_from_step[OF that] by blast
  then show ?thesis using assms(1) sub unfolding checked_ok_def by blast
qed

lemma checked_ok_no_cycle:
  assumes "checked_ok rx ts C" and "a \<in> C"
  shows "(a, a) \<notin> (edges_of (prereqs rx ts))\<^sup>+"
proof -
  from assms(1) obtain f :: "string \<Rightarrow> nat" where
    f: "\<And>m p. m \<in> C \<Longrightarrow> p \<in> set (prereqs rx ts m) \<Longrightarrow> p \<in> C \<and> f p < f m"
    unfolding checked_ok_def by blast
  have "c \<in> C \<and> f c < f b" if "(b, c) \<in> (edges_of (prereqs rx ts))\<^sup>+" "b \<in> C" for b c
    using that
  proof (induction rule: trancl_induct)
    case (step c d)
    then have "c \<in> C" "f c < f b" "d \<in> C \<and> f d < f c" using f[of c d] by auto
    then show ?case by simp
  qed (use f in auto)
  from this[of a a] assms(2) show ?thesis by blast
qed

lemma check_prerequisites_result:
  assumes "im_contains ts name"
  shows "(is_ok (check_prerequisites rx ts name False) \<longleftrightarrow>
      checked_ok rx ts (reachable_from (prereqs rx ts) {name})) \<and>
    (case check_prerequisites rx ts name False of
       Inl e \<Rightarrow> order_error_true rx ts name e | Inr _ \<Rightarrow> True)"
proof -
  let ?R = "reachable_from (prereqs rx ts) {name}"
  let ?E = "edges_of (prereqs rx ts)"
  obtain t where t: "im_get ts name = Some t" using assms by (auto simp: im_contains_def dest: im_get_key)
  have eq: "check_prerequisites rx ts name False = rbind (check_visit rx ts t [name] {}) (\<lambda>_. Ok ())"
    using t by (simp add: check_prerequisites_def find_task_def)
  show ?thesis
  proof (cases "check_visit rx ts t [name] {}")
    case (Inr c)
    then have "checked_ok rx ts c" "set (prereqs rx ts name) \<subseteq> c" "name \<notin> c" "is_ok (prereq_expansion rx ts name)"
      using check_visit_ok[OF Inr t] by auto
    then have "checked_ok rx ts (insert name c)" using assms by (intro checked_ok_insert) (auto simp: im_contains_def)
    then have "checked_ok rx ts ?R" by (rule checked_ok_reachable) simp
    then show ?thesis using Inr eq by auto
  next
    case (Inl e)
    have true: "order_error_true rx ts name e"
      by (rule check_visit_err[OF Inl t]) (use reachable_from_start[of "{name}"] in auto)
    have False if "checked_ok rx ts ?R"
    proof -
      from that have acyclic: "(a, a) \<notin> ?E\<^sup>+" if "a \<in> ?R" for a
        using that checked_ok_no_cycle by blast
      have "?R \<subseteq> set (im_keys ts)" "\<And>n e. n \<in> ?R \<Longrightarrow> prereq_expansion rx ts n \<noteq> Inl e"
        using that by (auto simp: checked_ok_def)
      with acyclic true show False
        by (cases e) (auto simp: im_contains_def)
    qed
    then show ?thesis using Inl eq true by auto
  qed
qed

lemmas check_passes = check_prerequisites_result[THEN conjunct1]

text \<open>
  C15 (check_prerequisites_iff): the order check passes exactly when every task reached from the
  requested one through prerequisites, wildcards expanded, exists and has a list that expands, and no
  task is its own prerequisite through others. Its refusals are truthful.
\<close>

theorem check_prerequisites_iff:
  assumes "im_contains ts name"
  shows "(is_ok (check_prerequisites rx ts name False) \<longleftrightarrow>
      checked_ok rx ts (reachable_from (prereqs rx ts) {name})) \<and>
    (case check_prerequisites rx ts name False of
       Inl e \<Rightarrow> order_error_true rx ts name e | Inr _ \<Rightarrow> True)"
  by (rule check_prerequisites_result[OF assms])

theorem check_prerequisites_iff_witness:
  "is_ok (check_prerequisites \<lparr>regex_escape = id, regex_new = \<lambda>_. None\<rparr>
     [(''t'', \<lparr>t_run = None, t_prerequisites = Some [''t''], t_dependencies = None, t_description = None,
              t_group = None, t_customise = None\<rparr>)] ''t'' False) \<longleftrightarrow>
   checked_ok \<lparr>regex_escape = id, regex_new = \<lambda>_. None\<rparr>
     [(''t'', \<lparr>t_run = None, t_prerequisites = Some [''t''], t_dependencies = None, t_description = None,
              t_group = None, t_customise = None\<rparr>)]
     (reachable_from (prereqs \<lparr>regex_escape = id, regex_new = \<lambda>_. None\<rparr>
     [(''t'', \<lparr>t_run = None, t_prerequisites = Some [''t''], t_dependencies = None, t_description = None,
              t_group = None, t_customise = None\<rparr>)]) {''t''})"
  using check_prerequisites_iff[of "[(''t'', \<lparr>t_run = None, t_prerequisites = Some [''t''], t_dependencies = None,
      t_description = None, t_group = None, t_customise = None\<rparr>)]" "''t''" "\<lparr>regex_escape = id, regex_new = \<lambda>_. None\<rparr>"]
  by (simp add: im_contains_def)

section \<open>The run\<close>

datatype history_event =
    Started string "string list"
  | Prerequisites_Only string
  | Not_Starting string
  | Executed string

record run_env =
  env_tasks :: "task index_map"
  env_regex :: regex_crate
  skip_prerequisites :: bool
  interrupts :: "nat \<Rightarrow> nat"
  evaluate_own :: "string \<Rightarrow> string option"
  image_overrides :: "string option"
  run_own :: "string \<Rightarrow> string list \<Rightarrow> bool \<Rightarrow> nat \<Rightarrow> string option \<times> nat"

text \<open>\<open>clock\<close> counts the reads of the signal counter and the time tasks take; \<open>history\<close> is what happened,
  the tasks in \<open>executed_tasks\<close> being those with an \<open>Executed\<close> entry.\<close>

record run_state =
  history :: "history_event list"
  clock :: nat

type_synonym run_result = "(run_error \<times> run_state, run_state) result"

definition has_run :: "run_state \<Rightarrow> string \<Rightarrow> bool" where
  "has_run st name \<longleftrightarrow> Executed name \<in> set (history st)"

definition record_event :: "history_event \<Rightarrow> run_state \<Rightarrow> run_state" where
  "record_event e st = st\<lparr>history := history st @ [e]\<rparr>"

definition stop_if_signalled :: "run_env \<Rightarrow> nat \<Rightarrow> string \<Rightarrow> run_state \<Rightarrow> run_result" where
  "stop_if_signalled env baseline next_task st =
     (let st' = st\<lparr>clock := Suc (clock st)\<rparr> in
      if interrupts env (clock st) \<le> baseline then Ok st'
      else Err (Task_Interrupted next_task, record_event (Not_Starting next_task) st'))"

definition start_own :: "run_env \<Rightarrow> string \<Rightarrow> string list \<Rightarrow> bool \<Rightarrow> run_state \<Rightarrow> run_result" where
  "start_own env name args top_level st =
     (let st' = record_event (Started name args) st; (outcome, time) = run_own env name args top_level (clock st) in
      case outcome of
        Some e \<Rightarrow> Err (Own_Failure e, st'\<lparr>clock := time\<rparr>)
      | None \<Rightarrow> Ok (st'\<lparr>clock := time\<rparr>))"

text \<open>The task's own part, once its prerequisites have run.\<close>

definition run_own_part :: "run_env \<Rightarrow> string \<Rightarrow> task \<Rightarrow> string list \<Rightarrow> bool \<Rightarrow> nat \<Rightarrow> run_state \<Rightarrow> run_result" where
  "run_own_part env name t args top_level baseline st =
     (case evaluate_own env name of
        Some e \<Rightarrow> Err (Own_Failure e, st)
      | None \<Rightarrow>
          if t_run t = None then Ok (record_event (Prerequisites_Only name) st)
          else (case image_overrides env of
              Some e \<Rightarrow> Err (Own_Failure e, st)
            | None \<Rightarrow>
                rbind (stop_if_signalled env baseline name st) (start_own env name args top_level)))"

function run_task_scoped ::
  "run_env \<Rightarrow> string \<Rightarrow> string list \<Rightarrow> bool \<Rightarrow> string list \<Rightarrow> run_state \<Rightarrow> run_result" where
  "run_task_scoped env name args top_level in_progress st =
     (if has_run st name then Ok st
      else if name \<in> set in_progress then Err (Task_Cycle name, st)
      else rbind (map_err (\<lambda>e. (Task_Lookup e, st)) (find_task (env_tasks env) name top_level)) (\<lambda>t.
        let baseline = interrupts env (clock st); st0 = st\<lparr>clock := Suc (clock st)\<rparr> in
        rbind (map_err (\<lambda>e. (e, st0))
            (if top_level \<and> skip_prerequisites env then Ok []
             else (case t_prerequisites t of None \<Rightarrow> Ok []
                   | Some ps \<Rightarrow> expand_prerequisite_wildcards (env_regex env) (env_tasks env) ps))) (\<lambda>names.
        rbind (fold_res (\<lambda>p st.
            rbind (if has_run st p then Ok st else stop_if_signalled env baseline p st)
              (\<lambda>st. run_task_scoped env p [] False (in_progress @ [name]) st)) names st0) (\<lambda>st.
        rbind (run_own_part env name t args top_level baseline st) (\<lambda>st.
          Ok (record_event (Executed name) st))))))"
  by pat_completeness auto
termination
proof (relation "measure (\<lambda>(env, name, args, is_top, inp, st). card (set (im_keys (env_tasks env)) - set inp))", goal_cases)
  case (2 env name args is_top inp st t)
  then have "set (im_keys (env_tasks env)) - set (inp @ [name]) \<subset> set (im_keys (env_tasks env)) - set inp"
    by (auto dest: im_get_Some_key)
  then show ?case by (simp add: psubset_card_mono)
qed simp

declare run_task_scoped.simps [simp del]

definition initial_run :: run_state where
  "initial_run = \<lparr>history = [], clock = 0\<rparr>"

definition run_task :: "run_env \<Rightarrow> string \<Rightarrow> string list \<Rightarrow> run_result" where
  "run_task env task_name args =
     rbind (map_err (\<lambda>e. (e, initial_run))
         (check_prerequisites (env_regex env) (env_tasks env) task_name (skip_prerequisites env)))
       (\<lambda>_. run_task_scoped env task_name args True [] initial_run)"

section \<open>What a run does, whatever happens\<close>

text \<open>
  A history in which a task starts once at most and only after its prerequisites (\<open>pre\<close>) have been
  executed, a task counts as executed only after that, and arguments reach the requested task only.
\<close>

inductive valid_history ::
  "(string \<Rightarrow> string list) \<Rightarrow> string \<Rightarrow> string list \<Rightarrow> history_event list \<Rightarrow> bool" for pre req req_args where
  vh_nil: "valid_history pre req req_args []"
| vh_start: "valid_history pre req req_args h \<Longrightarrow> (\<And>a. Started n a \<notin> set h) \<Longrightarrow>
    (\<And>p. p \<in> set (pre n) \<Longrightarrow> Executed p \<in> set h) \<Longrightarrow> a = (if n = req then req_args else []) \<Longrightarrow>
    valid_history pre req req_args (h @ [Started n a])"
| vh_only: "valid_history pre req req_args h \<Longrightarrow> (\<And>p. p \<in> set (pre n) \<Longrightarrow> Executed p \<in> set h) \<Longrightarrow>
    valid_history pre req req_args (h @ [Prerequisites_Only n])"
| vh_not: "valid_history pre req req_args h \<Longrightarrow> valid_history pre req req_args (h @ [Not_Starting n])"
| vh_executed: "valid_history pre req req_args h \<Longrightarrow> Executed n \<notin> set h \<Longrightarrow>
    (\<And>p. p \<in> set (pre n) \<Longrightarrow> Executed p \<in> set h) \<Longrightarrow>
    Prerequisites_Only n \<in> set h \<or> (\<exists>a. Started n a \<in> set h) \<Longrightarrow>
    valid_history pre req req_args (h @ [Executed n])"

definition needed :: "run_env \<Rightarrow> string \<Rightarrow> string \<Rightarrow> string list" where
  "needed env req n = (if skip_prerequisites env \<and> n = req then [] else prereqs (env_regex env) (env_tasks env) n)"

definition between_tasks :: "run_env \<Rightarrow> string \<Rightarrow> string list \<Rightarrow> string list \<Rightarrow> run_state \<Rightarrow> bool" where
  "between_tasks env req req_args in_progress st \<longleftrightarrow>
     valid_history (needed env req) req req_args (history st) \<and>
     (\<forall>n. Executed n \<in> set (history st) \<longrightarrow> n \<notin> set in_progress) \<and>
     (\<forall>n a. Started n a \<in> set (history st) \<longrightarrow> Executed n \<in> set (history st))"

definition scoped_call :: "run_env \<Rightarrow> string \<Rightarrow> string list \<Rightarrow> string \<Rightarrow> string list \<Rightarrow> bool \<Rightarrow> string list \<Rightarrow> bool" where
  "scoped_call env req req_args name args top_level in_progress \<longleftrightarrow>
     (if top_level then name = req \<and> args = req_args \<and> in_progress = []
      else req \<in> set in_progress \<and> args = [])"

lemma stop_if_signalled_history:
  "stop_if_signalled env b n st = Inr st' \<Longrightarrow> history st' = history st"
  "stop_if_signalled env b n st = Inl (e, st') \<Longrightarrow> history st' = history st @ [Not_Starting n]"
  by (auto simp: stop_if_signalled_def record_event_def Let_def split: if_splits)

lemma start_own_history:
  "start_own env name args is_top st = Inr st' \<Longrightarrow> history st' = history st @ [Started name args]"
  "start_own env name args is_top st = Inl (e, st') \<Longrightarrow> history st' = history st @ [Started name args]"
  by (cases "run_own env name args is_top (clock st)",
      auto simp: start_own_def record_event_def Let_def split: option.splits)+

lemma run_own_part_ok:
  assumes "run_own_part env name t args is_top b st = Inr st'"
  shows "history st' = history st @ [Prerequisites_Only name] \<or> history st' = history st @ [Started name args]"
  using assms
  by (auto simp: run_own_part_def record_event_def split: option.splits if_splits)
    (metis stop_if_signalled_history(1) start_own_history(1))

lemma run_own_part_err:
  assumes "run_own_part env name t args is_top b st = Inl (e, st')"
  shows "history st' \<in> {history st, history st @ [Not_Starting name], history st @ [Started name args]}"
  using assms
  by (auto simp: run_own_part_def record_event_def split: option.splits if_splits
      dest: stop_if_signalled_history(2)) (metis stop_if_signalled_history(1) start_own_history(2))

text \<open>One step of the prerequisite loop, and the names it runs over.\<close>

definition prerequisite_step :: "run_env \<Rightarrow> nat \<Rightarrow> string list \<Rightarrow> string \<Rightarrow> run_state \<Rightarrow> run_result" where
  "prerequisite_step env baseline in_progress p st =
     rbind (if has_run st p then Ok st else stop_if_signalled env baseline p st)
       (\<lambda>st. run_task_scoped env p [] False in_progress st)"

definition prerequisite_names :: "run_env \<Rightarrow> task \<Rightarrow> bool \<Rightarrow> (run_error, string list) result" where
  "prerequisite_names env t top_level =
     (if top_level \<and> skip_prerequisites env then Ok []
      else (case t_prerequisites t of None \<Rightarrow> Ok []
            | Some ps \<Rightarrow> expand_prerequisite_wildcards (env_regex env) (env_tasks env) ps))"

lemma run_task_scoped_unfold:
  "run_task_scoped env name args is_top inp st =
     (if has_run st name then Ok st
      else if name \<in> set inp then Err (Task_Cycle name, st)
      else rbind (map_err (\<lambda>e. (Task_Lookup e, st)) (find_task (env_tasks env) name is_top)) (\<lambda>t.
        rbind (map_err (\<lambda>e. (e, st\<lparr>clock := Suc (clock st)\<rparr>)) (prerequisite_names env t is_top)) (\<lambda>names.
        rbind (fold_res (prerequisite_step env (interrupts env (clock st)) (inp @ [name])) names
                 (st\<lparr>clock := Suc (clock st)\<rparr>)) (\<lambda>st2.
        rbind (run_own_part env name t args is_top (interrupts env (clock st)) st2) (\<lambda>st3.
          Ok (record_event (Executed name) st3))))))"
  by (subst run_task_scoped.simps) (simp add: Let_def prerequisite_names_def prerequisite_step_def[abs_def])

lemma prerequisite_names_needed:
  assumes "prerequisite_names env t is_top = Inr names" and "im_get (env_tasks env) name = Some t"
    and "scoped_call env req req_args name args is_top inp" and "name \<notin> set inp"
  shows "needed env req name = names"
  using assms by (auto simp: prerequisite_names_def needed_def prereqs_def prereq_expansion_def scoped_call_def
      split: if_splits option.splits)

lemma executed_snoc [simp]:
  "Executed n \<in> set (history (record_event e st)) \<longleftrightarrow> e = Executed n \<or> Executed n \<in> set (history st)"
  by (auto simp: record_event_def)

lemma between_clock [simp]: "between_tasks env req ra inp (st\<lparr>clock := c\<rparr>) \<longleftrightarrow> between_tasks env req ra inp st"
  by (simp add: between_tasks_def)

lemma between_same: "history st' = history st \<Longrightarrow> between_tasks env req ra inp st' \<longleftrightarrow> between_tasks env req ra inp st"
  by (simp add: between_tasks_def)

text \<open>The task's own part, entered with its prerequisites executed.\<close>

lemma own_part_finish:
  assumes own: "run_own_part env name t args is_top b st2 = Inr st3" and inv: "between_tasks env req ra (inp @ [name]) st2"
    and pre: "\<And>p. p \<in> set (needed env req name) \<Longrightarrow> Executed p \<in> set (history st2)"
    and args: "args = (if name = req then ra else [])" and new: "name \<notin> set inp"
  shows "between_tasks env req ra inp (record_event (Executed name) st3)"
proof -
  let ?V = "valid_history (needed env req) req ra"
  have fresh: "Executed name \<notin> set (history st2)" "Started name a \<notin> set (history st2)" for a
    using inv by (auto simp: between_tasks_def)
  have v2: "?V (history st2)" using inv by (simp add: between_tasks_def)
  have "?V (history st3) \<and> (Prerequisites_Only name \<in> set (history st3) \<or> (\<exists>a. Started name a \<in> set (history st3)))"
    using run_own_part_ok[OF own] vh_only[OF v2 pre] vh_start[OF v2 fresh(2) pre args] by auto
  moreover have "Executed n \<in> set (history st3) \<longleftrightarrow> Executed n \<in> set (history st2)" for n
    using run_own_part_ok[OF own] by auto
  ultimately have "?V (history st3 @ [Executed name])"
    using fresh pre by (intro vh_executed) auto
  moreover have "n \<notin> set inp" if "Executed n \<in> set (history st3 @ [Executed name])" for n
    using that run_own_part_ok[OF own] inv new by (auto simp: between_tasks_def)
  moreover have "Executed n \<in> set (history st3 @ [Executed name])" if "Started n a \<in> set (history st3 @ [Executed name])" for n a
  proof (cases "n = name")
    case False
    with that have "Started n a \<in> set (history st2)" using run_own_part_ok[OF own] by auto
    with inv have "Executed n \<in> set (history st2)" unfolding between_tasks_def by blast
    then show ?thesis using run_own_part_ok[OF own] by auto
  qed simp
  ultimately show ?thesis unfolding between_tasks_def record_event_def by simp
qed

lemma own_part_fails:
  assumes own: "run_own_part env name t args is_top b st2 = Inl (e, st3)" and inv: "between_tasks env req ra (inp @ [name]) st2"
    and pre: "\<And>p. p \<in> set (needed env req name) \<Longrightarrow> Executed p \<in> set (history st2)"
    and args: "args = (if name = req then ra else [])"
  shows "valid_history (needed env req) req ra (history st3)"
proof -
  have v2: "valid_history (needed env req) req ra (history st2)" using inv by (simp add: between_tasks_def)
  have "Started name a \<notin> set (history st2)" for a using inv by (auto simp: between_tasks_def)
  then show ?thesis using run_own_part_err[OF own] v2 vh_not[OF v2] vh_start[OF v2 _ pre args] by auto
qed

text \<open>The outcome of a call: on success the state is between tasks again with the task executed, on
  failure the history is valid all the same.\<close>

definition good_outcome :: "run_env \<Rightarrow> string \<Rightarrow> string list \<Rightarrow> string list \<Rightarrow> string \<Rightarrow> run_state \<Rightarrow> run_result \<Rightarrow> bool" where
  "good_outcome env req ra inp name st r \<longleftrightarrow>
     (\<forall>st'. r = Inr st' \<longrightarrow> between_tasks env req ra inp st' \<and> Executed name \<in> set (history st') \<and>
        set (history st) \<subseteq> set (history st')) \<and>
     (\<forall>e st'. r = Inl (e, st') \<longrightarrow> valid_history (needed env req) req ra (history st'))"

lemma prerequisite_step_good:
  assumes "\<And>u. between_tasks env req ra inp u \<Longrightarrow> good_outcome env req ra inp p u (run_task_scoped env p [] False inp u)"
    and "between_tasks env req ra inp u"
  shows "good_outcome env req ra inp p u (prerequisite_step env b inp p u)"
proof (cases "if has_run u p then Ok u else stop_if_signalled env b p u")
  case (Inl es)
  obtain e u' where es: "es = (e, u')" by (cases es)
  with Inl have "history u' = history u @ [Not_Starting p]"
    by (auto split: if_splits dest: stop_if_signalled_history(2))
  moreover have "prerequisite_step env b inp p u = Inl (e, u')" using Inl es by (simp add: prerequisite_step_def)
  ultimately show ?thesis using assms(2) by (auto simp: good_outcome_def between_tasks_def intro: vh_not)
next
  case (Inr u')
  then have h: "history u' = history u" by (auto split: if_splits dest: stop_if_signalled_history(1))
  moreover have "prerequisite_step env b inp p u = run_task_scoped env p [] False inp u'"
    using Inr by (simp add: prerequisite_step_def)
  ultimately show ?thesis
    using assms(1)[of u'] assms(2) between_same[OF h] by (simp add: good_outcome_def)
qed

lemma run_task_scoped_good:
  assumes "between_tasks env req ra inp st" and "scoped_call env req ra name args is_top inp"
  shows "good_outcome env req ra inp name st (run_task_scoped env name args is_top inp st)"
  using assms
proof (induction "card (set (im_keys (env_tasks env)) - set inp)" arbitrary: name args is_top inp st rule: less_induct)
  case less
  let ?b = "interrupts env (clock st)"
  let ?st0 = "st\<lparr>clock := Suc (clock st)\<rparr>"
  let ?step = "prerequisite_step env ?b (inp @ [name])"
  have valid: "valid_history (needed env req) req ra (history st)" using less(2) by (simp add: between_tasks_def)
  show ?case
  proof (cases "has_run st name \<or> name \<in> set inp \<or> im_get (env_tasks env) name = None")
    case True
    then show ?thesis
      using less(2) valid
      by (auto simp: run_task_scoped_unfold[of env name] has_run_def good_outcome_def find_task_def split: if_splits)
  next
    case False
    then obtain t where t: "im_get (env_tasks env) name = Some t" and run: "\<not> has_run st name"
      and new: "name \<notin> set inp" by blast
    have args: "args = (if name = req then ra else [])"
      using less(3) new by (auto simp: scoped_call_def split: if_splits)
    have inv0: "between_tasks env req ra (inp @ [name]) ?st0"
      using less(2) run by (auto simp: between_tasks_def has_run_def)
    have "set (im_keys (env_tasks env)) - set (inp @ [name]) \<subset> set (im_keys (env_tasks env)) - set inp"
      using new im_get_Some_key[OF t] by auto
    then have smaller: "card (set (im_keys (env_tasks env)) - set (inp @ [name])) < card (set (im_keys (env_tasks env)) - set inp)"
      by (simp add: psubset_card_mono)
    have below: "scoped_call env req ra p [] False (inp @ [name])" for p
      using less(3) by (auto simp: scoped_call_def split: if_splits)
    have step: "good_outcome env req ra (inp @ [name]) p u (?step p u)"
      if "between_tasks env req ra (inp @ [name]) u" for p u
      by (rule prerequisite_step_good[OF less(1)[OF smaller _ below] that])
    show ?thesis
    proof (cases "prerequisite_names env t is_top")
      case (Inl e)
      then show ?thesis using t run new valid by (simp add: run_task_scoped_unfold[of env name] good_outcome_def)
    next
      case names: (Inr names)
      have pre: "needed env req name = names" by (rule prerequisite_names_needed[OF names t less(3) new])
      have eq: "run_task_scoped env name args is_top inp st =
          rbind (fold_res ?step names ?st0) (\<lambda>st2. rbind (run_own_part env name t args is_top ?b st2)
            (\<lambda>st3. Ok (record_event (Executed name) st3)))"
        using t run new names by (simp add: run_task_scoped_unfold[of env name])
      show ?thesis
      proof (cases "fold_res ?step names ?st0")
        case (Inl es)
        obtain p u where "between_tasks env req ra (inp @ [name]) u" and "?step p u = Inl es"
          by (rule fold_res_Err[OF Inl, of "between_tasks env req ra (inp @ [name])", OF inv0])
            (use step in \<open>auto simp: good_outcome_def\<close>)
        with step[of u p] show ?thesis using Inl eq by (cases es) (auto simp: good_outcome_def)
      next
        case (Inr st2)
        have st2: "between_tasks env req ra (inp @ [name]) st2" "\<And>p. p \<in> set names \<Longrightarrow> Executed p \<in> set (history st2)"
          "set (history st) \<subseteq> set (history st2)"
          using fold_res_inv_prefix[OF Inr, of "\<lambda>ys u. between_tasks env req ra (inp @ [name]) u \<and>
            (\<forall>p \<in> set ys. Executed p \<in> set (history u)) \<and> set (history st) \<subseteq> set (history u)"] inv0 step
          by (fastforce simp: good_outcome_def)+
        then have pre2: "\<And>p. p \<in> set (needed env req name) \<Longrightarrow> Executed p \<in> set (history st2)" using pre by simp
        show ?thesis
        proof (cases "run_own_part env name t args is_top ?b st2")
          case own: (Inl es)
          with own_part_fails[OF _ st2(1) pre2 args] show ?thesis
            using eq Inr by (cases es) (auto simp: good_outcome_def)
        next
          case own: (Inr st3)
          have "set (history st2) \<subseteq> set (history st3)" using run_own_part_ok[OF own] by auto
          with own_part_finish[OF own st2(1) pre2 args new] st2(3) show ?thesis
            using eq Inr own by (auto simp: good_outcome_def record_event_def)
        qed
      qed
    qed
  qed
qed

definition final_state :: "run_result \<Rightarrow> run_state" where
  "final_state r = (case r of Inl (_, st) \<Rightarrow> st | Inr st \<Rightarrow> st)"

text \<open>
  C13 (run_task_history_valid): whatever fails and whenever signals arrive, in the history of a run no
  task starts twice, none starts or counts as executed before all its prerequisites have been executed
  (none are needed for the requested task under \<open>--skip-prerequisites\<close>), and only the requested task
  is given the additional arguments.
\<close>

theorem run_task_history_valid:
  "valid_history (needed env task_name) task_name args (history (final_state (run_task env task_name args)))"
proof (cases "check_prerequisites (env_regex env) (env_tasks env) task_name (skip_prerequisites env)")
  case (Inl e)
  then show ?thesis by (simp add: run_task_def final_state_def initial_run_def vh_nil)
next
  case (Inr u)
  have start: "between_tasks env task_name args [] initial_run"
    by (simp add: between_tasks_def initial_run_def vh_nil)
  have "good_outcome env task_name args [] task_name initial_run
      (run_task_scoped env task_name args True [] initial_run)"
    by (rule run_task_scoped_good[OF start]) (simp add: scoped_call_def)
  then show ?thesis
    using Inr by (cases "run_task_scoped env task_name args True [] initial_run")
      (auto simp: run_task_def final_state_def good_outcome_def between_tasks_def)
qed

section \<open>A checked run completes\<close>

definition signalled :: "run_env \<Rightarrow> bool" where
  "signalled env \<longleftrightarrow> (\<exists>i j. interrupts env i < interrupts env j)"

definition own_fails :: "run_env \<Rightarrow> string \<Rightarrow> bool" where
  "own_fails env m \<longleftrightarrow> (\<exists>n. evaluate_own env n = Some m) \<or> image_overrides env = Some m \<or>
     (\<exists>n a is_top c. fst (run_own env n a is_top c) = Some m)"

fun fair_error :: "run_env \<Rightarrow> run_error \<Rightarrow> bool" where
  "fair_error env (Task_Interrupted n) \<longleftrightarrow> signalled env"
| "fair_error env (Own_Failure m) \<longleftrightarrow> own_fails env m"
| "fair_error env _ \<longleftrightarrow> False"

lemma stop_if_signalled_fair:
  "stop_if_signalled env (interrupts env c) n st = Inl (e, st') \<Longrightarrow> fair_error env e"
  by (auto simp: stop_if_signalled_def Let_def signalled_def not_le split: if_splits) blast

lemma start_own_fair: "start_own env n a is_top st = Inl (e, st') \<Longrightarrow> fair_error env e"
proof -
  assume "start_own env n a is_top st = Inl (e, st')"
  then obtain m where "fst (run_own env n a is_top (clock st)) = Some m" and "e = Own_Failure m"
    by (cases "run_own env n a is_top (clock st)") (auto simp: start_own_def Let_def split: option.splits)
  moreover from this have "own_fails env m" unfolding own_fails_def by blast
  ultimately show ?thesis by simp
qed

lemma run_own_part_fair:
  "run_own_part env n t a is_top (interrupts env c) st = Inl (e, st') \<Longrightarrow> fair_error env e"
  by (auto simp: run_own_part_def own_fails_def dest: stop_if_signalled_fair start_own_fair
      split: option.splits if_splits)

lemma run_task_scoped_fair:
  assumes "run_task_scoped env name args is_top inp st = Inl (e, st')" and "im_contains (env_tasks env) name"
    and "is_top \<and> skip_prerequisites env \<or> (name \<in> C \<and> checked_ok (env_regex env) (env_tasks env) C)"
    and "\<And>q. q \<in> set inp \<Longrightarrow> q \<in> C \<and> (q, name) \<in> (edges_of (prereqs (env_regex env) (env_tasks env)))\<^sup>+"
    and "is_top \<Longrightarrow> inp = []"
  shows "fair_error env e"
  using assms
proof (induction "card (set (im_keys (env_tasks env)) - set inp)" arbitrary: name args is_top inp st e st' rule: less_induct)
  case less
  let ?E = "edges_of (prereqs (env_regex env) (env_tasks env))"
  have run: "\<not> has_run st name" using less(2) by (auto simp: run_task_scoped_unfold[of env name])
  have new: "name \<notin> set inp"
  proof
    assume "name \<in> set inp"
    with less(5)[of name] less(4) less(6) show False
      using checked_ok_no_cycle[of "env_regex env" "env_tasks env" C name] by (cases is_top) auto
  qed
  obtain t where t: "im_get (env_tasks env) name = Some t"
    using less(3) by (auto simp: im_contains_def dest: im_get_key)
  have names_ok: "\<exists>names. prerequisite_names env t is_top = Inr names \<and>
      (is_top \<and> skip_prerequisites env \<longrightarrow> names = []) \<and>
      (\<not> (is_top \<and> skip_prerequisites env) \<longrightarrow> names = prereqs (env_regex env) (env_tasks env) name)"
  proof (cases "is_top \<and> skip_prerequisites env")
    case True
    then show ?thesis by (simp add: prerequisite_names_def)
  next
    case False
    then have "is_ok (prereq_expansion (env_regex env) (env_tasks env) name)"
      using less(4) by (auto simp: checked_ok_def)
    moreover have "prereq_expansion (env_regex env) (env_tasks env) name = prerequisite_names env t is_top"
      using False t by (auto simp: prereq_expansion_def prerequisite_names_def)
    ultimately show ?thesis using False by (auto simp: is_ok_iff prereqs_def)
  qed
  then obtain names where names: "prerequisite_names env t is_top = Inr names"
    and skip: "is_top \<and> skip_prerequisites env \<Longrightarrow> names = []"
    and full: "\<not> (is_top \<and> skip_prerequisites env) \<Longrightarrow> names = prereqs (env_regex env) (env_tasks env) name"
    by blast
  let ?b = "interrupts env (clock st)"
  let ?step = "prerequisite_step env ?b (inp @ [name])"
  let ?st0 = "st\<lparr>clock := Suc (clock st)\<rparr>"
  have eq: "run_task_scoped env name args is_top inp st =
      rbind (fold_res ?step names ?st0) (\<lambda>st2. rbind (run_own_part env name t args is_top ?b st2)
        (\<lambda>st3. Ok (record_event (Executed name) st3)))"
    using t run new names by (simp add: run_task_scoped_unfold[of env name])
  show ?case
  proof (cases "fold_res ?step names ?st0")
    case (Inr st2)
    then show ?thesis using less(2) eq run_own_part_fair by auto
  next
    case (Inl es)
    with less(2) eq have "fold_res ?step names ?st0 = Inl (e, st')" by simp
    then obtain p u where p: "p \<in> set names" and bad: "?step p u = Inl (e, st')"
      by (rule fold_res_Err[where P = "\<lambda>_. True"]) auto
    then have nsk: "\<not> (is_top \<and> skip_prerequisites env)" using skip by auto
    then have C: "name \<in> C" "checked_ok (env_regex env) (env_tasks env) C" using less(4) by auto
    from p full[OF nsk] have edge: "(name, p) \<in> ?E" by simp
    have pC: "p \<in> C" "im_contains (env_tasks env) p"
      using C edge unfolding checked_ok_def im_contains_def by auto
    consider "stop_if_signalled env ?b p u = Inl (e, st')"
      | u' where "run_task_scoped env p [] False (inp @ [name]) u' = Inl (e, st')"
      using bad by (auto simp: prerequisite_step_def split: if_splits)
    then show ?thesis
    proof cases
      case 1
      then show ?thesis by (rule stop_if_signalled_fair)
    next
      case 2
      have "set (im_keys (env_tasks env)) - set (inp @ [name]) \<subset> set (im_keys (env_tasks env)) - set inp"
        using new im_get_Some_key[OF t] by auto
      then have smaller: "card (set (im_keys (env_tasks env)) - set (inp @ [name])) < card (set (im_keys (env_tasks env)) - set inp)"
        by (simp add: psubset_card_mono)
      have anc: "q \<in> C \<and> (q, p) \<in> ?E\<^sup>+" if "q \<in> set (inp @ [name])" for q
        using that less(5)[of q] C(1) edge trancl_into_trancl[OF _ edge] by (auto simp del: in_edges_of)
      show ?thesis by (rule less(1)[OF smaller 2 pC(2) _ anc]) (use C pC in auto)
    qed
  qed
qed

text \<open>
  C14 (run_task_completes): once the order check has passed, a run either executes the requested task
  or ends for one of two reasons: a signal arrived, or a task's own part failed. The lookup, wildcard
  and cycle errors inside the run, the backstop among them, cannot happen.
\<close>

theorem run_task_completes:
  assumes "check_prerequisites (env_regex env) (env_tasks env) task_name (skip_prerequisites env) = Inr ()"
  shows "case run_task env task_name args of
      Inr st \<Rightarrow> Executed task_name \<in> set (history st)
    | Inl (e, st) \<Rightarrow> fair_error env e"
proof -
  let ?r = "run_task_scoped env task_name args True [] initial_run"
  have run: "run_task env task_name args = ?r" using assms by (simp add: run_task_def)
  have declared: "im_contains (env_tasks env) task_name"
    using assms by (auto simp: check_prerequisites_def im_contains_def dest: im_get_Some_key)
  have good: "good_outcome env task_name args [] task_name initial_run ?r"
    by (rule run_task_scoped_good) (simp_all add: between_tasks_def initial_run_def vh_nil scoped_call_def)
  have "fair_error env e" if "?r = Inl (e, st)" for e st
  proof (rule run_task_scoped_fair[OF that declared, of "reachable_from (prereqs (env_regex env) (env_tasks env)) {task_name}"])
    show "True \<and> skip_prerequisites env \<or>
      task_name \<in> reachable_from (prereqs (env_regex env) (env_tasks env)) {task_name} \<and>
      checked_ok (env_regex env) (env_tasks env) (reachable_from (prereqs (env_regex env) (env_tasks env)) {task_name})"
      using assms check_passes[OF declared, of "env_regex env"] reachable_from_start[of "{task_name}"] by (cases "skip_prerequisites env") auto
  qed auto
  then show ?thesis using good run by (cases ?r) (auto simp: good_outcome_def)
qed

theorem run_task_completes_witness:
  "case run_task
      \<lparr>env_tasks = [(''t'', \<lparr>t_run = None, t_prerequisites = None, t_dependencies = None, t_description = None,
                            t_group = None, t_customise = None\<rparr>)],
       env_regex = \<lparr>regex_escape = id, regex_new = \<lambda>_. None\<rparr>, skip_prerequisites = False, interrupts = \<lambda>_. 0,
       evaluate_own = \<lambda>_. None, image_overrides = None, run_own = \<lambda>_ _ _ c. (None, c)\<rparr> ''t'' [] of
     Inr st \<Rightarrow> Executed ''t'' \<in> set (history st)
   | Inl (e, st) \<Rightarrow> fair_error
      \<lparr>env_tasks = [(''t'', \<lparr>t_run = None, t_prerequisites = None, t_dependencies = None, t_description = None,
                            t_group = None, t_customise = None\<rparr>)],
       env_regex = \<lparr>regex_escape = id, regex_new = \<lambda>_. None\<rparr>, skip_prerequisites = False, interrupts = \<lambda>_. 0,
       evaluate_own = \<lambda>_. None, image_overrides = None, run_own = \<lambda>_ _ _ c. (None, c)\<rparr> e"
  by (rule run_task_completes) (simp add: check_prerequisites_def check_visit.simps)

section \<open>What a wildcard means\<close>

text \<open>
  The documented meaning of the patterns the program builds: each escaped segment matches itself and
  \<^verbatim>\<open>.*\<close> matches any text without a line feed.
\<close>

fun segments_match :: "string list \<Rightarrow> string \<Rightarrow> bool" where
  "segments_match [] s \<longleftrightarrow> False"
| "segments_match [l] s \<longleftrightarrow> s = l"
| "segments_match (l # ls) s \<longleftrightarrow> (\<exists>gap rest. s = l @ gap @ rest \<and> CHR 10 \<notin> set gap \<and> segments_match ls rest)"

definition escapes_literally :: "regex_crate \<Rightarrow> bool" where
  "escapes_literally rx \<longleftrightarrow> (\<forall>ls. ls \<noteq> [] \<longrightarrow>
     regex_new rx (''^'' @ join ''.*'' (map (regex_escape rx) ls) @ ''$'') = Some (segments_match ls))"

text \<open>The reference: \<^verbatim>\<open>*\<close> stands for any text, every other character for itself.\<close>

fun wildcard_matches :: "string \<Rightarrow> string \<Rightarrow> bool" where
  "wildcard_matches [] s \<longleftrightarrow> s = []"
| "wildcard_matches (c # p) [] \<longleftrightarrow> c = CHR ''*'' \<and> wildcard_matches p []"
| "wildcard_matches (c # p) (d # s) \<longleftrightarrow>
     (if c = CHR ''*'' then wildcard_matches p (d # s) \<or> wildcard_matches (c # p) s
      else c = d \<and> wildcard_matches p s)"

lemma wildcard_star:
  "wildcard_matches (CHR ''*'' # p) s \<longleftrightarrow> (\<exists>gap rest. s = gap @ rest \<and> wildcard_matches p rest)"
proof (induction s)
  case (Cons d s)
  show ?case
  proof
    assume "wildcard_matches (CHR ''*'' # p) (d # s)"
    then consider "wildcard_matches p (d # s)" | gap rest where "s = gap @ rest" "wildcard_matches p rest"
      using Cons by auto
    then show "\<exists>gap rest. d # s = gap @ rest \<and> wildcard_matches p rest"
    proof cases
      case 1
      then have "d # s = [] @ (d # s) \<and> wildcard_matches p (d # s)" by simp
      then show ?thesis by blast
    next
      case (2 gap rest)
      then have "d # s = (d # gap) @ rest \<and> wildcard_matches p rest" by simp
      then show ?thesis by blast
    qed
  next
    assume "\<exists>gap rest. d # s = gap @ rest \<and> wildcard_matches p rest"
    then obtain gap rest where "d # s = gap @ rest" "wildcard_matches p rest" by blast
    with Cons show "wildcard_matches (CHR ''*'' # p) (d # s)" by (cases gap) auto
  qed
qed simp

lemma segments_cons: "ls \<noteq> [] \<Longrightarrow> segments_match ((c # l) # ls) s \<longleftrightarrow> (\<exists>s'. s = c # s' \<and> segments_match (l # ls) s')"
  by (cases ls) auto

lemma segments_wildcard: "CHR 10 \<notin> set s \<Longrightarrow> segments_match (split (CHR ''*'') p) s \<longleftrightarrow> wildcard_matches p s"
proof (induction p arbitrary: s)
  case (Cons c p)
  obtain l ls where split: "split (CHR ''*'') p = l # ls" by (meson list.exhaust split_not_Nil)
  show ?case
  proof (cases "c = CHR ''*''")
    case True
    have "segments_match (split (CHR ''*'') (c # p)) s \<longleftrightarrow>
        (\<exists>gap rest. s = gap @ rest \<and> segments_match (split (CHR ''*'') p) rest)"
      using True Cons.prems split by auto blast
    also have "\<dots> \<longleftrightarrow> (\<exists>gap rest. s = gap @ rest \<and> wildcard_matches p rest)"
    proof -
      have "segments_match (split (CHR ''*'') p) rest \<longleftrightarrow> wildcard_matches p rest" if "s = gap @ rest" for gap rest
        using that Cons by simp
      then show ?thesis by blast
    qed
    finally show ?thesis using True by (simp add: wildcard_star)
  next
    case False
    have "segments_match ((c # l) # ls) s \<longleftrightarrow> (\<exists>s'. s = c # s' \<and> segments_match (l # ls) s')"
      by (cases ls) auto
    then show ?thesis using False split Cons by (cases s) auto
  qed
qed simp

lemma expand_all:
  assumes "\<And>p. p \<in> set ps \<Longrightarrow> expand_one rx ts p = Inr (f p)"
  shows "fold_res (\<lambda>p expanded. rbind (expand_one rx ts p) (\<lambda>names. Ok (expanded @ names))) ps acc = Inr (acc @ concat (map f ps))"
  using assms by (induction ps arbitrary: acc) auto

text \<open>
  C16 (expand_wildcards_correct): prerequisites expand in order: an entry without \<^verbatim>\<open>*\<close> stands for
  itself, whether or not such a task exists, and one with \<^verbatim>\<open>*\<close> for the tasks whose whole name it
  matches, in name order, characters special to regular expressions standing for themselves.
\<close>

theorem expand_wildcards_correct:
  assumes "escapes_literally rx" and "\<And>n. n \<in> set (im_keys ts) \<Longrightarrow> CHR 10 \<notin> set n"
  shows "expand_prerequisite_wildcards rx ts ps =
    Inr (concat (map (\<lambda>p. if CHR ''*'' \<in> set p then sort (filter (wildcard_matches p) (im_keys ts)) else [p]) ps))"
proof -
  have "filter (segments_match (split (CHR ''*'') p)) (im_keys ts) = filter (wildcard_matches p) (im_keys ts)" for p
    using assms(2) segments_wildcard by (intro filter_cong) auto
  then have each: "expand_one rx ts p = Inr (if CHR ''*'' \<in> set p then sort (filter (wildcard_matches p) (im_keys ts)) else [p])" for p
    using assms(1) by (simp add: expand_one_def wildcard_to_regex_def wildcard_pattern_def escapes_literally_def)
  show ?thesis unfolding expand_prerequisite_wildcards_def using expand_all[OF each, of ps "[]"] by simp
qed

text \<open>A regular expression engine for patterns of this shape: a character is escaped with a backslash.\<close>

definition escape_all :: "string \<Rightarrow> string" where
  "escape_all l = concat (map (\<lambda>c. [CHR 92, c]) l)"

fun decode_segments :: "string \<Rightarrow> string list" where
  "decode_segments (c # d # r) =
     (if c = CHR 92 then (d # hd (decode_segments r)) # tl (decode_segments r)
      else if c = CHR 46 then [] # decode_segments r else [[]])"
| "decode_segments _ = [[]]"

definition segment_engine :: regex_crate where
  "segment_engine = \<lparr>regex_escape = escape_all, regex_new = \<lambda>p. Some (segments_match (decode_segments (tl p)))\<rparr>"

lemma decode_not_Nil: "decode_segments r \<noteq> []"
  by (cases r rule: decode_segments.cases) auto

lemma decode_escaped:
  "decode_segments (escape_all l @ r) = (l @ hd (decode_segments r)) # tl (decode_segments r)"
proof (induction l)
  case (Cons c l)
  then show ?case by (simp add: escape_all_def)
qed (simp add: escape_all_def decode_not_Nil)

lemma decode_join: "ls \<noteq> [] \<Longrightarrow> decode_segments (join ''.*'' (map escape_all ls) @ ''$'') = ls"
proof (induction ls)
  case (Cons l ls)
  show ?case
  proof (cases ls)
    case Nil
    then show ?thesis by (simp add: decode_escaped)
  next
    case (Cons a as)
    then have "join ''.*'' (map escape_all (l # ls)) @ ''$'' =
        escape_all l @ CHR 46 # CHR 42 # (join ''.*'' (map escape_all ls) @ ''$'')"
      by (simp add: join_Cons)
    then show ?thesis using Cons.IH Cons by (simp only: decode_escaped) simp
  qed
qed simp

lemma segment_engine_literal: "escapes_literally segment_engine"
  by (simp add: escapes_literally_def segment_engine_def decode_join)

theorem expand_wildcards_correct_witness:
  "expand_prerequisite_wildcards segment_engine
     [(''b:x'', \<lparr>t_run = None, t_prerequisites = None, t_dependencies = None, t_description = None, t_group = None, t_customise = None\<rparr>),
      (''a:x'', \<lparr>t_run = None, t_prerequisites = None, t_dependencies = None, t_description = None, t_group = None, t_customise = None\<rparr>)]
     [''*:x'', ''z''] = Inr [''a:x'', ''b:x'', ''z'']"
  by (subst expand_wildcards_correct[OF segment_engine_literal]) (auto simp: less_char_def less_eq_char_def)

end
