(* ===== verification/Signals.thy ===== *)
theory Signals
  imports Ratect_Prelude "HOL-Library.Word"
begin

text \<open>
  \<open>src/ratect-core/src/interrupt.rs\<close>: the signals a run traps, the tracker that counts them, and waiting for
  a number of them. Recording a signal is a sequence of atomic operations and several listeners record
  at once, so the tracker, the recorders and one waiter form a state machine whose steps interleave.
  \<open>tokio\<close>'s \<open>Notify\<close> is an argument, with the documented behaviour of \<open>notify_waiters\<close> as a hypothesis.
\<close>

section \<open>The signals\<close>

datatype termination_signal = Interrupt | Terminate | Hangup

definition ALL_signals :: "termination_signal list" where
  "ALL_signals = [Interrupt, Terminate, Hangup]"

fun signal_number :: "termination_signal \<Rightarrow> nat" where
  "signal_number Interrupt = 2"
| "signal_number Terminate = 15"
| "signal_number Hangup = 1"

definition signal_exit_code :: "termination_signal \<Rightarrow> 8 word" where
  "signal_exit_code s = 128 + of_nat (signal_number s)"

fun ended_run :: "termination_signal \<Rightarrow> string" where
  "ended_run Interrupt = ''Interrupted''"
| "ended_run Terminate = ''Terminated by SIGTERM''"
| "ended_run Hangup = ''Terminated by SIGHUP''"

definition not_starting :: "termination_signal \<Rightarrow> string \<Rightarrow> string" where
  "not_starting s task = ended_run s @ ''; not starting task '' @ [CHR 39] @ task @ [CHR 39] @ ''.''"

fun send_again :: "termination_signal \<Rightarrow> string" where
  "send_again Interrupt = ''Press Ctrl+C again''"
| "send_again Terminate = ''Send SIGTERM again''"
| "send_again Hangup = ''Send SIGHUP again''"

definition from_number :: "nat \<Rightarrow> termination_signal" where
  "from_number n = (case List.find (\<lambda>s. signal_number s = n) ALL_signals of Some s \<Rightarrow> s | None \<Rightarrow> Interrupt)"

lemma from_number_number [simp]: "from_number (signal_number s) = s"
  by (cases s) (simp_all add: from_number_def ALL_signals_def)

section \<open>The tracker\<close>

record tracker =
  signal_count :: nat
  sigint_count :: nat
  last_number :: nat

definition new_tracker :: tracker where
  "new_tracker = \<lparr>signal_count = 0, sigint_count = 0, last_number = 0\<rparr>"

definition last_signal :: "tracker \<Rightarrow> termination_signal" where
  "last_signal t = from_number (last_number t)"

text \<open>The atomic operations of \<open>record_signal\<close>, in its order.\<close>

datatype record_op = Store_Last termination_signal | Add_Interrupt | Add_Count | Notify_Waiters

definition record_ops :: "termination_signal \<Rightarrow> record_op list" where
  "record_ops s = Store_Last s # (if s = Interrupt then [Add_Interrupt] else []) @ [Add_Count, Notify_Waiters]"

fun apply_op :: "record_op \<Rightarrow> tracker \<Rightarrow> tracker" where
  "apply_op (Store_Last s) t = t\<lparr>last_number := signal_number s\<rparr>"
| "apply_op Add_Interrupt t = t\<lparr>sigint_count := Suc (sigint_count t)\<rparr>"
| "apply_op Add_Count t = t\<lparr>signal_count := Suc (signal_count t)\<rparr>"
| "apply_op Notify_Waiters t = t"

definition record_signal :: "termination_signal \<Rightarrow> tracker \<Rightarrow> tracker" where
  "record_signal s t = foldl (\<lambda>t op. apply_op op t) t (record_ops s)"

definition is_interrupted :: "tracker \<Rightarrow> bool" where
  "is_interrupted t \<longleftrightarrow> signal_count t > 0"

lemma record_signal_simps [simp]:
  "signal_count (record_signal s t) = Suc (signal_count t)"
  "sigint_count (record_signal s t) = sigint_count t + (if s = Interrupt then 1 else 0)"
  "last_signal (record_signal s t) = s"
  by (cases s; simp add: record_signal_def record_ops_def last_signal_def from_number_def ALL_signals_def)+

text \<open>\<open>tokio::select!\<close> with \<open>biased\<close>: what the first of two branches answers at a poll, the second's otherwise.\<close>

definition select_biased :: "'a option \<Rightarrow> 'b option \<Rightarrow> ('a + 'b) option" where
  "select_biased first second = (case first of Some x \<Rightarrow> Some (Inl x) | None \<Rightarrow> map_option Inr second)"

text \<open>One poll of \<open>unless_signalled\<close> (the signal wins a tie) and of \<open>until_interrupted\<close> (the step wins).\<close>

definition unless_signalled :: "tracker \<Rightarrow> 'a option \<Rightarrow> (termination_signal, 'a) result option" where
  "unless_signalled t work = (case select_biased (if signal_count t \<ge> 1 then Some () else None) work of
       Some (Inl ()) \<Rightarrow> Some (Err (last_signal t)) | Some (Inr x) \<Rightarrow> Some (Ok x) | None \<Rightarrow> None)"

definition until_interrupted :: "bool \<Rightarrow> 'a option \<Rightarrow> 'a option option" where
  "until_interrupted rung step = (case select_biased step (if rung then Some () else None) of
       Some (Inl x) \<Rightarrow> Some (Some x) | Some (Inr ()) \<Rightarrow> Some None | None \<Rightarrow> None)"

section \<open>Waiting while signals are recorded\<close>

record ('n, 'w) notify_crate =
  notified :: "'n \<Rightarrow> 'w"
  notify_waiters :: "'n \<Rightarrow> 'n"
  notify_ready :: "'w \<Rightarrow> 'n \<Rightarrow> bool"

text \<open>
  The documented guarantee: a future made by \<open>notified\<close> resolves once \<open>notify_waiters\<close> has been called after
  it was made, polled before that or not.
\<close>

definition wakes_created_waiters :: "('n, 'w) notify_crate \<Rightarrow> bool" where
  "wakes_created_waiters nt \<longleftrightarrow> (\<forall>n k. notify_ready nt (notified nt n) ((notify_waiters nt ^^ Suc k) n))"

text \<open>Where \<open>wait_until\<close> is: before \<open>notified()\<close>, holding the future, awaiting it, or returned.\<close>

datatype 'w waiter = Looping | Holding 'w | Awaiting 'w | Returned

record ('n, 'w) wait_state =
  wt_tracker :: tracker
  wt_notify :: 'n
  wt_recorders :: "record_op list list"
  wt_waiter :: "'w waiter"

fun waiter_step ::
  "('n, 'w) notify_crate \<Rightarrow> (tracker \<Rightarrow> bool) \<Rightarrow> ('n, 'w) wait_state \<Rightarrow> ('n, 'w) wait_state option" where
  "waiter_step nt reached st = (case wt_waiter st of
       Looping \<Rightarrow> Some (st\<lparr>wt_waiter := Holding (notified nt (wt_notify st))\<rparr>)
     | Holding w \<Rightarrow> Some (st\<lparr>wt_waiter := if reached (wt_tracker st) then Returned else Awaiting w\<rparr>)
     | Awaiting w \<Rightarrow> if notify_ready nt w (wt_notify st) then Some (st\<lparr>wt_waiter := Looping\<rparr>) else None
     | Returned \<Rightarrow> None)"

definition recorder_step :: "('n, 'w) notify_crate \<Rightarrow> record_op \<Rightarrow> ('n, 'w) wait_state \<Rightarrow> ('n, 'w) wait_state" where
  "recorder_step nt op st = st\<lparr>wt_tracker := apply_op op (wt_tracker st),
     wt_notify := (if op = Notify_Waiters then notify_waiters nt (wt_notify st) else wt_notify st)\<rparr>"

definition start_waiting :: "'n \<Rightarrow> ('n, 'w) wait_state" where
  "start_waiting n = \<lparr>wt_tracker = new_tracker, wt_notify = n, wt_recorders = [], wt_waiter = Looping\<rparr>"

inductive wait_reach ::
  "('n, 'w) notify_crate \<Rightarrow> (tracker \<Rightarrow> bool) \<Rightarrow> ('n, 'w) wait_state \<Rightarrow> bool" for nt reached where
  begin_wait: "wait_reach nt reached (start_waiting n)"
| signal_arrives: "wait_reach nt reached st \<Longrightarrow>
    wait_reach nt reached (st\<lparr>wt_recorders := wt_recorders st @ [record_ops s]\<rparr>)"
| recorder_goes_on: "wait_reach nt reached st \<Longrightarrow> wt_recorders st = xs @ (op # ops) # ys \<Longrightarrow>
    wait_reach nt reached ((recorder_step nt op st)\<lparr>wt_recorders := xs @ ops # ys\<rparr>)"
| waiter_goes_on: "wait_reach nt reached st \<Longrightarrow> waiter_step nt reached st = Some st' \<Longrightarrow> wait_reach nt reached st'"

definition wait_for :: "nat \<Rightarrow> tracker \<Rightarrow> bool" where
  "wait_for k t \<longleftrightarrow> signal_count t \<ge> k"

definition wait_for_interrupts :: "nat \<Rightarrow> tracker \<Rightarrow> bool" where
  "wait_for_interrupts k t \<longleftrightarrow> sigint_count t \<ge> k"

text \<open>The waiter's own steps, as many as given, while nothing else happens.\<close>

fun waiter_runs ::
  "nat \<Rightarrow> ('n, 'w) notify_crate \<Rightarrow> (tracker \<Rightarrow> bool) \<Rightarrow> ('n, 'w) wait_state \<Rightarrow> ('n, 'w) wait_state" where
  "waiter_runs 0 nt reached st = st"
| "waiter_runs (Suc m) nt reached st = (case waiter_step nt reached st of
       None \<Rightarrow> st | Some st' \<Rightarrow> waiter_runs m nt reached st')"

section \<open>No wake-up is lost\<close>

text \<open>A condition that only counting makes true and nothing makes false.\<close>

definition counting :: "(tracker \<Rightarrow> bool) \<Rightarrow> bool" where
  "counting reached \<longleftrightarrow>
     (\<forall>op t. (reached t \<longrightarrow> reached (apply_op op t)) \<and>
             (\<not> reached t \<longrightarrow> reached (apply_op op t) \<longrightarrow> op = Add_Interrupt \<or> op = Add_Count))"

lemma counting_waits: "counting (wait_for k)" "counting (wait_for_interrupts k)"
  unfolding counting_def wait_for_def wait_for_interrupts_def
  by (intro allI conjI impI; case_tac op; simp)+

definition pending_notify :: "('n, 'w) wait_state \<Rightarrow> bool" where
  "pending_notify st \<longleftrightarrow> Notify_Waiters \<in> set (concat (wt_recorders st))"

definition made_by :: "('n, 'w) notify_crate \<Rightarrow> 'w \<Rightarrow> nat \<Rightarrow> 'n \<Rightarrow> bool" where
  "made_by nt w k n \<longleftrightarrow> (\<exists>m. w = notified nt m \<and> n = (notify_waiters nt ^^ k) m)"

definition wait_inv :: "('n, 'w) notify_crate \<Rightarrow> (tracker \<Rightarrow> bool) \<Rightarrow> ('n, 'w) wait_state \<Rightarrow> bool" where
  "wait_inv nt reached st \<longleftrightarrow>
     (\<forall>ops \<in> set (wt_recorders st). Add_Count \<in> set ops \<or> Add_Interrupt \<in> set ops \<longrightarrow>
        ops \<noteq> [] \<and> last ops = Notify_Waiters) \<and>
     (case wt_waiter st of
        Looping \<Rightarrow> True
      | Holding w \<Rightarrow> \<exists>k. made_by nt w k (wt_notify st)
      | Awaiting w \<Rightarrow> \<exists>k. made_by nt w k (wt_notify st) \<and> (reached (wt_tracker st) \<longrightarrow> k > 0 \<or> pending_notify st)
      | Returned \<Rightarrow> reached (wt_tracker st))"

lemma made_by_new: "made_by nt (notified nt n) 0 n"
  by (auto simp: made_by_def)

lemma made_by_notify: "made_by nt w k n \<Longrightarrow> made_by nt w (Suc k) (notify_waiters nt n)"
  by (auto simp: made_by_def)

lemma made_by_ready: "wakes_created_waiters nt \<Longrightarrow> made_by nt w k n \<Longrightarrow> 0 < k \<Longrightarrow> notify_ready nt w n"
  by (cases k) (auto simp: made_by_def wakes_created_waiters_def)

lemma record_ops_notify: "record_ops s \<noteq> []" "last (record_ops s) = Notify_Waiters"
  by (simp_all add: record_ops_def)

lemma pending_last: "ops \<noteq> [] \<Longrightarrow> last ops = op \<Longrightarrow> op \<in> set ops"
  by auto

lemma recorder_keeps_inv:
  assumes inv: "wait_inv nt reached st" and counts: "counting reached"
    and rec: "wt_recorders st = xs @ (op # ops) # ys"
  shows "wait_inv nt reached ((recorder_step nt op st)\<lparr>wt_recorders := xs @ ops # ys\<rparr>)" (is "wait_inv nt reached ?st")
proof -
  have mono: "reached (wt_tracker st) \<Longrightarrow> reached (wt_tracker ?st)"
    and grows: "\<not> reached (wt_tracker st) \<Longrightarrow> reached (wt_tracker ?st) \<Longrightarrow> op = Add_Interrupt \<or> op = Add_Count"
    using counts by (auto simp: counting_def recorder_step_def)
  have ends: "Add_Count \<in> set (op # ops) \<or> Add_Interrupt \<in> set (op # ops) \<Longrightarrow> last (op # ops) = Notify_Waiters"
    using inv rec by (auto simp: wait_inv_def)
  have tails: "\<forall>o' \<in> set (wt_recorders ?st). Add_Count \<in> set o' \<or> Add_Interrupt \<in> set o' \<longrightarrow>
      o' \<noteq> [] \<and> last o' = Notify_Waiters"
    using inv rec ends by (auto simp: wait_inv_def split: if_splits)
  have pend: "op = Add_Interrupt \<or> op = Add_Count \<Longrightarrow> pending_notify ?st"
    using ends by (cases "ops = []") (auto simp: pending_notify_def dest: pending_last)
  have keep: "pending_notify st \<Longrightarrow> op \<noteq> Notify_Waiters \<Longrightarrow> pending_notify ?st"
    using rec by (auto simp: pending_notify_def)
  have made: "\<exists>k'. made_by nt w k' (wt_notify ?st) \<and> (if op = Notify_Waiters then 0 < k' else k' = k)"
    if "made_by nt w k (wt_notify st)" for w k
    using that made_by_notify[OF that] by (auto simp: recorder_step_def)
  show ?thesis
  proof (cases "wt_waiter st")
    case (Awaiting w)
    with inv obtain k where k: "made_by nt w k (wt_notify st)"
      "reached (wt_tracker st) \<Longrightarrow> k > 0 \<or> pending_notify st" by (auto simp: wait_inv_def)
    from made[OF k(1)] obtain k' where "made_by nt w k' (wt_notify ?st)"
      "if op = Notify_Waiters then 0 < k' else k' = k" by blast
    moreover have "reached (wt_tracker ?st) \<Longrightarrow> op \<noteq> Notify_Waiters \<Longrightarrow> k > 0 \<or> pending_notify ?st"
      using k(2) grows pend keep by blast
    ultimately show ?thesis using Awaiting tails unfolding wait_inv_def
      by (auto simp: recorder_step_def split: if_splits)
  next
    case (Holding w)
    with inv made[of w] have "\<exists>k. made_by nt w k (wt_notify ?st)" unfolding wait_inv_def by fastforce
    then show ?thesis using Holding tails unfolding wait_inv_def by (simp add: recorder_step_def)
  qed (use inv tails mono in \<open>simp_all add: wait_inv_def recorder_step_def\<close>)
qed

lemma waiter_keeps_inv:
  assumes "wait_inv nt reached st" "waiter_step nt reached st = Some st'"
  shows "wait_inv nt reached st'"
  using assms made_by_new[of nt "wt_notify st"]
  by (auto simp: wait_inv_def split: waiter.splits if_splits)

lemma wait_reach_inv: "wait_reach nt reached st \<Longrightarrow> counting reached \<Longrightarrow> wait_inv nt reached st"
proof (induction rule: wait_reach.induct)
  case (begin_wait n)
  then show ?case by (simp add: wait_inv_def start_waiting_def)
next
  case (signal_arrives st s)
  then show ?case using record_ops_notify[of s]
    by (auto simp: wait_inv_def pending_notify_def split: waiter.splits)
qed (auto intro: recorder_keeps_inv waiter_keeps_inv)

text \<open>
  C12 (wait_never_hangs): \<open>wait_for\<close> and \<open>wait_for_interrupts\<close> return only when as many signals as asked for have been
  recorded, and never hang once they have: whatever the order in which the listeners' and the waiter's
  operations interleaved, as soon as no recording is under way the waiter returns within three steps of
  its own.
\<close>

theorem wait_never_hangs:
  assumes "wakes_created_waiters nt" and "reached \<in> {wait_for k, wait_for_interrupts k}"
    and "wait_reach nt reached st"
  shows "(wt_waiter st = Returned \<longrightarrow> reached (wt_tracker st)) \<and>
    (reached (wt_tracker st) \<and> concat (wt_recorders st) = [] \<longrightarrow>
       wt_waiter (waiter_runs 3 nt reached st) = Returned)"
proof -
  have inv: "wait_inv nt reached st" using assms(2,3) wait_reach_inv counting_waits by blast
  have "wt_waiter (waiter_runs 3 nt reached st) = Returned"
    if "reached (wt_tracker st)" "concat (wt_recorders st) = []"
    using that inv made_by_ready[OF assms(1)]
    by (auto simp: wait_inv_def pending_notify_def numeral_3_eq_3 split: waiter.splits if_splits)
  then show ?thesis using inv by (auto simp: wait_inv_def)
qed


text \<open>A \<open>Notify\<close> that counts its calls, as an instance of the guarantee.\<close>

definition counter_notify :: "(nat, nat) notify_crate" where
  "counter_notify = \<lparr>notified = id, notify_waiters = Suc, notify_ready = (\<lambda>w n. w < n)\<rparr>"

lemma counter_notify_wakes: "wakes_created_waiters counter_notify"
proof -
  have "(Suc ^^ k) n = n + k" for k n by (induction k) auto
  then show ?thesis by (simp add: wakes_created_waiters_def counter_notify_def del: funpow.simps)
qed

lemma reach_awaiting:
  "wait_reach counter_notify (wait_for 1)
     \<lparr>wt_tracker = new_tracker, wt_notify = 0, wt_recorders = [], wt_waiter = Awaiting 0\<rparr>"
proof -
  have "wait_reach counter_notify (wait_for 1)
      \<lparr>wt_tracker = new_tracker, wt_notify = 0, wt_recorders = [], wt_waiter = Holding 0\<rparr>"
    by (rule waiter_goes_on[OF begin_wait[of _ _ 0]]) (simp add: start_waiting_def counter_notify_def)
  from waiter_goes_on[OF this] show ?thesis
    by (simp add: wait_for_def new_tracker_def)
qed

lemma reach_signalled:
  "wait_reach counter_notify (wait_for 1)
     \<lparr>wt_tracker = record_signal Terminate new_tracker, wt_notify = 1, wt_recorders = [[]], wt_waiter = Awaiting 0\<rparr>"
proof -
  note ops = recorder_goes_on[where xs = "[]" and ys = "[]", simplified recorder_step_def]
  have "wait_reach counter_notify (wait_for 1)
      \<lparr>wt_tracker = new_tracker, wt_notify = 0, wt_recorders = [[Store_Last Terminate, Add_Count, Notify_Waiters]],
       wt_waiter = Awaiting 0\<rparr>"
    using signal_arrives[OF reach_awaiting, of Terminate] by (simp add: record_ops_def)
  from ops[OF this] have "wait_reach counter_notify (wait_for 1)
      \<lparr>wt_tracker = apply_op (Store_Last Terminate) new_tracker, wt_notify = 0,
       wt_recorders = [[Add_Count, Notify_Waiters]], wt_waiter = Awaiting 0\<rparr>"
    by simp
  from ops[OF this] have "wait_reach counter_notify (wait_for 1)
      \<lparr>wt_tracker = record_signal Terminate new_tracker, wt_notify = 0,
       wt_recorders = [[Notify_Waiters]], wt_waiter = Awaiting 0\<rparr>"
    by (simp add: record_signal_def record_ops_def)
  from ops[OF this] show ?thesis by (simp add: counter_notify_def)
qed

theorem wait_never_hangs_witness:
  "wt_waiter (waiter_runs 3 counter_notify (wait_for 1)
     \<lparr>wt_tracker = record_signal Terminate new_tracker, wt_notify = 1, wt_recorders = [[]], wt_waiter = Awaiting 0\<rparr>) = Returned"
  using wait_never_hangs[OF counter_notify_wakes _ reach_signalled, of 1] by (simp add: wait_for_def)

text \<open>
  Between two operations of one recording a \<open>SIGINT\<close> is counted as an interrupt and not yet as a signal, so
  \<open>interrupt_count\<close> can read more than \<open>count\<close>.
\<close>

lemma interrupt_count_exceeds_count:
  "\<exists>st. wait_reach nt reached st \<and> sigint_count (wt_tracker st) > signal_count (wt_tracker st)"
proof -
  note ops = recorder_goes_on[where xs = "[]" and ys = "[]", simplified recorder_step_def]
  let ?st = "\<lambda>t ops. \<lparr>wt_tracker = t, wt_notify = undefined, wt_recorders = [ops], wt_waiter = Looping\<rparr>"
  have "wait_reach nt reached (?st new_tracker [Store_Last Interrupt, Add_Interrupt, Add_Count, Notify_Waiters])"
    using signal_arrives[OF begin_wait[of nt reached undefined], of Interrupt]
    by (simp add: record_ops_def start_waiting_def)
  from ops[OF this] have "wait_reach nt reached
      (?st (apply_op (Store_Last Interrupt) new_tracker) [Add_Interrupt, Add_Count, Notify_Waiters])" by simp
  from ops[OF this] show ?thesis by (intro exI conjI) (assumption | simp add: new_tracker_def)+
qed

end
