(* ===== verification/Machines.thy ===== *)
theory Machines
  imports Main
begin

text \<open>
  State machines driven by events. A machine is a partial transition function; \<open>reach\<close> are the states it
  comes to. The locale \<open>event_machine\<close> is the contract of an invariant, and \<open>terminating_machine\<close> that of a
  machine whose own events, all but those from \<open>outside\<close>, bring it to a final state.
\<close>

inductive machine_reach :: "('e \<Rightarrow> 's \<Rightarrow> 's option) \<Rightarrow> 's \<Rightarrow> 's \<Rightarrow> bool" for step start where
  reach_start: "machine_reach step start start"
| reach_step: "machine_reach step start s \<Longrightarrow> step e s = Some s' \<Longrightarrow> machine_reach step start s'"

fun run_events :: "('e \<Rightarrow> 's \<Rightarrow> 's option) \<Rightarrow> 'e list \<Rightarrow> 's \<Rightarrow> 's option" where
  "run_events step [] s = Some s"
| "run_events step (e # es) s = (case step e s of None \<Rightarrow> None | Some s' \<Rightarrow> run_events step es s')"

lemma run_events_reach: "machine_reach step start s \<Longrightarrow> run_events step es s = Some s' \<Longrightarrow> machine_reach step start s'"
  by (induction es arbitrary: s) (auto split: option.splits intro: reach_step)

locale event_machine =
  fixes step :: "'e \<Rightarrow> 's \<Rightarrow> 's option" and start :: 's and invar :: "'s \<Rightarrow> bool"
  assumes invar_start: "invar start"
    and invar_step: "invar s \<Longrightarrow> step e s = Some s' \<Longrightarrow> invar s'"
begin

lemma reach_invar: "machine_reach step start s \<Longrightarrow> invar s"
  by (induction rule: machine_reach.induct) (auto intro: invar_start invar_step)

end

locale terminating_machine = event_machine +
  fixes outside :: "'e \<Rightarrow> bool" and rank :: "'s \<Rightarrow> nat" and final :: "'s \<Rightarrow> bool"
  assumes rank_step: "invar s \<Longrightarrow> step e s = Some s' \<Longrightarrow> \<not> outside e \<Longrightarrow> rank s' < rank s"
    and rank_outside: "invar s \<Longrightarrow> step e s = Some s' \<Longrightarrow> outside e \<Longrightarrow> rank s' \<le> rank s"
    and progress: "invar s \<Longrightarrow> \<not> final s \<Longrightarrow> \<exists>e s'. \<not> outside e \<and> step e s = Some s'"
begin

lemma run_invar: "invar s \<Longrightarrow> run_events step es s = Some s' \<Longrightarrow> invar s'"
  by (induction es arbitrary: s) (auto split: option.splits intro: invar_step)

lemma run_bounded:
  "invar s \<Longrightarrow> run_events step es s = Some s' \<Longrightarrow> length (filter (\<lambda>e. \<not> outside e) es) + rank s' \<le> rank s"
proof (induction es arbitrary: s)
  case (Cons e es)
  then obtain s1 where s1: "step e s = Some s1" "run_events step es s1 = Some s'" by (auto split: option.splits)
  with Cons have "length (filter (\<lambda>e. \<not> outside e) es) + rank s' \<le> rank s1" by (blast intro: invar_step)
  with rank_step[OF Cons.prems(1) s1(1)] rank_outside[OF Cons.prems(1) s1(1)] show ?case
    by (cases "outside e") auto
qed simp

lemma reaches_final: "invar s \<Longrightarrow> \<exists>es s'. run_events step es s = Some s' \<and> final s' \<and> (\<forall>e \<in> set es. \<not> outside e)"
proof (induction "rank s" arbitrary: s rule: less_induct)
  case less
  show ?case
  proof (cases "final s")
    case True
    then show ?thesis by (intro exI[of _ "[]"] exI[of _ s]) simp
  next
    case False
    from progress[OF less.prems False] obtain e s1 where e: "\<not> outside e" "step e s = Some s1" by blast
    from less.hyps[OF rank_step[OF less.prems e(2,1)] invar_step[OF less.prems e(2)]]
    obtain es s' where "run_events step es s1 = Some s'" "final s'" "\<forall>e \<in> set es. \<not> outside e" by blast
    with e show ?thesis by (intro exI[of _ "e # es"] exI[of _ s']) simp
  qed
qed

end

end
