(* ===== verification/Cleanup.thy ===== *)
theory Cleanup
  imports Machines Signals Task_Graph "HOL-Library.Product_Lexorder"
begin

text \<open>
  The cleanup at the end of \<open>run_task_internal\<close> (\<open>src/ratect-core/src/engine.rs\<close>): containers are stopped
  dependents first and concurrently, a signal escalates to forced removal, a \<open>SIGINT\<close> after that abandons
  it, then the network goes, and what is left behind is reported. The daemon's answers, the signals
  and the code's own turns are events; \<open>cleanup_step\<close> is the transition and \<open>cleanup_reach\<close> the states a
  cleanup can be in.
\<close>

section \<open>What is left behind\<close>

record left_behind =
  lb_containers :: "(string \<times> string) list"
  lb_network :: "string option"

definition left_behind_is_empty :: "left_behind \<Rightarrow> bool" where
  "left_behind_is_empty l \<longleftrightarrow> lb_containers l = [] \<and> lb_network l = None"

definition short_id :: "string \<Rightarrow> string" where
  "short_id i = (if length i \<ge> 12 then take 12 i else i)"

definition left_behind_list :: "left_behind \<Rightarrow> string" where
  "left_behind_list l = join '', '' (map (\<lambda>(name, i). name @ '' ('' @ short_id i @ '')'') (lb_containers l) @
     (case lb_network l of None \<Rightarrow> [] | Some n \<Rightarrow> [''network '' @ n]))"

definition left_behind_command :: "left_behind \<Rightarrow> string" where
  "left_behind_command l = join ''; ''
     ((if lb_containers l = [] then []
       else [''docker rm -f -v '' @ join '' '' (map (\<lambda>(_, i). short_id i) (lb_containers l))]) @
      (case lb_network l of None \<Rightarrow> [] | Some n \<Rightarrow> [''docker network rm '' @ n]))"

definition failure_message :: "left_behind \<Rightarrow> bool \<Rightarrow> string list \<Rightarrow> string" where
  "failure_message l abandoned refusals =
     (let what = (case (abandoned, refusals = []) of
            (True, True) \<Rightarrow> ''Cleanup abandoned''
          | (True, False) \<Rightarrow> ''Cleanup abandoned after failing: '' @ join ''; '' refusals
          | (False, _) \<Rightarrow> ''Cleanup failed: '' @ join ''; '' refusals) in
      if left_behind_is_empty l then what @ ''. Nothing is known to be left behind.''
      else what @ ''; left behind: '' @ left_behind_list l @ ''. Remove with: '' @ left_behind_command l)"

section \<open>The cleanup\<close>

record removal =
  rm_name :: string
  rm_id :: string
  rm_narrate :: bool
  rm_started :: bool
  rm_is_task_container :: bool

text \<open>
  What the cleanup of one run is given: the task's graph, the containers it created with their ids, the
  network it owns, the signals counted when the run ended, and the signal that ended it, if one did.
\<close>

record cleanup_env =
  ce_graph :: dep_graph
  ce_containers :: "container index_map"
  ce_root :: string
  ce_created :: "string index_map"
  ce_started :: "string set"
  ce_network :: "string option"
  ce_tracker :: tracker
  ce_interrupted_by :: "termination_signal option"

datatype cleanup_line =
    Container_Removed string
  | Container_Stopped string
  | Removing_Network_Line
  | Network_Removed_Line
  | Cleanup_Notice string
  | Cleanup_Finished_Line
  | Cleanup_Error string

datatype cleanup_log =
    Signal_Received termination_signal
  | Stop_Sent string
  | Stop_Answered string
  | Force_Sent string
  | Force_Answered string
  | Network_Remove_Sent

datatype cleanup_phase =
  Loop_Head | Awaiting_Stop | Draining | Forcing | Before_Network | Removing_Network | Finished

record cleanup_state =
  cs_phase :: cleanup_phase
  cs_waiting :: "string set index_map"
  cs_queued :: "removal list"
  cs_in_flight :: "removal list"
  cs_forced :: "removal list"
  cs_removed :: "string set"
  cs_refusals :: "string list"
  cs_failed :: bool
  cs_at_escalation :: "nat option"
  cs_rung :: "nat option"
  cs_abandoned :: bool
  cs_network_removed :: bool
  cs_said_stopped :: "string set"
  cs_tracker :: tracker
  cs_posted :: "cleanup_line list"
  cs_log :: "cleanup_log list"

datatype cleanup_event =
    Signal termination_signal
  | Turn
  | Stop_Succeeded string
  | Stop_Answer string "(string, unit) result"
  | Force_Answer string "(string, unit) result"
  | Network_Answer "(string, unit) result"

definition created_names :: "cleanup_env \<Rightarrow> string list" where
  "created_names env = sort_key (\<lambda>name. (name \<noteq> ce_root env, name)) (im_keys (ce_created env))"

definition removal_of :: "cleanup_env \<Rightarrow> string \<Rightarrow> string \<Rightarrow> removal" where
  "removal_of env name i = \<lparr>rm_name = name, rm_id = i,
     rm_narrate = (name = ce_root env \<or> is_narrated (ce_containers env) name),
     rm_started = (name \<in> ce_started env), rm_is_task_container = (name = ce_root env)\<rparr>"

definition removals :: "cleanup_env \<Rightarrow> removal list" where
  "removals env = List.map_filter (\<lambda>name. map_option (removal_of env name) (im_get (ce_created env) name))
     (created_names env)"

definition to_remove :: "cleanup_env \<Rightarrow> (string \<times> string) list" where
  "to_remove env = map (\<lambda>r. (rm_name r, rm_id r)) (removals env)"

definition escalate_at :: "cleanup_env \<Rightarrow> nat" where
  "escalate_at env = signal_count (ce_tracker env) + 1"

definition start_cleanup :: "cleanup_env \<Rightarrow> cleanup_state" where
  "start_cleanup env = \<lparr>cs_phase = Loop_Head,
     cs_waiting = dependents_to_stop_first (ce_graph env) (created_names env),
     cs_queued = removals env, cs_in_flight = [], cs_forced = [], cs_removed = {}, cs_refusals = [],
     cs_failed = False, cs_at_escalation = None, cs_rung = None, cs_abandoned = False,
     cs_network_removed = False, cs_said_stopped = {}, cs_tracker = ce_tracker env,
     cs_posted = [], cs_log = []\<rparr>"

definition post_line :: "cleanup_line \<Rightarrow> cleanup_state \<Rightarrow> cleanup_state" where
  "post_line l st = st\<lparr>cs_posted := cs_posted st @ [l]\<rparr>"

definition log_all :: "cleanup_log list \<Rightarrow> cleanup_state \<Rightarrow> cleanup_state" where
  "log_all ls st = st\<lparr>cs_log := cs_log st @ ls\<rparr>"

fun report :: "removal \<Rightarrow> (string, unit) result \<Rightarrow> cleanup_state \<Rightarrow> cleanup_state" where
  "report r (Inr _) st = (if rm_narrate r then post_line (Container_Removed (rm_name r)) else id)
     (st\<lparr>cs_removed := insert (rm_id r) (cs_removed st)\<rparr>)"
| "report r (Inl e) st = st\<lparr>cs_failed := True, cs_refusals := cs_refusals st @ [e]\<rparr>"

definition may_stop :: "cleanup_state \<Rightarrow> removal \<Rightarrow> bool" where
  "may_stop st r \<longleftrightarrow> (case im_get (cs_waiting st) (rm_name r) of None \<Rightarrow> True | Some dependents \<Rightarrow> dependents = {})"

definition start_ready_stops :: "cleanup_state \<Rightarrow> cleanup_state" where
  "start_ready_stops st =
     (let ready = filter (may_stop st) (cs_queued st) in
      log_all (map (\<lambda>r. Stop_Sent (rm_name r)) ready)
        (st\<lparr>cs_queued := filter (\<lambda>r. \<not> may_stop st r) (cs_queued st),
            cs_in_flight := cs_in_flight st @ ready, cs_phase := Awaiting_Stop\<rparr>))"

definition stop_answered :: "removal \<Rightarrow> (string, unit) result \<Rightarrow> cleanup_state \<Rightarrow> cleanup_state" where
  "stop_answered r answer st =
     (let st' = log_all [Stop_Answered (rm_name r)] (report r answer st) in
      st'\<lparr>cs_in_flight := filter (\<lambda>other. rm_id other \<noteq> rm_id r) (cs_in_flight st')\<rparr>)"

definition release_dependencies :: "string \<Rightarrow> string set index_map \<Rightarrow> string set index_map" where
  "release_dependencies name = map (\<lambda>(k, dependents). (k, dependents - {name}))"

definition force_what_is_left :: "cleanup_state \<Rightarrow> cleanup_state" where
  "force_what_is_left st =
     (let rest = cs_in_flight st @ cs_queued st in
      if rest = [] then st\<lparr>cs_phase := Before_Network\<rparr>
      else log_all (map (\<lambda>r. Force_Sent (rm_name r)) rest)
        (post_line (Cleanup_Notice (ended_run (last_signal (cs_tracker st)) @
             '' during cleanup; force-removing what'' @ [CHR 39] @ ''s left. Press Ctrl+C to stop cleaning up.''))
          (st\<lparr>cs_at_escalation := Some (sigint_count (cs_tracker st)), cs_forced := rest,
              cs_in_flight := [], cs_queued := [], cs_phase := Forcing\<rparr>)))"

definition left_of :: "cleanup_env \<Rightarrow> cleanup_state \<Rightarrow> left_behind" where
  "left_of env st = \<lparr>lb_containers = filter (\<lambda>(_, i). i \<notin> cs_removed st) (to_remove env),
     lb_network = (if cs_network_removed st then None else ce_network env)\<rparr>"

definition narrates_cleanup :: "cleanup_env \<Rightarrow> bool" where
  "narrates_cleanup env \<longleftrightarrow> ce_created env \<noteq> [] \<or> ce_network env \<noteq> None"

definition finish_cleanup :: "cleanup_env \<Rightarrow> cleanup_state \<Rightarrow> cleanup_state" where
  "finish_cleanup env st0 =
     (let st1 = (if cs_abandoned st0 then st0\<lparr>cs_failed := True\<rparr> else st0);
          st2 = (if narrates_cleanup env then post_line Cleanup_Finished_Line st1 else st1);
          st3 = (if cs_failed st2
                 then post_line (Cleanup_Error (failure_message (left_of env st2) (cs_abandoned st2) (cs_refusals st2))) st2
                 else if ce_interrupted_by env \<noteq> None then post_line (Cleanup_Notice ''Cleanup complete.'') st2
                 else st2)
      in st3\<lparr>cs_phase := Finished\<rparr>)"

definition begin_network_removal :: "cleanup_env \<Rightarrow> cleanup_state \<Rightarrow> cleanup_state" where
  "begin_network_removal env st =
     (if ce_network env \<noteq> None \<and> \<not> cs_abandoned st
      then log_all [Network_Remove_Sent] (post_line Removing_Network_Line
             (st\<lparr>cs_rung := cs_at_escalation st, cs_phase := Removing_Network\<rparr>))
      else finish_cleanup env st)"

definition network_answered :: "cleanup_env \<Rightarrow> (string, unit) result \<Rightarrow> cleanup_state \<Rightarrow> cleanup_state" where
  "network_answered env answer st = finish_cleanup env (case answer of
       Inr _ \<Rightarrow> post_line Network_Removed_Line (st\<lparr>cs_network_removed := True\<rparr>)
     | Inl e \<Rightarrow> st\<lparr>cs_failed := True, cs_refusals := cs_refusals st @ [e]\<rparr>)"

text \<open>The code's own turn, where it does not wait for the daemon or for a signal.\<close>

fun turn :: "cleanup_env \<Rightarrow> cleanup_state \<Rightarrow> cleanup_state option" where
  "turn env st = (case cs_phase st of
       Loop_Head \<Rightarrow> Some (if wait_for (escalate_at env) (cs_tracker st) then st\<lparr>cs_phase := Draining\<rparr>
                         else start_ready_stops st)
     | Awaiting_Stop \<Rightarrow>
         if cs_in_flight st = [] \<or> wait_for (escalate_at env) (cs_tracker st)
         then Some (st\<lparr>cs_phase := Draining\<rparr>) else None
     | Draining \<Rightarrow> Some (force_what_is_left st)
     | Forcing \<Rightarrow>
         if cs_forced st = [] then Some (st\<lparr>cs_phase := Before_Network\<rparr>)
         else (case cs_at_escalation st of
             Some base \<Rightarrow> if wait_for_interrupts (base + 1) (cs_tracker st)
                then Some (st\<lparr>cs_abandoned := True, cs_phase := Before_Network\<rparr>) else None
           | None \<Rightarrow> None)
     | Before_Network \<Rightarrow> Some (begin_network_removal env st)
     | Removing_Network \<Rightarrow> (case cs_rung st of
           None \<Rightarrow> if wait_for (escalate_at env) (cs_tracker st)
              then Some (st\<lparr>cs_rung := Some (sigint_count (cs_tracker st))\<rparr>) else None
         | Some base \<Rightarrow> if wait_for_interrupts (base + 1) (cs_tracker st)
              then Some (finish_cleanup env (st\<lparr>cs_abandoned := True\<rparr>)) else None)
     | Finished \<Rightarrow> None)"

definition in_flight_with :: "string \<Rightarrow> cleanup_state \<Rightarrow> removal option" where
  "in_flight_with i st = List.find (\<lambda>r. rm_id r = i) (cs_in_flight st)"

fun cleanup_step :: "cleanup_env \<Rightarrow> cleanup_event \<Rightarrow> cleanup_state \<Rightarrow> cleanup_state option" where
  "cleanup_step env (Signal s) st =
     Some (log_all [Signal_Received s] (st\<lparr>cs_tracker := record_signal s (cs_tracker st)\<rparr>))"
| "cleanup_step env Turn st = turn env st"
| "cleanup_step env (Stop_Succeeded i) st = (case in_flight_with i st of
       None \<Rightarrow> None
     | Some r \<Rightarrow>
         if cs_phase st \<in> {Awaiting_Stop, Draining} \<and> i \<notin> cs_said_stopped st
         then Some ((if rm_narrate r \<and> rm_started r then post_line (Container_Stopped (rm_name r)) else id)
                (st\<lparr>cs_said_stopped := insert i (cs_said_stopped st)\<rparr>))
         else None)"
| "cleanup_step env (Stop_Answer i answer) st = (case in_flight_with i st of
       None \<Rightarrow> None
     | Some r \<Rightarrow> (case cs_phase st of
           Awaiting_Stop \<Rightarrow>
             Some ((stop_answered r answer st)\<lparr>
               cs_waiting := release_dependencies (rm_name r) (cs_waiting st), cs_phase := Loop_Head\<rparr>)
         | Draining \<Rightarrow> Some (stop_answered r answer st)
         | _ \<Rightarrow> None))"
| "cleanup_step env (Force_Answer i answer) st = (case List.find (\<lambda>r. rm_id r = i) (cs_forced st) of
       None \<Rightarrow> None
     | Some r \<Rightarrow>
         if cs_phase st = Forcing
         then (let st' = log_all [Force_Answered (rm_name r)] (report r answer st) in
               Some (st'\<lparr>cs_forced := filter (\<lambda>other. rm_id other \<noteq> i) (cs_forced st')\<rparr>))
         else None)"
| "cleanup_step env (Network_Answer answer) st =
     (if cs_phase st = Removing_Network then Some (network_answered env answer st) else None)"

abbreviation cleanup_reach :: "cleanup_env \<Rightarrow> cleanup_state \<Rightarrow> bool" where
  "cleanup_reach env \<equiv> machine_reach (cleanup_step env) (start_cleanup env)"

section \<open>Selectors of the steps\<close>

named_theorems cleanup_fields \<open>what the building blocks of a step do to each field\<close>

lemma post_line_fields [cleanup_fields]:
  "cs_phase (post_line l st) = cs_phase st" "cs_waiting (post_line l st) = cs_waiting st"
  "cs_queued (post_line l st) = cs_queued st" "cs_in_flight (post_line l st) = cs_in_flight st"
  "cs_forced (post_line l st) = cs_forced st" "cs_removed (post_line l st) = cs_removed st"
  "cs_refusals (post_line l st) = cs_refusals st" "cs_failed (post_line l st) = cs_failed st"
  "cs_at_escalation (post_line l st) = cs_at_escalation st" "cs_rung (post_line l st) = cs_rung st"
  "cs_abandoned (post_line l st) = cs_abandoned st" "cs_network_removed (post_line l st) = cs_network_removed st"
  "cs_said_stopped (post_line l st) = cs_said_stopped st" "cs_tracker (post_line l st) = cs_tracker st"
  "cs_log (post_line l st) = cs_log st"
  by (simp_all add: post_line_def)

lemma log_all_fields [cleanup_fields]:
  "cs_phase (log_all ls st) = cs_phase st" "cs_waiting (log_all ls st) = cs_waiting st"
  "cs_queued (log_all ls st) = cs_queued st" "cs_in_flight (log_all ls st) = cs_in_flight st"
  "cs_forced (log_all ls st) = cs_forced st" "cs_removed (log_all ls st) = cs_removed st"
  "cs_refusals (log_all ls st) = cs_refusals st" "cs_failed (log_all ls st) = cs_failed st"
  "cs_at_escalation (log_all ls st) = cs_at_escalation st" "cs_rung (log_all ls st) = cs_rung st"
  "cs_abandoned (log_all ls st) = cs_abandoned st" "cs_network_removed (log_all ls st) = cs_network_removed st"
  "cs_said_stopped (log_all ls st) = cs_said_stopped st" "cs_tracker (log_all ls st) = cs_tracker st"
  "cs_log (log_all ls st) = cs_log st @ ls"
  by (simp_all add: log_all_def)

lemma report_fields [cleanup_fields]:
  "cs_phase (report r a st) = cs_phase st" "cs_waiting (report r a st) = cs_waiting st"
  "cs_queued (report r a st) = cs_queued st" "cs_in_flight (report r a st) = cs_in_flight st"
  "cs_forced (report r a st) = cs_forced st" "cs_log (report r a st) = cs_log st"
  "cs_at_escalation (report r a st) = cs_at_escalation st" "cs_rung (report r a st) = cs_rung st"
  "cs_abandoned (report r a st) = cs_abandoned st" "cs_network_removed (report r a st) = cs_network_removed st"
  "cs_said_stopped (report r a st) = cs_said_stopped st" "cs_tracker (report r a st) = cs_tracker st"
  "cs_removed (report r a st) = (if is_ok a then insert (rm_id r) (cs_removed st) else cs_removed st)"
  "cs_refusals (report r a st) = (case a of Inl e \<Rightarrow> cs_refusals st @ [e] | Inr _ \<Rightarrow> cs_refusals st)"
  "cs_failed (report r a st) \<longleftrightarrow> cs_failed st \<or> \<not> is_ok a"
  by (cases a; simp add: post_line_fields)+

lemma finish_cleanup_fields [cleanup_fields]:
  "cs_phase (finish_cleanup env st) = Finished"
  "cs_queued (finish_cleanup env st) = cs_queued st" "cs_in_flight (finish_cleanup env st) = cs_in_flight st"
  "cs_forced (finish_cleanup env st) = cs_forced st" "cs_log (finish_cleanup env st) = cs_log st"
  "cs_removed (finish_cleanup env st) = cs_removed st" "cs_refusals (finish_cleanup env st) = cs_refusals st"
  "cs_at_escalation (finish_cleanup env st) = cs_at_escalation st" "cs_rung (finish_cleanup env st) = cs_rung st"
  "cs_abandoned (finish_cleanup env st) = cs_abandoned st" "cs_tracker (finish_cleanup env st) = cs_tracker st"
  "cs_network_removed (finish_cleanup env st) = cs_network_removed st"
  "cs_said_stopped (finish_cleanup env st) = cs_said_stopped st"
  "cs_failed (finish_cleanup env st) \<longleftrightarrow> cs_failed st \<or> cs_abandoned st"
  by (simp_all add: finish_cleanup_def Let_def post_line_fields)

text \<open>The steps, one case each.\<close>

lemma find_found: "List.find P xs = Some x \<Longrightarrow> x \<in> set xs \<and> P x"
  by (auto simp: find_Some_iff)

lemma cleanup_step_cases [consumes 1, case_names signal escalate batch idle force forced_all abandon network
    no_network rung network_abandon said stop drain forced network_answer]:
  assumes "cleanup_step env ev st = Some st'"
  obtains
    (signal) s where "ev = Signal s" "st' = log_all [Signal_Received s] (st\<lparr>cs_tracker := record_signal s (cs_tracker st)\<rparr>)"
  | (escalate) "ev = Turn" "cs_phase st \<in> {Loop_Head, Awaiting_Stop}" "wait_for (escalate_at env) (cs_tracker st)"
      "st' = st\<lparr>cs_phase := Draining\<rparr>"
  | (batch) "ev = Turn" "cs_phase st = Loop_Head" "st' = start_ready_stops st"
  | (idle) "ev = Turn" "cs_phase st = Awaiting_Stop" "cs_in_flight st = []" "st' = st\<lparr>cs_phase := Draining\<rparr>"
  | (force) "ev = Turn" "cs_phase st = Draining" "st' = force_what_is_left st"
  | (forced_all) "ev = Turn" "cs_phase st = Forcing" "cs_forced st = []" "st' = st\<lparr>cs_phase := Before_Network\<rparr>"
  | (abandon) base where "ev = Turn" "cs_phase st = Forcing" "cs_at_escalation st = Some base"
      "wait_for_interrupts (base + 1) (cs_tracker st)" "st' = st\<lparr>cs_abandoned := True, cs_phase := Before_Network\<rparr>"
  | (network) "ev = Turn" "cs_phase st = Before_Network" "ce_network env \<noteq> None" "\<not> cs_abandoned st"
      "st' = log_all [Network_Remove_Sent] (post_line Removing_Network_Line
         (st\<lparr>cs_rung := cs_at_escalation st, cs_phase := Removing_Network\<rparr>))"
  | (no_network) "ev = Turn" "cs_phase st = Before_Network" "ce_network env = None \<or> cs_abandoned st"
      "st' = finish_cleanup env st"
  | (rung) "ev = Turn" "cs_phase st = Removing_Network" "cs_rung st = None" "wait_for (escalate_at env) (cs_tracker st)"
      "st' = st\<lparr>cs_rung := Some (sigint_count (cs_tracker st))\<rparr>"
  | (network_abandon) base where "ev = Turn" "cs_phase st = Removing_Network" "cs_rung st = Some base"
      "wait_for_interrupts (base + 1) (cs_tracker st)" "st' = finish_cleanup env (st\<lparr>cs_abandoned := True\<rparr>)"
  | (said) i r where "ev = Stop_Succeeded i" "r \<in> set (cs_in_flight st)" "rm_id r = i" "i \<notin> cs_said_stopped st"
      "cs_phase st \<in> {Awaiting_Stop, Draining}"
      "st' = (if rm_narrate r \<and> rm_started r then post_line (Container_Stopped (rm_name r)) else id)
         (st\<lparr>cs_said_stopped := insert i (cs_said_stopped st)\<rparr>)"
  | (stop) r a where "ev = Stop_Answer (rm_id r) a" "r \<in> set (cs_in_flight st)" "cs_phase st = Awaiting_Stop"
      "st' = (stop_answered r a st)\<lparr>
         cs_waiting := release_dependencies (rm_name r) (cs_waiting st), cs_phase := Loop_Head\<rparr>"
  | (drain) r a where "ev = Stop_Answer (rm_id r) a" "r \<in> set (cs_in_flight st)" "cs_phase st = Draining"
      "st' = stop_answered r a st"
  | (forced) r a where "ev = Force_Answer (rm_id r) a" "r \<in> set (cs_forced st)" "cs_phase st = Forcing"
      "st' = (log_all [Force_Answered (rm_name r)] (report r a st))\<lparr>
         cs_forced := filter (\<lambda>other. rm_id other \<noteq> rm_id r) (cs_forced st)\<rparr>"
  | (network_answer) a where "ev = Network_Answer a" "cs_phase st = Removing_Network" "st' = network_answered env a st"
proof (cases ev)
  case Turn
  then show ?thesis using assms that
    by (auto simp: begin_network_removal_def split: cleanup_phase.splits if_splits option.splits)
next
  case (Stop_Succeeded i)
  with assms obtain r where "in_flight_with i st = Some r" by (cases "in_flight_with i st") auto
  moreover from this have "r \<in> set (cs_in_flight st)" "rm_id r = i" by (auto simp: in_flight_with_def dest: find_found)
  ultimately show ?thesis using assms Stop_Succeeded that(12)[of i r]
    by (cases "rm_narrate r \<and> rm_started r") (simp_all split: if_splits)
next
  case (Stop_Answer i a)
  with assms obtain r where "in_flight_with i st = Some r" by (cases "in_flight_with i st") auto
  moreover from this have "r \<in> set (cs_in_flight st)" "rm_id r = i" by (auto simp: in_flight_with_def dest: find_found)
  ultimately show ?thesis using assms Stop_Answer that(13)[of r a] that(14)[of r a]
    by (cases "cs_phase st") simp_all
next
  case (Force_Answer i a)
  with assms obtain r where r: "List.find (\<lambda>r. rm_id r = i) (cs_forced st) = Some r"
    by (cases "List.find (\<lambda>r. rm_id r = i) (cs_forced st)") auto
  from find_found[OF r] r show ?thesis using assms Force_Answer
    by (intro that(15)[of r a]) (simp_all add: Let_def cleanup_fields split: if_splits)
next
  case (Network_Answer a)
  then show ?thesis using assms that(16) by (auto split: if_splits)
qed (use assms that(1) in auto)

section \<open>Where every container is\<close>

lemma set_created_names [simp]: "set (created_names env) = set (im_keys (ce_created env))"
  by (simp add: created_names_def)

lemma removal_of_fields [simp]: "rm_name (removal_of env name i) = name" "rm_id (removal_of env name i) = i"
  by (simp_all add: removal_of_def)

lemma set_map_filter: "set (List.map_filter f xs) = {y. \<exists>x \<in> set xs. f x = Some y}"
  by (induction xs) (auto simp: map_filter_simps split: option.splits)

lemma removals_in:
  "r \<in> set (removals env) \<longleftrightarrow> (\<exists>name i. im_get (ce_created env) name = Some i \<and> r = removal_of env name i)"
  by (auto simp: removals_def set_map_filter dest: im_get_Some_key)

lemma names_removals: "map rm_name (removals env) = created_names env"
proof -
  have "map rm_name (List.map_filter (\<lambda>name. map_option (removal_of env name) (im_get m name)) ns) = ns"
    if "set ns \<subseteq> set (im_keys m)" for m ns
    using that
  proof (induction ns)
    case (Cons n ns)
    then obtain i where "im_get m n = Some i" using im_get_None[of m n] by fastforce
    with Cons show ?case by (simp add: List.map_filter_simps)
  qed (simp add: List.map_filter_simps)
  then show ?thesis by (simp add: removals_def)
qed

text \<open>
  A cleanup of a real run: container names are the keys of a map, Docker's ids are unique, and the graph
  is the one built for the task.
\<close>

definition cleanup_ok :: "cleanup_env \<Rightarrow> bool" where
  "cleanup_ok env \<longleftrightarrow> distinct (im_keys (ce_created env)) \<and> distinct (map snd (ce_created env)) \<and>
     (\<exists>tdeps. build_dependency_graph (ce_containers env) (ce_root env) tdeps = Inr (ce_graph env))"

lemma distinct_names: "cleanup_ok env \<Longrightarrow> distinct (map rm_name (removals env))"
  by (simp add: names_removals cleanup_ok_def created_names_def distinct_sort)

lemma same_id: "distinct (map snd m) \<Longrightarrow> im_get m a = Some i \<Longrightarrow> im_get m b = Some i \<Longrightarrow> a = b"
proof (induction m)
  case (Cons kv m)
  then show ?case using im_get_in[of m _ i] by (cases kv) (force split: if_splits)
qed simp

lemma distinct_ids: "cleanup_ok env \<Longrightarrow> inj_on rm_id (set (removals env))"
  using same_id[of "ce_created env"] by (fastforce simp: inj_on_def removals_in cleanup_ok_def)

lemma distinct_removals: "cleanup_ok env \<Longrightarrow> distinct (removals env)"
  using distinct_names by (auto simp: distinct_map)

text \<open>Every container is queued, in flight or being forced, or the daemon has answered for it.\<close>

definition answered :: "cleanup_log list \<Rightarrow> string \<Rightarrow> bool" where
  "answered l name \<longleftrightarrow> Stop_Answered name \<in> set l \<or> Force_Answered name \<in> set l"

definition pending :: "cleanup_state \<Rightarrow> removal set" where
  "pending st = set (cs_queued st) \<union> set (cs_in_flight st) \<union> set (cs_forced st)"

definition tracked :: "cleanup_env \<Rightarrow> cleanup_state \<Rightarrow> bool" where
  "tracked env st \<longleftrightarrow> pending st \<subseteq> set (removals env) \<and>
     (\<forall>r \<in> set (removals env). r \<in> pending st \<or>
        answered (cs_log st) (rm_name r) \<and> (rm_id r \<in> cs_removed st \<or> cs_refusals st \<noteq> []))"

fun phase_ok :: "cleanup_state \<Rightarrow> bool" where
  "phase_ok st \<longleftrightarrow> (if cs_phase st \<in> {Loop_Head, Awaiting_Stop, Draining}
       then cs_forced st = [] \<and> cs_at_escalation st = None \<and> \<not> cs_abandoned st
     else cs_queued st = [] \<and> cs_in_flight st = [] \<and>
       (if cs_phase st = Forcing then cs_at_escalation st \<noteq> None \<and> \<not> cs_abandoned st
        else cs_forced st = [] \<or> cs_abandoned st))"

definition result_ok :: "cleanup_env \<Rightarrow> cleanup_state \<Rightarrow> bool" where
  "result_ok env st \<longleftrightarrow>
     (cs_failed st \<longleftrightarrow> cs_refusals st \<noteq> [] \<or> cs_abandoned st \<and> cs_phase st = Finished) \<and>
     (cs_phase st = Removing_Network \<longrightarrow> \<not> cs_abandoned st) \<and>
     (cs_phase st = Finished \<longrightarrow> \<not> cs_failed st \<longrightarrow> ce_network env \<noteq> None \<longrightarrow> cs_network_removed st) \<and>
     (cs_phase st = Finished \<longrightarrow> cs_failed st \<longrightarrow>
        Cleanup_Error (failure_message (left_of env st) (cs_abandoned st) (cs_refusals st)) \<in> set (cs_posted st))"

lemma finish_posts:
  "cs_failed st \<or> cs_abandoned st \<Longrightarrow> cs_abandoned st = b \<Longrightarrow> cs_refusals st = rs \<Longrightarrow>
     Cleanup_Error (failure_message (left_of env (finish_cleanup env st)) b rs) \<in> set (cs_posted (finish_cleanup env st))"
  by (auto simp: finish_cleanup_def Let_def post_line_def left_of_def split: if_splits)

lemma left_of_log [simp]: "left_of env (log_all ls st) = left_of env st"
  "left_of env (st\<lparr>cs_tracker := t\<rparr>) = left_of env st" "cs_posted (log_all ls st) = cs_posted st"
  by (simp_all add: left_of_def log_all_def)

lemmas cleanup_defs = start_ready_stops_def force_what_is_left_def stop_answered_def network_answered_def Let_def

lemma answered_snoc [simp]:
  "answered (l @ ls) name \<longleftrightarrow> answered l name \<or> answered ls name"
  "answered [] name \<longleftrightarrow> False"
  "answered (Stop_Answered n # ls) name \<longleftrightarrow> n = name \<or> answered ls name"
  "answered (Force_Answered n # ls) name \<longleftrightarrow> n = name \<or> answered ls name"
  "answered [Signal_Received s] name \<longleftrightarrow> False" "answered [Network_Remove_Sent] name \<longleftrightarrow> False"
  "answered (map (\<lambda>r. Stop_Sent (rm_name r)) rs) name \<longleftrightarrow> False"
  "answered (map (\<lambda>r. Force_Sent (rm_name r)) rs) name \<longleftrightarrow> False"
  by (auto simp: answered_def)

lemma phase_ok_step: "phase_ok st \<Longrightarrow> cleanup_step env ev st = Some st' \<Longrightarrow> phase_ok st'"
  by (erule cleanup_step_cases[where env = env and ev = ev])
    (auto simp: cleanup_defs cleanup_fields split: if_splits sum.splits)

lemma result_ok_step:
  "phase_ok st \<Longrightarrow> result_ok env st \<Longrightarrow> cleanup_step env ev st = Some st' \<Longrightarrow> result_ok env st'"
  by (erule cleanup_step_cases[where env = env and ev = ev])
    (auto simp: result_ok_def cleanup_defs cleanup_fields intro!: finish_posts split: if_splits sum.splits)

lemma tracked_answer:
  assumes "tracked env st" "cleanup_ok env" "r \<in> pending st"
    and "pending st' \<subseteq> pending st" "pending st - {o'. rm_id o' = rm_id r} \<subseteq> pending st'"
    and "cs_log st' = cs_log st @ ls" "answered ls (rm_name r)"
    and "cs_removed st' = (if is_ok a then insert (rm_id r) (cs_removed st) else cs_removed st)"
    and "cs_refusals st' = (case a of Inl e \<Rightarrow> cs_refusals st @ [e] | Inr _ \<Rightarrow> cs_refusals st)"
  shows "tracked env st'"
proof -
  have "o' = r" if "o' \<in> set (removals env)" "rm_id o' = rm_id r" for o'
    using that assms(1,3) distinct_ids[OF assms(2)] by (auto simp: tracked_def inj_on_def)
  then have keep: "o' \<in> pending st'" if "o' \<in> pending st" "o' \<noteq> r" for o'
    using that assms(1,5) by (auto simp: tracked_def)
  have "o' \<in> pending st' \<or> answered (cs_log st') (rm_name o') \<and> (rm_id o' \<in> cs_removed st' \<or> cs_refusals st' \<noteq> [])"
    if "o' \<in> set (removals env)" for o'
  proof (cases "o' = r")
    case True
    then show ?thesis using assms(6-9) by (cases a) simp_all
  next
    case False
    then show ?thesis using that assms(1,6,8,9) keep[of o'] by (cases a) (auto simp: tracked_def)
  qed
  with assms(1,4) show ?thesis by (auto simp: tracked_def)
qed

lemma tracked_step:
  assumes "tracked env st" "cleanup_ok env" "phase_ok st" "cleanup_step env ev st = Some st'"
  shows "tracked env st'"
  using assms(4)
proof (cases rule: cleanup_step_cases)
  case (stop r a)
  then show ?thesis using assms(1-3)
    by (intro tracked_answer[of env st r st' "[Stop_Answered (rm_name r)]" a])
      (auto simp: pending_def stop_answered_def Let_def cleanup_fields)
next
  case (drain r a)
  then show ?thesis using assms(1-3)
    by (intro tracked_answer[of env st r st' "[Stop_Answered (rm_name r)]" a])
      (auto simp: pending_def stop_answered_def Let_def cleanup_fields)
next
  case (forced r a)
  then show ?thesis using assms(1-3)
    by (intro tracked_answer[of env st r st' "[Force_Answered (rm_name r)]" a])
      (auto simp: pending_def cleanup_fields)
next
  case (network_answer a)
  then show ?thesis using assms(1,3)
    by (cases a) (auto simp: tracked_def pending_def network_answered_def cleanup_fields)
qed (use assms(1,3) in \<open>auto simp: tracked_def pending_def cleanup_defs cleanup_fields split: if_splits\<close>)

section \<open>What the log shows of the signals\<close>

definition signals_in :: "cleanup_log list \<Rightarrow> termination_signal list" where
  "signals_in l = List.map_filter (\<lambda>e. case e of Signal_Received s \<Rightarrow> Some s | _ \<Rightarrow> None) l"

definition sigints_in :: "cleanup_log list \<Rightarrow> nat" where
  "sigints_in l = length (filter (\<lambda>s. s = Interrupt) (signals_in l))"

lemma signals_in_simps [simp]:
  "signals_in [] = []" "signals_in (l @ ls) = signals_in l @ signals_in ls"
  "signals_in (Signal_Received s # l) = s # signals_in l"
  "signals_in (Stop_Sent n # l) = signals_in l" "signals_in (Stop_Answered n # l) = signals_in l"
  "signals_in (Force_Sent n # l) = signals_in l" "signals_in (Force_Answered n # l) = signals_in l"
  "signals_in (Network_Remove_Sent # l) = signals_in l"
  "signals_in (map (\<lambda>r. Stop_Sent (rm_name r)) rs) = []" "signals_in (map (\<lambda>r. Force_Sent (rm_name r)) rs) = []"
  by (auto simp: signals_in_def map_filter_def o_def filter_empty_conv)

lemma sigints_in_append [simp]: "sigints_in (l @ ls) = sigints_in l + sigints_in ls"
  by (simp add: sigints_in_def)

lemma signals_in_set: "s \<in> set (signals_in l) \<longleftrightarrow> Signal_Received s \<in> set l"
proof (induction l)
  case (Cons e l)
  then show ?case by (cases e) auto
qed simp

text \<open>A count of \<open>SIGINT\<close>s taken after some signal of the cleanup.\<close>

definition count_after_signal :: "cleanup_env \<Rightarrow> cleanup_log list \<Rightarrow> nat \<Rightarrow> bool" where
  "count_after_signal env l base \<longleftrightarrow>
     (\<exists>xs ys. l = xs @ ys \<and> signals_in xs \<noteq> [] \<and> base = sigint_count (ce_tracker env) + sigints_in xs)"

definition sigint_after_signal :: "cleanup_log list \<Rightarrow> bool" where
  "sigint_after_signal l \<longleftrightarrow> (\<exists>xs ys. l = xs @ Signal_Received Interrupt # ys \<and> signals_in xs \<noteq> [])"

definition signals_ok :: "cleanup_env \<Rightarrow> cleanup_state \<Rightarrow> bool" where
  "signals_ok env st \<longleftrightarrow>
     signal_count (cs_tracker st) = signal_count (ce_tracker env) + length (signals_in (cs_log st)) \<and>
     sigint_count (cs_tracker st) = sigint_count (ce_tracker env) + sigints_in (cs_log st) \<and>
     (\<forall>b. cs_at_escalation st = Some b \<longrightarrow> count_after_signal env (cs_log st) b) \<and>
     (\<forall>b. cs_rung st = Some b \<longrightarrow> count_after_signal env (cs_log st) b) \<and>
     (cs_abandoned st \<longrightarrow> sigint_after_signal (cs_log st)) \<and>
     (cs_phase st = Draining \<longrightarrow> cs_in_flight st @ cs_queued st \<noteq> [] \<longrightarrow> signals_in (cs_log st) \<noteq> [])"

lemma count_after_signal_append: "count_after_signal env l b \<Longrightarrow> count_after_signal env (l @ ls) b"
  unfolding count_after_signal_def by (metis append.assoc)

lemma count_after_signal_now:
  "signals_in l \<noteq> [] \<Longrightarrow> count_after_signal env l (sigint_count (ce_tracker env) + sigints_in l)"
  unfolding count_after_signal_def by (intro exI[of _ l] exI[of _ "[]"]) simp

lemma sigint_after_signal_append: "sigint_after_signal l \<Longrightarrow> sigint_after_signal (l @ ls)"
  unfolding sigint_after_signal_def by force

lemma more_sigints:
  assumes "count_after_signal env l b" and "b + 1 \<le> sigint_count (ce_tracker env) + sigints_in l"
  shows "sigint_after_signal l"
proof -
  from assms(1) obtain xs ys where l: "l = xs @ ys" "signals_in xs \<noteq> []"
    "b = sigint_count (ce_tracker env) + sigints_in xs" unfolding count_after_signal_def by blast
  with assms(2) have "0 < sigints_in ys" by simp
  then have "Interrupt \<in> set (signals_in ys)" by (auto simp: sigints_in_def filter_empty_conv)
  then obtain us vs where "ys = us @ Signal_Received Interrupt # vs" by (auto simp: signals_in_set dest: split_list)
  with l show ?thesis unfolding sigint_after_signal_def by (intro exI[of _ "xs @ us"] exI[of _ vs]) simp
qed

section \<open>The order of the daemon calls\<close>

definition graph_above :: "cleanup_env \<Rightarrow> string \<Rightarrow> string set" where
  "graph_above env d = {c \<in> set (created_names env). (c, d) \<in> (edges_of (graph_succs (ce_graph env)))\<^sup>+}"

fun orderly_entry :: "cleanup_env \<Rightarrow> cleanup_log list \<Rightarrow> cleanup_log \<Rightarrow> bool" where
  "orderly_entry env xs (Signal_Received s) \<longleftrightarrow> True"
| "orderly_entry env xs (Stop_Sent d) \<longleftrightarrow>
     Stop_Sent d \<notin> set xs \<and> (\<forall>c \<in> graph_above env d. Stop_Answered c \<in> set xs)"
| "orderly_entry env xs (Stop_Answered d) \<longleftrightarrow> Stop_Sent d \<in> set xs \<and> Stop_Answered d \<notin> set xs"
| "orderly_entry env xs (Force_Sent d) \<longleftrightarrow>
     signals_in xs \<noteq> [] \<and> Stop_Answered d \<notin> set xs \<and> Force_Sent d \<notin> set xs"
| "orderly_entry env xs (Force_Answered d) \<longleftrightarrow> Force_Sent d \<in> set xs \<and> Force_Answered d \<notin> set xs"
| "orderly_entry env xs Network_Remove_Sent \<longleftrightarrow> (\<forall>c \<in> set (created_names env). answered xs c)"

definition orderly :: "cleanup_env \<Rightarrow> cleanup_log list \<Rightarrow> bool" where
  "orderly env l \<longleftrightarrow> (\<forall>xs e ys. l = xs @ e # ys \<longrightarrow> orderly_entry env xs e)"

lemma orderly_Nil: "orderly env []"
  by (simp add: orderly_def)

lemma orderly_snoc: "orderly env (l @ [e]) \<longleftrightarrow> orderly env l \<and> orderly_entry env l e"
proof
  assume "orderly env (l @ [e])"
  then show "orderly env l \<and> orderly_entry env l e" by (auto simp: orderly_def)
next
  assume *: "orderly env l \<and> orderly_entry env l e"
  show "orderly env (l @ [e])" unfolding orderly_def
  proof (intro allI impI)
    fix xs f ys assume "l @ [e] = xs @ f # ys"
    with * show "orderly_entry env xs f" by (cases ys rule: rev_cases) (auto simp: orderly_def)
  qed
qed

lemma orderly_batch:
  assumes "orderly env l" "distinct es"
    and "\<And>e ls. e \<in> set es \<Longrightarrow> set ls \<subseteq> set es - {e} \<Longrightarrow> orderly_entry env (l @ ls) e"
  shows "orderly env (l @ es)"
  using assms
proof (induction es rule: rev_induct)
  case (snoc e es)
  have "orderly env (l @ es)" by (rule snoc.IH) (use snoc.prems in \<open>auto intro: snoc.prems(3)\<close>)
  moreover have "orderly_entry env (l @ es) e" using snoc.prems(2) by (intro snoc.prems(3)) auto
  ultimately show ?case using orderly_snoc[of env "l @ es" e] by simp
qed simp

definition graceful :: "cleanup_state \<Rightarrow> bool" where
  "graceful st \<longleftrightarrow> cs_phase st \<in> {Loop_Head, Awaiting_Stop, Draining}"

definition log_matches :: "cleanup_state \<Rightarrow> bool" where
  "log_matches st \<longleftrightarrow> distinct (cs_queued st @ cs_in_flight st @ cs_forced st) \<and>
     (\<forall>r \<in> set (cs_queued st). Stop_Sent (rm_name r) \<notin> set (cs_log st) \<and> Stop_Answered (rm_name r) \<notin> set (cs_log st)) \<and>
     (\<forall>r \<in> set (cs_in_flight st). Stop_Sent (rm_name r) \<in> set (cs_log st) \<and> Stop_Answered (rm_name r) \<notin> set (cs_log st)) \<and>
     (\<forall>r \<in> set (cs_forced st). Force_Sent (rm_name r) \<in> set (cs_log st) \<and> Force_Answered (rm_name r) \<notin> set (cs_log st)) \<and>
     (graceful st \<longrightarrow> (\<forall>n. Force_Sent n \<notin> set (cs_log st) \<and> Force_Answered n \<notin> set (cs_log st)))"

definition waiting_matches :: "cleanup_env \<Rightarrow> cleanup_state \<Rightarrow> bool" where
  "waiting_matches env st \<longleftrightarrow>
     (cs_phase st \<in> {Loop_Head, Awaiting_Stop} \<longrightarrow>
        (\<forall>d \<in> set (created_names env). im_get (cs_waiting st) d =
           Some {c \<in> graph_above env d. Stop_Answered c \<notin> set (cs_log st)})) \<and>
     (cs_phase st = Awaiting_Stop \<longrightarrow> (\<forall>r \<in> set (cs_queued st). \<not> may_stop st r))"

lemma same_name:
  assumes "cleanup_ok env" "r \<in> set (removals env)" "r' \<in> set (removals env)" "rm_name r = rm_name r'"
  shows "r = r'"
  using assms distinct_names[OF assms(1)] by (auto simp: distinct_map inj_on_def)

lemma name_created: "r \<in> set (removals env) \<Longrightarrow> rm_name r \<in> set (created_names env)"
  by (simp flip: names_removals)

lemma log_matches_answer:
  assumes ok: "cleanup_ok env" and "log_matches st" "pending st \<subseteq> set (removals env)" and r: "r \<in> set (cs_in_flight st)"
    and "graceful st" "cs_forced st = []"
  shows "log_matches (stop_answered r a st)"
proof -
  have "rm_name o' \<noteq> rm_name r" if "o' \<in> pending st" "o' \<noteq> r" for o'
    using that assms(3) r same_name[OF ok, of o' r] by (auto simp: pending_def)
  moreover have "rm_id o' \<noteq> rm_id r \<Longrightarrow> o' \<noteq> r" for o' by auto
  ultimately show ?thesis using assms(2,5,6) r
    by (auto simp: log_matches_def graceful_def stop_answered_def Let_def cleanup_fields pending_def)
qed

lemma log_matches_forced_answer:
  assumes ok: "cleanup_ok env" and "log_matches st" "pending st \<subseteq> set (removals env)" and r: "r \<in> set (cs_forced st)"
    and "cs_phase st = Forcing"
  shows "log_matches ((log_all [Force_Answered (rm_name r)] (report r a st))\<lparr>
    cs_forced := filter (\<lambda>other. rm_id other \<noteq> rm_id r) (cs_forced st)\<rparr>)"
proof -
  have "rm_name o' \<noteq> rm_name r" if "o' \<in> pending st" "o' \<noteq> r" for o'
    using that assms(3) r same_name[OF ok, of o' r] by (auto simp: pending_def)
  moreover have "rm_id o' \<noteq> rm_id r \<Longrightarrow> o' \<noteq> r" for o' by auto
  ultimately show ?thesis using assms(2,5)
    by (auto simp: log_matches_def graceful_def cleanup_fields pending_def)
qed

lemma log_matches_batch:
  assumes ok: "cleanup_ok env" and "log_matches st" "pending st \<subseteq> set (removals env)" "cs_forced st = []"
    and "cs_phase st = Loop_Head"
  shows "log_matches (start_ready_stops st)"
proof -
  have "Stop_Sent (rm_name r) \<notin> (\<lambda>r. Stop_Sent (rm_name r)) ` {r \<in> set (cs_queued st). may_stop st r}"
    if "r \<in> set (cs_queued st)" "\<not> may_stop st r" for r
    using that assms(3) same_name[OF ok] by (auto simp: pending_def)
  then show ?thesis using assms(2,4,5)
    by (auto simp: log_matches_def graceful_def start_ready_stops_def Let_def cleanup_fields)
qed

lemma log_matches_step:
  assumes "log_matches st" "tracked env st" "cleanup_ok env" "phase_ok st" "cleanup_step env ev st = Some st'"
  shows "log_matches st'"
  using assms(5)
proof (cases rule: cleanup_step_cases)
  case (stop r a)
  then have "log_matches (stop_answered r a st)"
    using assms(1-4) by (intro log_matches_answer) (auto simp: tracked_def graceful_def)
  with stop assms(4) show ?thesis by (simp add: log_matches_def graceful_def stop_answered_def Let_def cleanup_fields)
next
  case (drain r a)
  then show ?thesis using assms(1-4) by (auto simp: tracked_def graceful_def intro!: log_matches_answer)
next
  case (forced r a)
  then show ?thesis using assms(1-3) by (auto simp: tracked_def intro!: log_matches_forced_answer)
next
  case batch
  then show ?thesis using assms(1-4) by (auto simp: tracked_def intro!: log_matches_batch)
next
  case force
  then show ?thesis using assms(1,4)
    by (auto simp: log_matches_def graceful_def force_what_is_left_def Let_def cleanup_fields)
next
  case (network_answer a)
  then show ?thesis using assms(1,4)
    by (cases a) (auto simp: log_matches_def graceful_def network_answered_def cleanup_fields)
qed (use assms(1,4) in \<open>auto simp: log_matches_def graceful_def cleanup_fields split: if_splits\<close>)

lemma im_get_release: "im_get (release_dependencies n m) d = map_option (\<lambda>w. w - {n}) (im_get m d)"
  by (induction m) (auto simp: release_dependencies_def)

lemma may_stop_cong: "cs_waiting st' = cs_waiting st \<Longrightarrow> may_stop st' = may_stop st"
  by (simp add: may_stop_def fun_eq_iff)

lemma waiting_matches_step:
  assumes "waiting_matches env st" "cleanup_step env ev st = Some st'"
  shows "waiting_matches env st'"
  using assms(2)
proof (cases rule: cleanup_step_cases)
  case (stop r a)
  then show ?thesis using assms(1)
    by (auto simp: waiting_matches_def stop_answered_def Let_def cleanup_fields im_get_release)
next
  case batch
  then have "cs_waiting st' = cs_waiting st" by (simp add: start_ready_stops_def Let_def cleanup_fields)
  from may_stop_cong[OF this] batch show ?thesis using assms(1)
    by (auto simp: waiting_matches_def start_ready_stops_def Let_def cleanup_fields)
next
  case (signal s)
  then have "cs_waiting st' = cs_waiting st" by (simp add: cleanup_fields)
  from may_stop_cong[OF this] signal show ?thesis using assms(1)
    by (auto simp: waiting_matches_def cleanup_fields)
next
  case (said i r)
  then have "cs_waiting st' = cs_waiting st" by (simp add: cleanup_fields split: if_splits)
  from may_stop_cong[OF this] said show ?thesis using assms(1)
    by (auto simp: waiting_matches_def cleanup_fields split: if_splits)
next
  case (network_answer a)
  then show ?thesis by (simp add: waiting_matches_def network_answered_def cleanup_fields)
qed (simp_all add: waiting_matches_def cleanup_defs cleanup_fields)

text \<open>While the daemon answers, something is in flight as long as something is queued.\<close>

lemma something_in_flight:
  assumes ok: "cleanup_ok env" and "tracked env st" "log_matches st" "waiting_matches env st" "phase_ok st"
    and "cs_phase st = Awaiting_Stop" "cs_in_flight st = []"
  shows "cs_queued st = []"
proof (rule ccontr)
  assume "cs_queued st \<noteq> []"
  obtain tdeps where g: "build_dependency_graph (ce_containers env) (ce_root env) tdeps = Inr (ce_graph env)"
    using ok by (auto simp: cleanup_ok_def)
  let ?R = "rm_name ` set (cs_queued st)"
  have sub: "set (cs_queued st) \<subseteq> set (removals env)" using assms(2) by (auto simp: tracked_def pending_def)
  then have "?R \<subseteq> set (created_names env)" by (auto intro: name_created simp del: set_created_names)
  from stoppable_container[OF g this] \<open>cs_queued st \<noteq> []\<close> obtain r where
    r: "r \<in> set (cs_queued st)" "graph_above env (rm_name r) \<inter> ?R = {}"
    using sub by (auto simp: dependents_eq graph_above_def split: if_splits)
  have "Stop_Answered c \<in> set (cs_log st)" if "c \<in> graph_above env (rm_name r)" for c
  proof -
    have "c \<in> rm_name ` set (removals env)" using that by (auto simp: graph_above_def simp flip: names_removals)
    then obtain r' where "r' \<in> set (removals env)" "rm_name r' = c" by auto
    moreover have "r' \<notin> pending st" using r(2) that \<open>rm_name r' = c\<close> assms(5-7) by (auto simp: pending_def)
    ultimately show ?thesis using assms(2,3,6)
      by (auto simp: tracked_def log_matches_def graceful_def answered_def)
  qed
  moreover have "rm_name r \<in> set (created_names env)" using r(1) sub name_created by blast
  ultimately have "may_stop st r" using assms(4,6) by (auto simp: waiting_matches_def may_stop_def)
  with r(1) assms(4,6) show False by (auto simp: waiting_matches_def)
qed

lemma signals_ok_step:
  assumes "signals_ok env st" "phase_ok st" "cleanup_step env ev st = Some st'"
    and idle: "cs_phase st = Awaiting_Stop \<Longrightarrow> cs_in_flight st = [] \<Longrightarrow> cs_queued st = []"
  shows "signals_ok env st'"
  using assms(3)
proof (cases rule: cleanup_step_cases)
  case (signal s)
  then show ?thesis using assms(1)
    by (auto simp: signals_ok_def cleanup_fields sigints_in_def
        intro: count_after_signal_append sigint_after_signal_append)
next
  case (abandon base)
  then show ?thesis using assms(1) more_sigints[of env "cs_log st" base]
    by (auto simp: signals_ok_def wait_for_interrupts_def)
next
  case (network_abandon base)
  then show ?thesis using assms(1) more_sigints[of env "cs_log st" base]
    by (auto simp: signals_ok_def wait_for_interrupts_def cleanup_fields)
next
  case rung
  then show ?thesis using assms(1) count_after_signal_now[of "cs_log st" env]
    by (cases "signals_in (cs_log st) = []") (auto simp: signals_ok_def wait_for_def escalate_at_def)
next
  case force
  then show ?thesis using assms(1,2) count_after_signal_now[of "cs_log st" env]
    by (auto simp: signals_ok_def force_what_is_left_def Let_def cleanup_fields sigints_in_def
        intro: count_after_signal_append sigint_after_signal_append)
next
  case (network_answer a)
  then show ?thesis using assms(1)
    by (cases a) (auto simp: signals_ok_def network_answered_def cleanup_fields)
next
  case (escalate)
  then show ?thesis using assms(1) by (auto simp: signals_ok_def wait_for_def escalate_at_def)
qed (use assms(1,2) idle in \<open>auto simp: signals_ok_def cleanup_defs cleanup_fields sigints_in_def
        intro: count_after_signal_append sigint_after_signal_append split: if_splits\<close>)

lemma orderly_step:
  assumes ok: "cleanup_ok env" and inv: "tracked env st" "log_matches st" "waiting_matches env st" "signals_ok env st" "phase_ok st"
    and ord: "orderly env (cs_log st)" and step: "cleanup_step env ev st = Some st'"
  shows "orderly env (cs_log st')"
proof -
  have inj: "inj_on rm_name (set (removals env))" using distinct_names[OF ok] by (simp add: distinct_map)
  have mine: "pending st \<subseteq> set (removals env)" using inv(1) by (simp add: tracked_def)
  have once: "distinct (map (\<lambda>r. f (rm_name r)) rs)"
    if "distinct rs" "set rs \<subseteq> pending st" "inj f" for f :: "string \<Rightarrow> cleanup_log" and rs
    using that inj mine by (simp add: distinct_map inj_on_def inj_def) (meson subsetD)
  show ?thesis using step
  proof (cases rule: cleanup_step_cases)
    case batch
    let ?ready = "filter (may_stop st) (cs_queued st)"
    have "orderly env (cs_log st @ map (\<lambda>r. Stop_Sent (rm_name r)) ?ready)"
    proof (rule orderly_batch[OF ord])
      show "distinct (map (\<lambda>r. Stop_Sent (rm_name r)) ?ready)"
        using inv(2) by (intro once) (auto simp: log_matches_def pending_def inj_def)
      fix e ls assume "e \<in> set (map (\<lambda>r. Stop_Sent (rm_name r)) ?ready)" and
        ls: "set ls \<subseteq> set (map (\<lambda>r. Stop_Sent (rm_name r)) ?ready) - {e}"
      then obtain r where r: "e = Stop_Sent (rm_name r)" "r \<in> set (cs_queued st)" "may_stop st r" by auto
      then have "rm_name r \<in> set (created_names env)" using mine name_created by (auto simp: pending_def)
      then have "\<forall>c \<in> graph_above env (rm_name r). Stop_Answered c \<in> set (cs_log st)"
        using r(3) inv(3) batch(2) by (auto simp: waiting_matches_def may_stop_def)
      then show "orderly_entry env (cs_log st @ ls) e" using r inv(2) ls by (auto simp: log_matches_def)
    qed
    with batch show ?thesis by (simp add: start_ready_stops_def Let_def cleanup_fields)
  next
    case force
    let ?rest = "cs_in_flight st @ cs_queued st"
    have "orderly env (cs_log st @ map (\<lambda>r. Force_Sent (rm_name r)) ?rest)"
    proof (rule orderly_batch[OF ord])
      show "distinct (map (\<lambda>r. Force_Sent (rm_name r)) ?rest)"
        using inv(2) by (intro once) (auto simp: log_matches_def pending_def inj_def)
      fix e ls assume "e \<in> set (map (\<lambda>r. Force_Sent (rm_name r)) ?rest)" and
        ls: "set ls \<subseteq> set (map (\<lambda>r. Force_Sent (rm_name r)) ?rest) - {e}"
      then obtain r where r: "e = Force_Sent (rm_name r)" "r \<in> set ?rest" by auto
      moreover have "signals_in (cs_log st) \<noteq> []" using r(2) inv(4) force(2) by (auto simp: signals_ok_def)
      ultimately show "orderly_entry env (cs_log st @ ls) e" using inv(2) force(2) ls
        by (auto simp: log_matches_def graceful_def)
    qed
    with force ord show ?thesis by (simp add: force_what_is_left_def Let_def cleanup_fields)
  next
    case network
    have "\<forall>c \<in> set (created_names env). answered (cs_log st) c"
      using inv(1,5) network by (auto simp: tracked_def pending_def simp flip: names_removals)
    with network ord show ?thesis by (simp add: cleanup_fields orderly_snoc)
  next
    case (network_answer a)
    with ord show ?thesis by (cases a) (simp_all add: network_answered_def cleanup_fields)
  qed (use ord inv(2) in \<open>auto simp: cleanup_defs cleanup_fields orderly_snoc log_matches_def split: if_splits\<close>)
qed

section \<open>The invariant and the end of a cleanup\<close>

definition cleanup_inv :: "cleanup_env \<Rightarrow> cleanup_state \<Rightarrow> bool" where
  "cleanup_inv env st \<longleftrightarrow> phase_ok st \<and> result_ok env st \<and> pending st \<subseteq> set (removals env) \<and>
     (cleanup_ok env \<longrightarrow> tracked env st \<and> log_matches st \<and> waiting_matches env st \<and> signals_ok env st \<and>
        orderly env (cs_log st))"

lemma cleanup_inv_start: "cleanup_inv env (start_cleanup env)"
  by (auto simp: cleanup_inv_def start_cleanup_def result_ok_def pending_def tracked_def log_matches_def graceful_def
      waiting_matches_def dependents_eq graph_above_def signals_ok_def orderly_Nil sigints_in_def distinct_removals)

lemma pending_shrinks: "cleanup_step env ev st = Some st' \<Longrightarrow> pending st' \<subseteq> pending st"
  by (erule cleanup_step_cases[where env = env and ev = ev])
    (auto simp: pending_def cleanup_defs cleanup_fields split: if_splits sum.splits)

lemma cleanup_inv_step:
  assumes inv: "cleanup_inv env st" and step: "cleanup_step env ev st = Some st'"
  shows "cleanup_inv env st'"
proof -
  have "phase_ok st'" "result_ok env st'" "pending st' \<subseteq> set (removals env)"
    using inv phase_ok_step[OF _ step] result_ok_step[OF _ _ step] pending_shrinks[OF step]
    by (auto simp: cleanup_inv_def)
  moreover have "tracked env st' \<and> log_matches st' \<and> waiting_matches env st' \<and> signals_ok env st' \<and> orderly env (cs_log st')"
    if ok: "cleanup_ok env"
    using inv ok tracked_step[OF _ ok _ step] log_matches_step[OF _ _ ok _ step] waiting_matches_step[OF _ step]
      signals_ok_step[OF _ _ step] something_in_flight[OF ok, of st] orderly_step[OF ok _ _ _ _ _ _ step]
    by (simp add: cleanup_inv_def)
  ultimately show ?thesis by (simp add: cleanup_inv_def)
qed

fun phase_rank :: "cleanup_state \<Rightarrow> nat" where
  "phase_rank st = (case cs_phase st of Loop_Head \<Rightarrow> 7 | Awaiting_Stop \<Rightarrow> 6 | Draining \<Rightarrow> 5 | Forcing \<Rightarrow> 4
     | Before_Network \<Rightarrow> 3 | Removing_Network \<Rightarrow> (if cs_rung st = None then 2 else 1) | Finished \<Rightarrow> 0)"

definition cleanup_rank :: "cleanup_env \<Rightarrow> cleanup_state \<Rightarrow> nat" where
  "cleanup_rank env st = 4 * (length (cs_queued st) + length (cs_in_flight st)) + 2 * length (cs_forced st) +
     phase_rank st + card (rm_id ` set (removals env) - cs_said_stopped st)"

fun is_signal :: "cleanup_event \<Rightarrow> bool" where
  "is_signal (Signal s) = True"
| "is_signal _ = False"

lemma filter_shrinks: "r \<in> set rs \<Longrightarrow> length (filter (\<lambda>o'. rm_id o' \<noteq> rm_id r) rs) < length rs"
  by (rule length_filter_less) auto

lemma cleanup_rank_step:
  assumes "cleanup_inv env st" "cleanup_step env ev st = Some st'" "\<not> is_signal ev"
  shows "cleanup_rank env st' < cleanup_rank env st"
  using assms(2)
proof (cases rule: cleanup_step_cases)
  case (said i r)
  then have "i \<in> rm_id ` set (removals env) - cs_said_stopped st"
    using assms(1) by (auto simp: cleanup_inv_def pending_def)
  then have "card (rm_id ` set (removals env) - insert i (cs_said_stopped st)) < card (rm_id ` set (removals env) - cs_said_stopped st)"
    by (intro psubset_card_mono) auto
  with said show ?thesis by (auto simp: cleanup_rank_def cleanup_fields)
next
  case batch
  then show ?thesis using sum_length_filter_compl[of "may_stop st" "cs_queued st"]
    by (simp add: cleanup_rank_def start_ready_stops_def Let_def cleanup_fields)
next
  case (stop r a)
  then show ?thesis using filter_shrinks[of r "cs_in_flight st"]
    by (simp add: cleanup_rank_def stop_answered_def Let_def cleanup_fields)
next
  case (drain r a)
  then show ?thesis using filter_shrinks[of r "cs_in_flight st"]
    by (simp add: cleanup_rank_def stop_answered_def Let_def cleanup_fields)
next
  case (forced r a)
  then show ?thesis using filter_shrinks[of r "cs_forced st"] by (simp add: cleanup_rank_def cleanup_fields)
next
  case force
  then show ?thesis using assms(1)
    by (auto simp: cleanup_inv_def cleanup_rank_def force_what_is_left_def Let_def cleanup_fields)
next
  case (network_answer a)
  then show ?thesis by (cases a) (simp_all add: cleanup_rank_def network_answered_def cleanup_fields)
qed (use assms(3) in \<open>auto simp: cleanup_rank_def cleanup_fields\<close>)

lemma answer_possible:
  assumes "cleanup_inv env st" "cs_phase st \<noteq> Finished"
  shows "\<exists>e st'. \<not> is_signal e \<and> cleanup_step env e st = Some st'"
proof -
  have found: "List.find (\<lambda>o'. rm_id o' = rm_id r) (r # rs) = Some r" for r and rs :: "removal list" by simp
  show ?thesis
  proof (cases "cs_phase st")
    case Awaiting_Stop
    then show ?thesis using found
      by (cases "cs_in_flight st") (force intro: exI[of _ Turn] exI[of _ "Stop_Answer _ (Inr ())"] simp: in_flight_with_def)+
  next
    case Forcing
    then show ?thesis using found
      by (cases "cs_forced st") (force intro: exI[of _ Turn] exI[of _ "Force_Answer _ (Inr ())"] simp: Let_def)+
  next
    case Removing_Network
    then show ?thesis by (intro exI[of _ "Network_Answer (Inr ())"]) simp
  qed (use assms(2) in \<open>auto intro!: exI[of _ Turn]\<close>)
qed

interpretation cleanup_machine: terminating_machine "cleanup_step env" "start_cleanup env" "cleanup_inv env"
    is_signal "cleanup_rank env" "\<lambda>st. cs_phase st = Finished" for env
proof unfold_locales
  show "cleanup_rank env s' \<le> cleanup_rank env s" if "cleanup_step env e s = Some s'" "is_signal e" for s e s'
    using that by (cases e) (auto simp: cleanup_rank_def log_all_def)
next
  show "\<exists>e s'. \<not> is_signal e \<and> cleanup_step env e s = Some s'"
    if "cleanup_inv env s" "cs_phase s \<noteq> Finished" for s
    using that by (rule answer_possible)
qed (auto intro: cleanup_inv_start cleanup_inv_step cleanup_rank_step)

lemma cleanup_rank_start: "cleanup_rank env (start_cleanup env) \<le> 5 * length (removals env) + 7"
  using card_length[of "map rm_id (removals env)"] by (simp add: cleanup_rank_def start_cleanup_def)

lemma cleanup_run_reach:
  "run_events (cleanup_step env) es (start_cleanup env) = Some st \<Longrightarrow> cleanup_reach env st"
  by (rule run_events_reach[OF reach_start])

text \<open>
  C4 (cleanup_order): whatever the daemon answers and whenever signals arrive, a container is asked to stop once at
  most and only after every created container that depends on it has been answered for; a container is
  removed by force only after a signal of the cleanup and only if its stop was not answered; the
  network goes last; and cleanup is abandoned only after a \<open>SIGINT\<close> that follows an earlier signal, so
  a supervisor's \<open>SIGTERM\<close>s never abandon it.
\<close>

theorem cleanup_order:
  assumes "cleanup_ok env" and "cleanup_reach env st"
  shows "orderly env (cs_log st) \<and> (cs_abandoned st \<longrightarrow> sigint_after_signal (cs_log st))"
  using cleanup_machine.reach_invar[OF assms(2)] assms(1) by (simp add: cleanup_inv_def signals_ok_def)

lemma cleanup_finished:
  assumes "cleanup_ok env" and "cleanup_reach env st" and "cs_phase st = Finished"
  shows "(cs_failed st \<longleftrightarrow> cs_refusals st \<noteq> [] \<or> cs_abandoned st) \<and>
    (\<not> cs_failed st \<longrightarrow> left_behind_is_empty (left_of env st)) \<and>
    (cs_failed st \<longrightarrow>
       Cleanup_Error (failure_message (left_of env st) (cs_abandoned st) (cs_refusals st)) \<in> set (cs_posted st))"
proof -
  have inv: "phase_ok st" "result_ok env st" "tracked env st"
    using cleanup_machine.reach_invar[OF assms(2)] assms(1) by (simp_all add: cleanup_inv_def)
  then have "left_behind_is_empty (left_of env st)" if "\<not> cs_failed st"
    using that assms(3)
    by (auto simp: result_ok_def tracked_def pending_def left_behind_is_empty_def left_of_def to_remove_def filter_empty_conv)
  with inv(2) assms(3) show ?thesis by (auto simp: result_ok_def)
qed


text \<open>
  C6 (cleanup_terminates): a cleanup ends. Whatever it has done and however many signals have arrived, it has taken
  at most five steps for each container and seven more, and from there the daemon's answers bring it to
  its end without any further signal.
\<close>

theorem cleanup_terminates:
  assumes "run_events (cleanup_step env) es (start_cleanup env) = Some st"
  shows "length (filter (\<lambda>e. \<not> is_signal e) es) \<le> 5 * length (removals env) + 7 \<and>
    (\<exists>es' st'. run_events (cleanup_step env) es' st = Some st' \<and> cs_phase st' = Finished \<and> (\<forall>e \<in> set es'. \<not> is_signal e))"
  using cleanup_machine.run_bounded[OF cleanup_inv_start assms] cleanup_rank_start[of env]
    cleanup_machine.reaches_final[OF cleanup_machine.reach_invar[OF cleanup_run_reach[OF assms]]]
  by simp

section \<open>A cleanup with two signals\<close>

text \<open>A task whose container depends on a database; the second signal abandons the forced removal.\<close>

definition example_cleanup :: cleanup_env where
  "example_cleanup =
     \<lparr>ce_graph = [(''db'', []), (''app'', [''db''])],
      ce_containers = [(''app'', container_default\<lparr>dependencies := Some [''db'']\<rparr>), (''db'', container_default)],
      ce_root = ''app'', ce_created = [(''app'', ''a1''), (''db'', ''d1'')], ce_started = {''app'', ''db''},
      ce_network = Some ''net'', ce_tracker = new_tracker, ce_interrupted_by = None\<rparr>"

definition example_events :: "cleanup_event list" where
  "example_events = [Turn, Stop_Succeeded ''a1'', Stop_Answer ''a1'' (Inr ()), Turn, Signal Terminate, Turn, Turn,
     Signal Interrupt, Turn, Turn]"

lemma example_cleanup_ok: "cleanup_ok example_cleanup"
  unfolding cleanup_ok_def example_cleanup_def
  by (simp, intro exI[of _ None])
    (simp add: build_dependency_graph_def visit_container.simps im_contains_def container_default_def sort_dedup_def)

lemma example_names: "created_names example_cleanup = [''app'', ''db'']"
  by (simp add: created_names_def example_cleanup_def)

lemma example_removals:
  "removals example_cleanup = [removal_of example_cleanup ''app'' ''a1'', removal_of example_cleanup ''db'' ''d1'']"
  unfolding removals_def example_names by (simp add: example_cleanup_def map_filter_simps)

lemma example_waiting: "dependents_to_stop_first (ce_graph example_cleanup) [''app'', ''db''] = [(''app'', {}), (''db'', {''app''})]"
  by (simp add: dependents_to_stop_first_def reach_def graph_succs_def example_cleanup_def)

lemma example_run:
  "\<exists>st. run_events (cleanup_step example_cleanup) example_events (start_cleanup example_cleanup) = Some st \<and>
     cs_phase st = Finished \<and> cs_abandoned st \<and> cs_failed st \<and>
     cs_log st = [Stop_Sent ''app'', Stop_Answered ''app'', Stop_Sent ''db'', Signal_Received Terminate,
       Force_Sent ''db'', Signal_Received Interrupt]"
  unfolding start_cleanup_def example_names example_waiting example_removals
  by (simp add: example_events_def start_ready_stops_def may_stop_def in_flight_with_def Let_def cleanup_fields
      stop_answered_def release_dependencies_def escalate_at_def wait_for_def wait_for_interrupts_def
      force_what_is_left_def begin_network_removal_def)

theorem cleanup_order_witness:
  "\<exists>st. cleanup_reach example_cleanup st \<and> orderly example_cleanup (cs_log st) \<and> cs_abandoned st \<and> sigint_after_signal (cs_log st)"
proof -
  obtain st where run: "run_events (cleanup_step example_cleanup) example_events (start_cleanup example_cleanup) = Some st"
    "cs_abandoned st" using example_run by blast
  from cleanup_order[OF example_cleanup_ok cleanup_run_reach[OF run(1)]] run cleanup_run_reach show ?thesis by blast
qed


theorem cleanup_terminates_witness:
  "length (filter (\<lambda>e. \<not> is_signal e) example_events) \<le> 5 * length (removals example_cleanup) + 7"
proof -
  obtain st where run: "run_events (cleanup_step example_cleanup) example_events (start_cleanup example_cleanup) = Some st"
    using example_run by blast
  from cleanup_terminates[OF run] show ?thesis by simp
qed

end
