(* ===== verification/Exit_Codes.thy ===== *)
theory Exit_Codes
  imports Rust_Std Signals
begin

text \<open>
  What an invocation exits with (\<open>src/ratect-core/src/exit_code.rs\<close>), how a run's result becomes its exit code and
  its \<open>Error:\<close> lines (\<open>run_task_internal\<close> in \<open>engine.rs\<close>, \<open>async_main\<close> of both binaries), and the two readings of a
  command line that did not parse (\<open>command_line_words\<close>, \<open>split_at_task\<close>). The \<open>anyhow\<close> crate is an argument: what
  the code needs of it is that an error is found again by its type, through any context added to it.
\<close>

section \<open>Errors and their types\<close>

type_synonym exit_code = "8 word"

datatype cleanup_cause =
    Cause_Exited string "64 word"
  | Image_Pull_Failed string
  | Image_Build_Failed string
  | Create_Failed string
  | Start_Failed string
  | Not_Healthy string
  | Setup_Command_Exited string nat "64 word"
  | Setup_Command_Not_Run string nat
  | Dependency_Exited string "64 word"
  | Cause_Failed string

text \<open>The error types the program finds by downcasting; two of them wrap another error.\<close>

datatype 'e typed_error =
    Container_Exited_Non_Zero "64 word"
  | Task_Interrupted_By termination_signal
  | Stdout_Closed
  | Cleanup_Failed string string
  | Failure_Reported 'e
  | Verb_Failures_Reported
  | Invalid_Option_Value string
  | Failed_At cleanup_cause 'e
  | Not_Ready string

datatype error_type =
    ContainerExitedNonZero | TaskInterrupted | StdoutClosed | CleanupFailed | FailureReported
  | VerbFailuresReported | InvalidOptionValue | Failed | NotReady

fun type_of :: "'e typed_error \<Rightarrow> error_type" where
  "type_of (Container_Exited_Non_Zero c) = ContainerExitedNonZero"
| "type_of (Task_Interrupted_By s) = TaskInterrupted"
| "type_of Stdout_Closed = StdoutClosed"
| "type_of (Cleanup_Failed t r) = CleanupFailed"
| "type_of (Failure_Reported e) = FailureReported"
| "type_of Verb_Failures_Reported = VerbFailuresReported"
| "type_of (Invalid_Option_Value m) = InvalidOptionValue"
| "type_of (Failed_At c e) = Failed"
| "type_of (Not_Ready m) = NotReady"

record 'e anyhow_crate =
  error_new :: "'e typed_error \<Rightarrow> 'e"
  downcast_ref :: "error_type \<Rightarrow> 'e \<Rightarrow> 'e typed_error option"

text \<open>What \<open>anyhow\<close> documents: a downcast yields a value of the type asked for, and an error made from a value
  downcasts to that type and no other.\<close>

definition downcasts :: "'e anyhow_crate \<Rightarrow> bool" where
  "downcasts ah \<longleftrightarrow>
     (\<forall>k e t. downcast_ref ah k e = Some t \<longrightarrow> type_of t = k) \<and>
     (\<forall>k t. downcast_ref ah k (error_new ah t) = (if type_of t = k then Some t else None))"

definition is_error :: "'e anyhow_crate \<Rightarrow> error_type \<Rightarrow> 'e \<Rightarrow> bool" where
  "is_error ah k e \<longleftrightarrow> downcast_ref ah k e \<noteq> None"

section \<open>Exit codes\<close>

definition SUCCESS :: exit_code where "SUCCESS = 0"

definition VERB_FAILED :: exit_code where "VERB_FAILED = 1"

definition RATECT_FAILED :: exit_code where "RATECT_FAILED = 125"

definition INVOCATION_ERROR :: exit_code where "INVOCATION_ERROR = 2"

definition STDOUT_CLOSED_EXIT_CODE :: exit_code where "STDOUT_CLOSED_EXIT_CODE = 141"

definition for_error :: "'e anyhow_crate \<Rightarrow> 'e \<Rightarrow> exit_code" where
  "for_error ah error0 =
     (let error = (case downcast_ref ah FailureReported error0 of Some (Failure_Reported inner) \<Rightarrow> inner | _ \<Rightarrow> error0) in
      case downcast_ref ah ContainerExitedNonZero error of
        Some (Container_Exited_Non_Zero code) \<Rightarrow> ucast code
      | _ \<Rightarrow> (case downcast_ref ah TaskInterrupted error of
            Some (Task_Interrupted_By s) \<Rightarrow> signal_exit_code s
          | _ \<Rightarrow> if is_error ah StdoutClosed error then STDOUT_CLOSED_EXIT_CODE else RATECT_FAILED))"

definition already_reported :: "'e anyhow_crate \<Rightarrow> 'e \<Rightarrow> bool" where
  "already_reported ah e \<longleftrightarrow> is_error ah ContainerExitedNonZero e \<or> is_error ah TaskInterrupted e \<or>
     is_error ah StdoutClosed e \<or> is_error ah CleanupFailed e \<or> is_error ah FailureReported e \<or>
     is_error ah VerbFailuresReported e"

definition for_failure :: "'e anyhow_crate \<Rightarrow> 'e \<Rightarrow> bool \<Rightarrow> exit_code" where
  "for_failure ah e is_run = (if is_run then for_error ah e
     else if is_error ah InvalidOptionValue e then INVOCATION_ERROR else VERB_FAILED)"

definition for_invocation_error :: "bool \<Rightarrow> exit_code" where
  "for_invocation_error is_run = (if is_run then RATECT_FAILED else INVOCATION_ERROR)"

section \<open>How a run ends\<close>

record run_flags =
  cleanup_after_success :: bool
  cleanup_after_failure :: bool

definition own_exit_code :: "'e anyhow_crate \<Rightarrow> ('e, unit) result \<Rightarrow> 64 word option" where
  "own_exit_code ah r = (case r of
       Inr _ \<Rightarrow> Some 0
     | Inl e \<Rightarrow> (case downcast_ref ah ContainerExitedNonZero e of
           Some (Container_Exited_Non_Zero code) \<Rightarrow> Some code | _ \<Rightarrow> None))"

definition should_cleanup :: "run_flags \<Rightarrow> bool \<Rightarrow> 64 word option \<Rightarrow> bool" where
  "should_cleanup flags top_level code =
     (if code \<noteq> None then cleanup_after_success flags \<or> \<not> top_level else cleanup_after_failure flags)"

text \<open>An infrastructure failure is printed before cleanup, and wrapped so that it is not printed again.\<close>

definition report_failure :: "'e anyhow_crate \<Rightarrow> ('e, unit) result \<Rightarrow> ('e, unit) result \<times> 'e list" where
  "report_failure ah r = (case r of
       Inl e \<Rightarrow> if own_exit_code ah r = None \<and> \<not> already_reported ah e
                then (Err (error_new ah (Failure_Reported e)), [e]) else (r, [])
     | Inr _ \<Rightarrow> (r, []))"

definition result_after_cleanup ::
  "'e anyhow_crate \<Rightarrow> string \<Rightarrow> string \<Rightarrow> bool \<Rightarrow> ('e, unit) result \<Rightarrow> ('e, unit) result" where
  "result_after_cleanup ah task run_id cleanup_failed r =
     (case r of Inr _ \<Rightarrow> if cleanup_failed then Err (error_new ah (Cleanup_Failed task run_id)) else r | Inl _ \<Rightarrow> r)"

datatype task_summary = Task_Finished "64 word" | Task_Failed | No_Summary

definition summary ::
  "'e anyhow_crate \<Rightarrow> ('e, unit) result \<Rightarrow> ('e, unit) result \<Rightarrow> task_summary" where
  "summary ah r final =
     (let interrupted = (case r of Inl e \<Rightarrow> is_error ah TaskInterrupted e | Inr _ \<Rightarrow> False);
          closed = (case r of Inl e \<Rightarrow> is_error ah StdoutClosed e | Inr _ \<Rightarrow> False);
          failed_cleanup = (case final of Inl e \<Rightarrow> is_error ah CleanupFailed e | Inr _ \<Rightarrow> False);
          code = (if failed_cleanup then None else own_exit_code ah r)
      in case code of Some c \<Rightarrow> Task_Finished c
         | None \<Rightarrow> if \<not> interrupted \<and> \<not> closed then Task_Failed else No_Summary)"

text \<open>The top of either binary: what it prints of an error, and the code it exits with.\<close>

definition main_exit :: "'e anyhow_crate \<Rightarrow> bool \<Rightarrow> ('e, unit) result \<Rightarrow> 'e list \<times> exit_code" where
  "main_exit ah is_run r = (case r of
       Inr _ \<Rightarrow> ([], SUCCESS)
     | Inl e \<Rightarrow> (if already_reported ah e then [] else [e], for_failure ah e is_run))"

text \<open>
  A run from the result of its own container to the exit: the errors the engine prints before cleanup,
  those \<open>main\<close> prints, and the exit code.
\<close>

definition run_exit :: "'e anyhow_crate \<Rightarrow> string \<Rightarrow> string \<Rightarrow> bool \<Rightarrow> ('e, unit) result \<Rightarrow> 'e list \<times> 'e list \<times> exit_code" where
  "run_exit ah task run_id cleanup_failed r =
     (let (r', early) = report_failure ah r; (late, code) = main_exit ah True (result_after_cleanup ah task run_id cleanup_failed r')
      in (early, late, code))"

lemma downcast_new [simp]:
  "downcasts ah \<Longrightarrow> downcast_ref ah k (error_new ah t) = (if type_of t = k then Some t else None)"
  by (simp add: downcasts_def)

lemma ucast_exit_code: "0 < unat c \<Longrightarrow> unat c < 256 \<Longrightarrow> (ucast (c :: 64 word) :: 8 word) \<noteq> SUCCESS"
proof
  assume c: "0 < unat c" "unat c < 256" and "(ucast c :: 8 word) = SUCCESS"
  then have "unat (ucast c :: 8 word) = 0" by (simp add: SUCCESS_def)
  then show False using c by (simp add: unsigned_ucast_eq take_bit_eq_mod)
qed

lemmas run_exit_defs = run_exit_def report_failure_def result_after_cleanup_def main_exit_def for_failure_def
  for_error_def own_exit_code_def already_reported_def is_error_def Let_def

text \<open>
  C39 (run_exit_correct): the exit code of a run says what happened to the task's own container, and each failure of
  Ratect's own is printed exactly once. A passing task exits 0, or 125 when cleaning up failed; a
  container's own code is passed on; a signal gives 128 and its number, a closed stdout 141; and every
  other failure is printed by the engine alone and exits 125. Codes from 1 to 255 never become 0.
\<close>

theorem run_exit_correct:
  assumes "downcasts ah"
  shows "run_exit ah task i cf (Inr ()) = ([], [], if cf then RATECT_FAILED else SUCCESS) \<and>
    run_exit ah task i cf (Inl (error_new ah (Container_Exited_Non_Zero c))) = ([], [], ucast c) \<and>
    (0 < unat c \<longrightarrow> unat c < 256 \<longrightarrow> (ucast c :: exit_code) \<noteq> SUCCESS) \<and>
    run_exit ah task i cf (Inl (error_new ah (Task_Interrupted_By s))) = ([], [], signal_exit_code s) \<and>
    run_exit ah task i cf (Inl (error_new ah Stdout_Closed)) = ([], [], STDOUT_CLOSED_EXIT_CODE) \<and>
    (\<not> already_reported ah e \<longrightarrow> run_exit ah task i cf (Inl e) = ([e], [], RATECT_FAILED))"
proof -
  have "run_exit ah task i cf (Inl e) = ([e], [], RATECT_FAILED)" if "\<not> already_reported ah e"
    using that assms by (simp add: run_exit_defs)
  with assms ucast_exit_code[of c] show ?thesis by (simp add: run_exit_defs)
qed

text \<open>Errors as a type: a value of a known type, or a message.\<close>

datatype plain_error = Typed "plain_error typed_error" | Message string

definition plain_anyhow :: "plain_error anyhow_crate" where
  "plain_anyhow = \<lparr>error_new = Typed, downcast_ref = (\<lambda>k e. case e of
       Typed t \<Rightarrow> if type_of t = k then Some t else None | Message m \<Rightarrow> None)\<rparr>"

lemma plain_anyhow_downcasts: "downcasts plain_anyhow"
  by (auto simp: downcasts_def plain_anyhow_def split: plain_error.splits if_splits)

theorem run_exit_correct_witness:
  "run_exit plain_anyhow ''build'' ''r1'' True (Inl (Message ''no such image'')) = ([Message ''no such image''], [], 125) \<and>
   run_exit plain_anyhow ''build'' ''r1'' True (Inl (Typed (Container_Exited_Non_Zero 3))) = ([], [], 3)"
proof -
  note ok = run_exit_correct[OF plain_anyhow_downcasts, of "''build''" "''r1''" True 3 Interrupt "Message ''no such image''"]
  have "\<not> already_reported plain_anyhow (Message ''no such image'')"
    by (simp add: already_reported_def is_error_def plain_anyhow_def)
  with ok show ?thesis by (simp add: RATECT_FAILED_def plain_anyhow_def)
qed

section \<open>Reading a command line that did not parse\<close>

datatype cli_word = Long string | Short char | Positional string

fun short_words :: "(cli_word \<Rightarrow> bool) \<Rightarrow> string \<Rightarrow> cli_word list \<times> bool" where
  "short_words takes_value [] = ([], False)"
| "short_words takes_value (c # cs) =
     (if takes_value (Short c) then ([Short c], cs = [])
      else let (ws, skip) = short_words takes_value cs in (Short c # ws, skip))"

text \<open>The two forms an option can have: a long one, or a group of short ones.\<close>

definition shorts_of :: "string \<Rightarrow> string option" where
  "shorts_of arg = (case strip_prefix ''-'' arg of Some shorts \<Rightarrow> if shorts = [] then None else Some shorts | None \<Rightarrow> None)"

fun command_line_words :: "(cli_word \<Rightarrow> bool) \<Rightarrow> string list \<Rightarrow> cli_word list" where
  "command_line_words takes_value [] = []"
| "command_line_words takes_value (arg # args) =
     (if arg = ''--'' then []
      else case strip_prefix ''--'' arg of
        Some long \<Rightarrow> (case split_once (CHR ''='') long of
            Some (name, _) \<Rightarrow> Long name # command_line_words takes_value args
          | None \<Rightarrow> Long long # command_line_words takes_value (if takes_value (Long long) then drop 1 args else args))
      | None \<Rightarrow> (case shorts_of arg of
            Some shorts \<Rightarrow> (case short_words takes_value shorts of
                (ws, skip) \<Rightarrow> ws @ command_line_words takes_value (if skip then drop 1 args else args))
          | None \<Rightarrow> Positional arg # command_line_words takes_value args))"

fun is_positional :: "cli_word \<Rightarrow> bool" where
  "is_positional (Positional p) = True"
| "is_positional _ = False"

definition first_positional :: "cli_word list \<Rightarrow> string option" where
  "first_positional ws = (case List.find is_positional ws of Some (Positional p) \<Rightarrow> Some p | _ \<Rightarrow> None)"

text \<open>\<open>is_a_run\<close> of \<open>ratect\<close>, with \<open>clap\<close>'s answers: which options take a value, and the subcommand a name stands for.\<close>

definition is_a_run :: "(cli_word \<Rightarrow> bool) \<Rightarrow> (string \<Rightarrow> string option) \<Rightarrow> string list \<Rightarrow> bool" where
  "is_a_run takes_value find_subcommand args =
     (case first_positional (command_line_words takes_value args) of
        None \<Rightarrow> False | Some name \<Rightarrow> find_subcommand name = Some ''run'')"

definition is_a_run_compat :: "(cli_word \<Rightarrow> bool) \<Rightarrow> string list \<Rightarrow> bool" where
  "is_a_run_compat takes_value args =
     (\<not> list_ex (\<lambda>w. w \<in> {Long ''list-tasks'', Long ''clean'', Long ''clean-cache'', Long ''upgrade'', Short (CHR ''T'')})
          (takeWhile (\<lambda>w. \<not> is_positional w) (command_line_words takes_value args)))"

datatype option_refusal = Nothing_After_Equals string | Value_Starts_With_Dash string string

fun short_value_option :: "(cli_word \<Rightarrow> bool) \<Rightarrow> string \<Rightarrow> string option \<times> option_refusal option" where
  "short_value_option takes_value [] = (None, None)"
| "short_value_option takes_value (c # cs) =
     (if takes_value (Short c)
      then (if cs = [] then Some [CHR ''-'', c] else None,
            if cs = ''='' then Some (Nothing_After_Equals [CHR ''-'', c, CHR ''='']) else None)
      else short_value_option takes_value cs)"

text \<open>What \<open>split_at_task\<close> reads of one argument: whether the options end there, the option that takes the next
  argument as its value, and a refusal.\<close>

definition read_option :: "(cli_word \<Rightarrow> bool) \<Rightarrow> string \<Rightarrow> (string option \<times> option_refusal option) option" where
  "read_option takes_value arg =
     (if arg = ''--'' then None
      else case strip_prefix ''--'' arg of
        Some long \<Rightarrow> Some (case split_once (CHR ''='') long of
            Some (name, val) \<Rightarrow> (None, if val = [] \<and> takes_value (Long name)
               then Some (Nothing_After_Equals (''--'' @ name @ ''='')) else None)
          | None \<Rightarrow> (if takes_value (Long long) then Some (''--'' @ long) else None, None))
      | None \<Rightarrow> (case shorts_of arg of Some shorts \<Rightarrow> Some (short_value_option takes_value shorts) | None \<Rightarrow> None))"

fun split_at_task :: "(cli_word \<Rightarrow> bool) \<Rightarrow> string list \<Rightarrow> string list \<times> string list \<times> option_refusal option" where
  "split_at_task takes_value [] = ([], [], None)"
| "split_at_task takes_value (arg # args) = (case read_option takes_value arg of
       None \<Rightarrow> ([], arg # args, None)
     | Some (None, refused) \<Rightarrow>
         (case split_at_task takes_value args of (opts, rest, refused') \<Rightarrow> (arg # opts, rest, opt_or refused refused'))
     | Some (Some opt, refused) \<Rightarrow> (case args of
           [] \<Rightarrow> ([arg], [], refused)
         | v # args' \<Rightarrow>
             (case split_at_task takes_value args' of (opts, rest, refused') \<Rightarrow>
               (arg # v # opts, rest, opt_or refused (opt_or
                  (if starts_with v ''-'' \<and> v \<noteq> ''-'' then Some (Value_Starts_With_Dash opt v) else None) refused')))))"

lemma shorts_agree:
  "snd (short_words tv cs) \<longleftrightarrow> fst (short_value_option tv cs) \<noteq> None"
  "w \<in> set (fst (short_words tv cs)) \<Longrightarrow> \<not> is_positional w"
  by (induction cs) (auto simp: Let_def split: prod.splits if_splits)

text \<open>One argument, read both ways: the words it gives, and whether the next argument is its value.\<close>

lemma read_option_words:
  assumes "read_option tv arg = Some (vopt, refused)"
  shows "\<exists>ws. (\<forall>w \<in> set ws. \<not> is_positional w) \<and>
    (\<forall>args. command_line_words tv (arg # args) = ws @ command_line_words tv (if vopt \<noteq> None then drop 1 args else args))"
proof (cases "strip_prefix ''--'' arg")
  case None
  with assms obtain shorts where "shorts_of arg = Some shorts" "short_value_option tv shorts = (vopt, refused)" "arg \<noteq> ''--''"
    by (auto simp: read_option_def split: if_splits option.splits)
  with None shorts_agree[where tv = tv and cs = shorts] show ?thesis
    by (intro exI[of _ "fst (short_words tv shorts)"]) (auto split: prod.splits)
next
  case (Some long)
  show ?thesis
  proof (cases "split_once (CHR ''='') long")
    case None
    with Some assms show ?thesis
      by (intro exI[of _ "[Long long]"]) (auto simp: read_option_def split: if_splits)
  next
    case (Some nv)
    with \<open>strip_prefix ''--'' arg = Some long\<close> assms show ?thesis
      by (intro exI[of _ "[Long (fst nv)]"]) (auto simp: read_option_def split: if_splits prod.splits)
  qed
qed

lemma read_option_None: "read_option tv arg = None \<Longrightarrow>
    command_line_words tv (arg # args) = (if arg = ''--'' then [] else Positional arg # command_line_words tv args)"
  by (auto simp: read_option_def split: if_splits option.splits)

lemma takeWhile_words: "\<forall>w \<in> set ws. \<not> is_positional w \<Longrightarrow>
    takeWhile (\<lambda>w. \<not> is_positional w) (ws @ vs) = ws @ takeWhile (\<lambda>w. \<not> is_positional w) vs"
  "\<forall>w \<in> set ws. \<not> is_positional w \<Longrightarrow> first_positional (ws @ vs) = first_positional vs"
  by (induction ws) (auto simp: first_positional_def)

text \<open>
  The two readings of a command line agree. What \<open>split_at_task\<close> takes as options is a prefix
  of the arguments whose words are exactly those \<open>command_line_words\<close> reads before the first positional,
  none of them a value of another option; what is left starts with that positional or with a \<open>--\<close>. So
  whether a line that did not parse is a run depends on its options alone.
\<close>

theorem split_at_task_agrees:
  "case split_at_task tv args of (opts, rest, refused) \<Rightarrow>
     opts @ rest = args \<and>
     takeWhile (\<lambda>w. \<not> is_positional w) (command_line_words tv args) = command_line_words tv opts \<and>
     (rest = [] \<or> hd rest = ''--'' \<or> first_positional (command_line_words tv args) = Some (hd rest)) \<and>
     is_a_run_compat tv args = is_a_run_compat tv opts"
proof -
  have "case split_at_task tv args of (opts, rest, refused) \<Rightarrow>
     opts @ rest = args \<and>
     takeWhile (\<lambda>w. \<not> is_positional w) (command_line_words tv args) = command_line_words tv opts \<and>
     (rest = [] \<or> hd rest = ''--'' \<or> first_positional (command_line_words tv args) = Some (hd rest))"
  proof (induction tv args rule: split_at_task.induct)
    case (2 tv arg args)
    show ?case
    proof (cases "read_option tv arg")
      case None
      then show ?thesis by (simp add: read_option_None first_positional_def del: command_line_words.simps(2))
    next
      case (Some p)
      obtain vopt refused where p: "p = (vopt, refused)" by (cases p)
      from read_option_words[OF Some[unfolded p]] obtain ws where ws: "\<forall>w \<in> set ws. \<not> is_positional w"
        "\<And>args. command_line_words tv (arg # args) = ws @ command_line_words tv (if vopt \<noteq> None then drop 1 args else args)"
        by blast
      show ?thesis using Some p 2 ws(1) takeWhile_words[OF ws(1)]
        by (cases vopt; cases args)
          (auto simp: ws(2) simp del: command_line_words.simps(2) split: prod.splits)
    qed
  qed simp
  moreover have "is_a_run_compat tv args = is_a_run_compat tv opts"
    if "takeWhile (\<lambda>w. \<not> is_positional w) (command_line_words tv args) = command_line_words tv opts" for opts
    unfolding is_a_run_compat_def that[symmetric] takeWhile_idem ..
  ultimately show ?thesis by (simp split: prod.splits)
qed

end
