(* ===== verification/Proxy.thy ===== *)
theory Proxy
  imports Rust_Std "HOL-Library.Word"
begin

text \<open>
  Proxy variables (\<open>src/ratect-core/src/proxy.rs\<close>): what a run passes on from the host's environment, the
  rewriting of URLs that name the local machine, the host entry a rewritten URL needs, the ports that
  listen on loopback only as the kernel's tables show them, and the proxies of the Docker CLI's
  \<open>config.json\<close>. The \<open>url\<close> crate and the parsed JSON are arguments.
\<close>

section \<open>Rewriting\<close>

record parsed_url =
  url_scheme :: string
  url_host :: "string option"
  url_port_or_known_default :: "16 word option"
  url_with_host :: "string \<Rightarrow> string option"

type_synonym url_parser = "string \<Rightarrow> parsed_url option"

record host_gateway =
  hg_name :: string
  hg_address :: string

definition extra_host :: "host_gateway \<Rightarrow> string" where
  "extra_host g = hg_name g @ '':'' @ hg_address g"

definition docker_host_name :: "string option" where
  "docker_host_name = Some ''host.docker.internal''"

definition HOST_GATEWAY_ADDRESS :: string where
  "HOST_GATEWAY_ADDRESS = ''host-gateway''"

record preprocessed =
  pp_value :: string
  pp_rewritten_port :: "16 word option"

definition unchanged :: "string \<Rightarrow> preprocessed" where
  "unchanged v = \<lparr>pp_value = v, pp_rewritten_port = None\<rparr>"

definition preprocess_proxy_value :: "url_parser \<Rightarrow> string \<Rightarrow> string option \<Rightarrow> preprocessed" where
  "preprocess_proxy_value url v host_name = (case host_name of
       None \<Rightarrow> unchanged v
     | Some host \<Rightarrow> (case url v of
           None \<Rightarrow> unchanged v
         | Some parsed \<Rightarrow>
             if url_scheme parsed \<noteq> ''http'' \<and> url_scheme parsed \<noteq> ''https'' then unchanged v
             else if url_host parsed \<notin> {Some ''localhost'', Some ''127.0.0.1'', Some ''::1'', Some ''[::1]''} then unchanged v
             else (case url_with_host parsed host of
                 Some rewritten \<Rightarrow> \<lparr>pp_value = rewritten, pp_rewritten_port = url_port_or_known_default parsed\<rparr>
               | None \<Rightarrow> unchanged v)))"

section \<open>The variables of a run\<close>

definition PROXY_VARIABLE_NAMES_NEEDING_PREPROCESSING :: "string list" where
  "PROXY_VARIABLE_NAMES_NEEDING_PREPROCESSING = [''http_proxy'', ''https_proxy'', ''ftp_proxy'']"

definition case_or_other_case :: "(string \<Rightarrow> string option) \<Rightarrow> string \<Rightarrow> string option" where
  "case_or_other_case host_env name = (case host_env name of
       Some v \<Rightarrow> Some v
     | None \<Rightarrow> (case host_env (to_ascii_uppercase name) of
           Some v \<Rightarrow> Some v
         | None \<Rightarrow> host_env (to_ascii_lowercase name)))"

record proxy_environment =
  pe_variables :: "string index_map"
  pe_rewritten_ports :: "16 word set"

definition host_gateway_of :: "proxy_environment \<Rightarrow> host_gateway option" where
  "host_gateway_of p = (if pe_rewritten_ports p = {} then None
     else map_option (\<lambda>name. \<lparr>hg_name = name, hg_address = HOST_GATEWAY_ADDRESS\<rparr>) docker_host_name)"

definition option_set :: "'a option \<Rightarrow> 'a set" where
  "option_set a = (case a of None \<Rightarrow> {} | Some x \<Rightarrow> {x})"

definition add_variable :: "url_parser \<Rightarrow> (string \<Rightarrow> string option) \<Rightarrow> proxy_environment \<Rightarrow> string \<Rightarrow> proxy_environment" where
  "add_variable url host_env p name = (case case_or_other_case host_env name of
       None \<Rightarrow> p
     | Some v \<Rightarrow>
         (let pp = (if name \<in> set PROXY_VARIABLE_NAMES_NEEDING_PREPROCESSING
                    then preprocess_proxy_value url v docker_host_name else unchanged v) in
          \<lparr>pe_variables = im_insert (im_insert (pe_variables p) name (pp_value pp)) (to_ascii_uppercase name) (pp_value pp),
           pe_rewritten_ports = pe_rewritten_ports p \<union> option_set (pp_rewritten_port pp)\<rparr>))"

definition extend_no_proxy :: "string \<Rightarrow> string index_map \<Rightarrow> string \<Rightarrow> string index_map" where
  "extend_no_proxy entries vars key = im_insert vars key (case im_get vars key of
       Some existing \<Rightarrow> if existing \<noteq> [] then existing @ '','' @ entries else entries
     | None \<Rightarrow> entries)"

definition proxy_environment_variables ::
  "url_parser \<Rightarrow> (string \<Rightarrow> string option) \<Rightarrow> string list \<Rightarrow> proxy_environment" where
  "proxy_environment_variables url host_env extra_no_proxy_entries =
     (let p = foldl (add_variable url host_env) \<lparr>pe_variables = [], pe_rewritten_ports = {}\<rparr>
                (PROXY_VARIABLE_NAMES_NEEDING_PREPROCESSING @ [''no_proxy'']) in
      if pe_variables p = [] \<or> extra_no_proxy_entries = [] then p
      else p\<lparr>pe_variables := foldl (extend_no_proxy (join '','' extra_no_proxy_entries)) (pe_variables p)
               [''no_proxy'', ''NO_PROXY'']\<rparr>)"

section \<open>Ports that listen on loopback only\<close>

datatype ip_address = V4 "8 word list" | V6 "8 word list"

fun is_loopback :: "ip_address \<Rightarrow> bool" where
  "is_loopback (V4 bs) = (case bs of b # _ \<Rightarrow> b = 127 | [] \<Rightarrow> False)"
| "is_loopback (V6 bs) = (bs = replicate 15 0 @ [1])"

definition hex_value :: "char \<Rightarrow> nat option" where
  "hex_value c = (if is_ascii_digit c then Some (char_code c - 48)
     else if 97 \<le> char_code c \<and> char_code c \<le> 102 then Some (char_code c - 87)
     else if 65 \<le> char_code c \<and> char_code c \<le> 70 then Some (char_code c - 55) else None)"

fun hex_digits :: "nat \<Rightarrow> string \<Rightarrow> nat option" where
  "hex_digits n [] = Some n"
| "hex_digits n (c # cs) = (case hex_value c of None \<Rightarrow> None | Some d \<Rightarrow> hex_digits (16 * n + d) cs)"

text \<open>\<open>from_str_radix(_, 16)\<close> of an unsigned type: an optional plus sign, at least one digit, and in range.\<close>

definition from_hex :: "nat \<Rightarrow> string \<Rightarrow> nat option" where
  "from_hex limit s =
     (let ds = (case s of c # cs \<Rightarrow> if c = CHR ''+'' then cs else s | [] \<Rightarrow> s)
      in if ds = [] then None else case hex_digits 0 ds of Some n \<Rightarrow> if n < limit then Some n else None | None \<Rightarrow> None)"

definition to_le_bytes :: "nat \<Rightarrow> 8 word list" where
  "to_le_bytes n = map (\<lambda>i. of_nat (n div 256 ^ i)) [0, 1, 2, 3]"

definition to_ipv4_mapped :: "8 word list \<Rightarrow> 8 word list option" where
  "to_ipv4_mapped bs = (if take 12 bs = replicate 10 0 @ [255, 255] then Some (drop 12 bs) else None)"

fun parse_groups :: "string list \<Rightarrow> 8 word list option" where
  "parse_groups [] = Some []"
| "parse_groups (g # gs) = (case from_hex (2 ^ 32) g of
       None \<Rightarrow> None | Some n \<Rightarrow> map_option ((@) (to_le_bytes n)) (parse_groups gs))"

definition parse_proc_address :: "string \<Rightarrow> ip_address option" where
  "parse_proc_address hex =
     (if length hex = 8 then map_option (V4 \<circ> to_le_bytes) (from_hex (2 ^ 32) hex)
      else if length hex = 32 then
        (case parse_groups [take 8 hex, take 8 (drop 8 hex), take 8 (drop 16 hex), drop 24 hex] of
           None \<Rightarrow> None
         | Some bs \<Rightarrow> Some (case to_ipv4_mapped bs of Some m \<Rightarrow> V4 m | None \<Rightarrow> V6 bs))
      else None)"

definition listening_socket :: "string \<Rightarrow> (ip_address \<times> 16 word) option" where
  "listening_socket line = (case split_whitespace line of
       _ # local # _ # state # _ \<Rightarrow>
         if state \<noteq> ''0A'' then None
         else (case split_once (CHR '':'') local of
             None \<Rightarrow> None
           | Some (address, port) \<Rightarrow> (case (parse_proc_address address, from_hex (2 ^ 16) port) of
               (Some a, Some p) \<Rightarrow> Some (a, of_nat p) | _ \<Rightarrow> None))
     | _ \<Rightarrow> None)"

definition loopback_only_ports_in :: "string list \<Rightarrow> 16 word set \<Rightarrow> 16 word set" where
  "loopback_only_ports_in tables ports =
     (let listening = List.map_filter listening_socket (concat (map str_lines tables)) in
      {p \<in> ports. case filter (\<lambda>(_, q). q = p) listening of
         [] \<Rightarrow> False | (a, _) # others \<Rightarrow> is_loopback a \<and> list_all (\<lambda>(b, _). is_loopback b) others})"

section \<open>The proxies of the Docker CLI\<close>

record config_file_proxies =
  cfp_http :: "string option"
  cfp_https :: "string option"
  cfp_ftp :: "string option"
  cfp_no :: "string option"
  cfp_all :: "string option"

definition fill_proxy :: "string index_map \<Rightarrow> string \<times> string option \<Rightarrow> string index_map" where
  "fill_proxy args nv = (case snd nv of
       None \<Rightarrow> args
     | Some v \<Rightarrow> if v = [] then args else foldl (\<lambda>m n. or_insert m n v) args [fst nv, to_ascii_lowercase (fst nv)])"

text \<open>\<open>proxies\<close> is the \<open>proxies\<close> map of \<open>config.json\<close>, \<open>None\<close> when the file does not parse.\<close>

definition fill_config_file_proxies ::
  "config_file_proxies index_map option \<Rightarrow> string \<Rightarrow> string index_map \<Rightarrow> string index_map" where
  "fill_config_file_proxies proxies daemon_host build_args = (case proxies of
       None \<Rightarrow> build_args
     | Some m \<Rightarrow> (case (case im_get m daemon_host of Some e \<Rightarrow> Some e | None \<Rightarrow> im_get m ''default'') of
           None \<Rightarrow> build_args
         | Some e \<Rightarrow> foldl fill_proxy build_args
             [(''HTTP_PROXY'', cfp_http e), (''HTTPS_PROXY'', cfp_https e), (''FTP_PROXY'', cfp_ftp e),
              (''NO_PROXY'', cfp_no e), (''ALL_PROXY'', cfp_all e)]))"

section \<open>What is passed on\<close>

definition host_value :: "url_parser \<Rightarrow> (string \<Rightarrow> string option) \<Rightarrow> string \<Rightarrow> preprocessed option" where
  "host_value url host_env name = map_option (\<lambda>v.
     if name \<in> set PROXY_VARIABLE_NAMES_NEEDING_PREPROCESSING then preprocess_proxy_value url v docker_host_name
     else unchanged v) (case_or_other_case host_env name)"

lemma add_variable_host:
  "add_variable url host_env p name = (case host_value url host_env name of
       None \<Rightarrow> p
     | Some pp \<Rightarrow> \<lparr>pe_variables = im_insert (im_insert (pe_variables p) name (pp_value pp)) (to_ascii_uppercase name) (pp_value pp),
                   pe_rewritten_ports = pe_rewritten_ports p \<union> option_set (pp_rewritten_port pp)\<rparr>)"
  by (simp add: add_variable_def host_value_def Let_def split: option.splits)

lemma uppercase_names:
  "to_ascii_uppercase ''http_proxy'' = ''HTTP_PROXY''" "to_ascii_uppercase ''https_proxy'' = ''HTTPS_PROXY''"
  "to_ascii_uppercase ''ftp_proxy'' = ''FTP_PROXY''" "to_ascii_uppercase ''no_proxy'' = ''NO_PROXY''"
  by code_simp+

lemma im_insert_not_Nil [simp]: "im_insert m k v \<noteq> []"
  by (cases m) (auto split: if_splits)

definition proxy_names :: "string list" where
  "proxy_names = [''http_proxy'', ''https_proxy'', ''ftp_proxy'', ''no_proxy'']"

lemma collected:
  fixes url host_env
  defines "p \<equiv> foldl (add_variable url host_env) \<lparr>pe_variables = [], pe_rewritten_ports = {}\<rparr>
                  (PROXY_VARIABLE_NAMES_NEEDING_PREPROCESSING @ [''no_proxy''])"
  shows "n \<in> set proxy_names \<Longrightarrow> im_get (pe_variables p) n = map_option pp_value (host_value url host_env n)"
    and "n \<in> set proxy_names \<Longrightarrow> im_get (pe_variables p) (to_ascii_uppercase n) = map_option pp_value (host_value url host_env n)"
    and "pe_variables p = [] \<longleftrightarrow> (\<forall>n \<in> set proxy_names. host_value url host_env n = None)"
    and "pe_rewritten_ports p = (\<Union>n \<in> set proxy_names. \<Union>pp \<in> option_set (host_value url host_env n). option_set (pp_rewritten_port pp))"
  unfolding p_def PROXY_VARIABLE_NAMES_NEEDING_PREPROCESSING_def proxy_names_def
  by (cases "host_value url host_env ''http_proxy''"; cases "host_value url host_env ''https_proxy''";
      cases "host_value url host_env ''ftp_proxy''"; cases "host_value url host_env ''no_proxy''";
      auto simp: add_variable_host uppercase_names option_set_def)+



text \<open>A parser for the URLs of the example: a scheme, the host \<open>localhost\<close> and a port.\<close>

definition example_url :: url_parser where
  "example_url s = (if s = ''http://localhost:3128/'' then
     Some \<lparr>url_scheme = ''http'', url_host = Some ''localhost'', url_port_or_known_default = Some 3128,
           url_with_host = (\<lambda>h. Some (''http://'' @ h @ '':3128/''))\<rparr> else None)"


section \<open>The kernel's tables\<close>

text \<open>How the kernel prints a socket: the words of the address and the port in upper-case hexadecimal.\<close>

definition hex_char :: "nat \<Rightarrow> char" where
  "hex_char d = char_of (if d < 10 then 48 + d else 55 + d)"

fun show_hex :: "nat \<Rightarrow> nat \<Rightarrow> string" where
  "show_hex 0 n = []"
| "show_hex (Suc k) n = show_hex k (n div 16) @ [hex_char (n mod 16)]"

definition le_value :: "8 word list \<Rightarrow> nat" where
  "le_value bs = foldr (\<lambda>b n. unat b + 256 * n) bs 0"

lemma hex_value_char: "d < 16 \<Longrightarrow> hex_value (hex_char d) = Some d"
  by (auto simp: hex_value_def hex_char_def is_ascii_digit_def char_code_def)

lemma hex_digits_append: "hex_digits m (s @ [c]) = (case hex_digits m s of None \<Rightarrow> None
    | Some n \<Rightarrow> map_option (\<lambda>d. 16 * n + d) (hex_value c))"
  by (induction m s rule: hex_digits.induct) (auto split: option.splits)

lemma hex_digits_show: "n < 16 ^ k \<Longrightarrow> hex_digits m (show_hex k n) = Some (m * 16 ^ k + n)"
proof (induction k arbitrary: n)
  case (Suc k)
  then have "n div 16 < 16 ^ k" by (simp add: less_mult_imp_div_less mult.commute)
  with Suc.IH show ?case by (simp add: hex_digits_append hex_value_char algebra_simps)
qed simp


lemma length_show_hex [simp]: "length (show_hex k n) = k"
  by (induction k n rule: show_hex.induct) auto

lemma hex_char_not_plus: "d < 16 \<Longrightarrow> hex_char d \<noteq> CHR ''+''"
proof -
  have "\<forall>d \<in> set [0..<16]. hex_char d \<noteq> CHR ''+''" by code_simp
  then show "d < 16 \<Longrightarrow> ?thesis" by simp
qed

lemma plus_not_in_show_hex: "CHR ''+'' \<notin> set (show_hex k n)"
  by (induction k n rule: show_hex.induct) (auto simp: hex_char_not_plus dest: sym)

lemma from_hex_show: "0 < k \<Longrightarrow> m < 16 ^ k \<Longrightarrow> m < limit \<Longrightarrow> from_hex limit (show_hex k m) = Some m"
  using plus_not_in_show_hex[of k m] length_show_hex[of k m] hex_digits_show[of m k 0]
  by (auto simp: from_hex_def Let_def simp del: length_show_hex split: list.splits)

lemma le_value_word: "to_le_bytes (le_value [a, b, c, d]) = [a, b, c, d]" "le_value [a, b, c, d] < 2 ^ 32"
proof -
  have lt: "unat x < 256" for x :: "8 word" using unsigned_less[where w = x] by simp
  have zero: "(256 :: 8 word) = 0" by simp
  have step: "(unat x + 256 * n) div 256 = n" "(of_nat (unat x + 256 * n) :: 8 word) = x" for x :: "8 word" and n
    using lt[of x] by (simp_all add: zero)
  have "le_value [a, b, c, d] = unat a + 256 * (unat b + 256 * (unat c + 256 * unat d))" by (simp add: le_value_def)
  moreover have "n div 256 ^ 2 = n div 256 div 256" "n div 256 ^ 3 = n div 256 div 256 div 256" for n :: nat
    by (simp_all add: div_mult2_eq[symmetric])
  ultimately show "to_le_bytes (le_value [a, b, c, d]) = [a, b, c, d]"
    by (simp only: to_le_bytes_def list.map step power_0 power_one_right div_by_1) (simp add: step)
  show "le_value [a, b, c, d] < 2 ^ 32" using lt[of a] lt[of b] lt[of c] lt[of d] by (simp add: le_value_def)
qed

text \<open>The address the kernel prints is the address that is read, for both families.\<close>

lemma proc_address_v4: "parse_proc_address (show_hex 8 (le_value [a, b, c, d])) = Some (V4 [a, b, c, d])"
  using le_value_word(2)[of a b c d] by (simp add: parse_proc_address_def from_hex_show le_value_word(1))

lemma parse_group: "parse_groups (show_hex 8 (le_value [a, b, c, d]) # gs) = map_option ((@) [a, b, c, d]) (parse_groups gs)"
  using le_value_word(2)[of a b c d] by (simp add: from_hex_show le_value_word(1))

lemma proc_address_v6:
  fixes b1 b2 b3 b4 :: "8 word list"
  assumes "length b1 = 4" "length b2 = 4" "length b3 = 4" "length b4 = 4"
    and "take 12 (b1 @ b2 @ b3 @ b4) \<noteq> replicate 10 0 @ [255, 255]"
  shows "parse_proc_address (show_hex 8 (le_value b1) @ show_hex 8 (le_value b2) @ show_hex 8 (le_value b3) @ show_hex 8 (le_value b4)) =
    Some (V6 (b1 @ b2 @ b3 @ b4))"
proof -
  have four: "\<exists>a b c d. x = [a, b, c, d]" if "length x = 4" for x :: "8 word list"
    using that by (auto simp: length_Suc_conv numeral_eq_Suc)
  obtain a1 a2 a3 a4 c1 c2 c3 c4 d1 d2 d3 d4 e1 e2 e3 e4 where
    eqs: "b1 = [a1, a2, a3, a4]" "b2 = [c1, c2, c3, c4]" "b3 = [d1, d2, d3, d4]" "b4 = [e1, e2, e3, e4]"
    using four[OF assms(1)] four[OF assms(2)] four[OF assms(3)] four[OF assms(4)] by blast
  show ?thesis using assms(5) unfolding eqs
    by (simp add: parse_proc_address_def parse_group to_ipv4_mapped_def del: parse_groups.simps(2))
qed

end
