(* ===== verification/Labels.thy ===== *)
theory Labels
  imports Rust_Std
begin

text \<open>
  How a run's Docker resources are named, labelled and found again: \<open>labels.rs\<close> and \<open>resource_names.rs\<close>, the label
  filter of \<open>docker.rs\<close>, and \<open>resources.rs\<close>, which lists and removes what earlier runs left behind. The daemon
  is an argument: its two listings, and its two removals as functions of its state. The random bytes of
  the \<open>uuid\<close> crate are an argument too.
\<close>

section \<open>Labels\<close>

definition PROJECT_LABEL :: string where "PROJECT_LABEL = ''eu.orican.ratect.project''"

definition TASK_LABEL :: string where "TASK_LABEL = ''eu.orican.ratect.task''"

definition RUN_LABEL :: string where "RUN_LABEL = ''eu.orican.ratect.run''"

definition CONTAINER_LABEL :: string where "CONTAINER_LABEL = ''eu.orican.ratect.container''"

definition ROLE_LABEL :: string where "ROLE_LABEL = ''eu.orican.ratect.role''"

definition VERSION_LABEL :: string where "VERSION_LABEL = ''eu.orican.ratect.version''"

definition ALL_LABELS :: "string list" where
  "ALL_LABELS = [PROJECT_LABEL, TASK_LABEL, RUN_LABEL, CONTAINER_LABEL, ROLE_LABEL, VERSION_LABEL]"

lemmas label_keys = PROJECT_LABEL_def TASK_LABEL_def RUN_LABEL_def CONTAINER_LABEL_def ROLE_LABEL_def VERSION_LABEL_def

datatype container_role = Task_Role | Dependency_Role

fun role_as_str :: "container_role \<Rightarrow> string" where
  "role_as_str Task_Role = ''task''"
| "role_as_str Dependency_Role = ''dependency''"

record run_labels =
  rl_project :: string
  rl_task :: string
  rl_run_id :: string
  rl_version :: "string option"

definition shared_labels :: "run_labels \<Rightarrow> string index_map" where
  "shared_labels r =
     (let labels = [(PROJECT_LABEL, rl_project r), (TASK_LABEL, rl_task r), (RUN_LABEL, rl_run_id r)]
      in case rl_version r of Some v \<Rightarrow> im_insert labels VERSION_LABEL v | None \<Rightarrow> labels)"

definition for_network :: "run_labels \<Rightarrow> string index_map" where
  "for_network r = shared_labels r"

definition for_container :: "run_labels \<Rightarrow> string \<Rightarrow> container_role \<Rightarrow> string index_map option \<Rightarrow> string index_map" where
  "for_container r container role configured =
     (let labels = (case configured of Some m \<Rightarrow> m | None \<Rightarrow> []);
          labels = im_extend labels (shared_labels r);
          labels = im_insert labels CONTAINER_LABEL container
      in im_insert labels ROLE_LABEL (role_as_str role))"

section \<open>Names\<close>

definition ALPHABET :: string where
  "ALPHABET = ''abcdefghijklmnopqrstuvwxyz0123456789''"

definition SUFFIX_LIMIT :: "8 word" where
  "SUFFIX_LIMIT = (255 div 36) * 36"

definition push_byte :: "string \<Rightarrow> nat \<times> 8 word \<Rightarrow> string" where
  "push_byte suffix ib = (case ib of (index, byte) \<Rightarrow>
     if index \<noteq> 6 \<and> index \<noteq> 8 \<and> byte < SUFFIX_LIMIT \<and> length suffix < 6
     then suffix @ [ALPHABET ! unat (byte mod 36)] else suffix)"

text \<open>The loop draws one identifier after another; \<open>None\<close> when those given run out.\<close>

fun suffix_loop :: "string \<Rightarrow> 8 word list list \<Rightarrow> string option" where
  "suffix_loop suffix uuids =
     (if 6 \<le> length suffix then Some suffix
      else case uuids of [] \<Rightarrow> None | bytes # rest \<Rightarrow> suffix_loop (foldl push_byte suffix (enumerate 0 bytes)) rest)"

declare suffix_loop.simps [simp del]

definition generate_suffix :: "8 word list list \<Rightarrow> string option" where
  "generate_suffix uuids = suffix_loop [] uuids"

record resource_names =
  rn_project :: string
  rn_suffix :: string

definition resource_name :: "resource_names \<Rightarrow> string \<Rightarrow> string" where
  "resource_name names part = rn_project names @ ''-'' @ part @ ''-'' @ rn_suffix names"

definition container_resource_name :: "resource_names \<Rightarrow> string \<Rightarrow> string" where
  "container_resource_name names container = resource_name names container"

definition network_resource_name :: "resource_names \<Rightarrow> string" where
  "network_resource_name names = resource_name names ''network''"

section \<open>Leftovers\<close>

definition label_filters :: "(string \<times> string option) list \<Rightarrow> string list index_map" where
  "label_filters labels = (if labels = [] then []
     else [(''label'', map (\<lambda>(key, value). case value of Some v \<Rightarrow> key @ ''='' @ v | None \<Rightarrow> key) labels)])"

record labelled_resource =
  lr_id :: string
  lr_name :: string
  lr_labels :: "string index_map"
  lr_created :: "i64 option"
  lr_state :: "string option"

record leftover =
  lo_resource :: labelled_resource
  lo_task :: string
  lo_run :: string
  lo_age_seconds :: i64
  lo_is_network :: bool

definition new_leftover :: "i64 \<Rightarrow> labelled_resource \<Rightarrow> leftover" where
  "new_leftover now r =
     (let label = (\<lambda>key. case im_get (lr_labels r) key of Some v \<Rightarrow> v | None \<Rightarrow> ''unknown'') in
      \<lparr>lo_resource = r, lo_task = label TASK_LABEL, lo_run = label RUN_LABEL,
       lo_age_seconds = (case lr_created r of Some created \<Rightarrow> now - created | None \<Rightarrow> 0),
       lo_is_network = (lr_state r = None)\<rparr>)"

definition describe_leftover :: "leftover \<Rightarrow> string" where
  "describe_leftover l =
     (if lo_is_network l then ''network '' @ lr_name (lo_resource l)
      else let container = (case im_get (lr_labels (lo_resource l)) CONTAINER_LABEL of
                 Some c \<Rightarrow> c | None \<Rightarrow> lr_name (lo_resource l))
           in case lr_state (lo_resource l) of
                Some state \<Rightarrow> ''container '' @ container @ '' ('' @ state @ '')''
              | None \<Rightarrow> ''container '' @ container)"

text \<open>The calls of \<open>ResourceInventory\<close> that \<open>find\<close> and \<open>remove\<close> make: the listings take the filters as
  \<open>label_filters\<close> gives them to the daemon, and a removal answers and changes the daemon's state.\<close>

record ('d, 'e) inventory =
  list_containers :: "'d \<Rightarrow> string list index_map \<Rightarrow> ('e, labelled_resource list) result"
  list_networks :: "'d \<Rightarrow> string list index_map \<Rightarrow> ('e, labelled_resource list) result"
  remove_network :: "string \<Rightarrow> 'd \<Rightarrow> ('e, unit) result \<times> 'd"
  stop_and_remove_container :: "string \<Rightarrow> 'd \<Rightarrow> ('e, unit) result \<times> 'd"

definition old_enough :: "nat option \<Rightarrow> leftover \<Rightarrow> bool" where
  "old_enough older_than l = (case older_than of
     Some secs \<Rightarrow> sint (of_nat secs :: i64) \<le> sint (lo_age_seconds l) | None \<Rightarrow> True)"

definition find_leftovers ::
  "('d, 'e) inventory \<Rightarrow> 'd \<Rightarrow> string option \<Rightarrow> nat option \<Rightarrow> i64 \<Rightarrow> ('e, leftover list) result" where
  "find_leftovers docker d project older_than now =
     (let filters = label_filters [(PROJECT_LABEL, project)] in
      rbind (list_containers docker d filters) (\<lambda>cs.
      rbind (list_networks docker d filters) (\<lambda>ns.
        Ok (filter (old_enough older_than)
          (map (new_leftover now) (filter (\<lambda>r. im_contains (lr_labels r) PROJECT_LABEL) (cs @ ns)))))))"

definition remove_leftover :: "('d, 'e) inventory \<Rightarrow> leftover \<Rightarrow> 'd \<Rightarrow> ('e, unit) result \<times> 'd" where
  "remove_leftover docker l d =
     (if lo_is_network l then remove_network docker (lr_id (lo_resource l)) d
      else stop_and_remove_container docker (lr_id (lo_resource l)) d)"

text \<open>The progress callback's arguments are collected in order.\<close>

fun remove_each :: "('d, 'e) inventory \<Rightarrow> leftover list \<Rightarrow> 'd \<Rightarrow> nat \<times> (leftover \<times> ('e, unit) result) list \<times> 'd" where
  "remove_each docker [] d = (0, [], d)"
| "remove_each docker (l # ls) d =
     (let (r, d') = remove_leftover docker l d; (n, log, d'') = remove_each docker ls d'
      in ((if is_ok r then n + 1 else n), (l, r) # log, d''))"

definition remove_leftovers ::
  "('d, 'e) inventory \<Rightarrow> leftover list \<Rightarrow> 'd \<Rightarrow> nat \<times> (leftover \<times> ('e, unit) result) list \<times> 'd" where
  "remove_leftovers docker leftovers d =
     remove_each docker (filter (\<lambda>l. \<not> lo_is_network l) leftovers @ filter lo_is_network leftovers) d"

section \<open>Lemmas\<close>

lemma im_ok_shared_labels: "im_ok (shared_labels r)"
  by (simp add: shared_labels_def Let_def label_keys split: option.split)

lemma shared_label_keys: "k \<in> set (im_keys (shared_labels r)) \<Longrightarrow> k \<in> set ALL_LABELS"
  by (auto simp: shared_labels_def Let_def ALL_LABELS_def label_keys split: option.splits)

lemma get_shared_labels:
  "im_get (shared_labels r) PROJECT_LABEL = Some (rl_project r)" "im_get (shared_labels r) TASK_LABEL = Some (rl_task r)"
  "im_get (shared_labels r) RUN_LABEL = Some (rl_run_id r)" "im_get (shared_labels r) VERSION_LABEL = rl_version r"
  by (simp_all add: shared_labels_def Let_def label_keys split: option.split)

lemma get_for_container:
  "im_get (for_container r container role configured) k =
     (if k = ROLE_LABEL then Some (role_as_str role) else if k = CONTAINER_LABEL then Some container
      else opt_or (im_get (shared_labels r) k) (case configured of Some m \<Rightarrow> im_get m k | None \<Rightarrow> None))"
  by (simp add: for_container_def Let_def im_get_extend im_ok_shared_labels split: option.split)

lemma for_container_keys:
  "im_get (for_container r container role configured) PROJECT_LABEL = Some (rl_project r)"
  "im_get (for_container r container role configured) TASK_LABEL = Some (rl_task r)"
  "im_get (for_container r container role configured) RUN_LABEL = Some (rl_run_id r)"
  "im_get (for_container r container role configured) CONTAINER_LABEL = Some container"
  "im_get (for_container r container role configured) ROLE_LABEL = Some (role_as_str role)"
  "k \<notin> set ALL_LABELS \<Longrightarrow> im_get (for_container r container role configured) k =
     (case configured of Some m \<Rightarrow> im_get m k | None \<Rightarrow> None)"
proof -
  note [simp] = get_for_container get_shared_labels
  have d: "ROLE_LABEL \<notin> {PROJECT_LABEL, TASK_LABEL, RUN_LABEL, CONTAINER_LABEL}"
    "CONTAINER_LABEL \<notin> {PROJECT_LABEL, TASK_LABEL, RUN_LABEL}" by (simp_all add: label_keys)
  show "im_get (for_container r container role configured) PROJECT_LABEL = Some (rl_project r)"
    "im_get (for_container r container role configured) TASK_LABEL = Some (rl_task r)"
    "im_get (for_container r container role configured) RUN_LABEL = Some (rl_run_id r)"
    "im_get (for_container r container role configured) CONTAINER_LABEL = Some container"
    "im_get (for_container r container role configured) ROLE_LABEL = Some (role_as_str role)"
    using d by (auto simp: dest: sym)
  show "im_get (for_container r container role configured) k = (case configured of Some m \<Rightarrow> im_get m k | None \<Rightarrow> None)"
    if "k \<notin> set ALL_LABELS"
  proof -
    have "im_get (shared_labels r) k = None" using that shared_label_keys by auto
    then show ?thesis using that by (simp add: ALL_LABELS_def)
  qed
qed

text \<open>
  A suffix has six characters of the alphabet, every character is drawn by the same number of byte
  values, and enough random bytes give one.
\<close>

lemma push_byte_ok:
  "length suffix \<le> 6 \<and> set suffix \<subseteq> set ALPHABET \<Longrightarrow>
     length (push_byte suffix ib) \<le> 6 \<and> set (push_byte suffix ib) \<subseteq> set ALPHABET"
proof -
  have "unat (b mod 36 :: 8 word) < length ALPHABET" for b
    by (simp add: ALPHABET_def unat_mod)
  then show "length suffix \<le> 6 \<and> set suffix \<subseteq> set ALPHABET \<Longrightarrow> ?thesis"
    by (auto simp: push_byte_def nth_mem split: prod.split)
qed

lemma push_bytes_ok:
  "length suffix \<le> 6 \<and> set suffix \<subseteq> set ALPHABET \<Longrightarrow>
     length (foldl push_byte suffix ibs) \<le> 6 \<and> set (foldl push_byte suffix ibs) \<subseteq> set ALPHABET"
  by (induction ibs arbitrary: suffix) (use push_byte_ok in auto)

lemma suffix_loop_ok:
  "suffix_loop suffix uuids = Some s \<Longrightarrow> length suffix \<le> 6 \<and> set suffix \<subseteq> set ALPHABET \<Longrightarrow>
     length s = 6 \<and> set s \<subseteq> set ALPHABET"
proof (induction suffix uuids rule: suffix_loop.induct)
  case (1 suffix uuids)
  from 1(2) have "(if 6 \<le> length suffix then Some suffix else case uuids of [] \<Rightarrow> None
      | bytes # rest \<Rightarrow> suffix_loop (foldl push_byte suffix (enumerate 0 bytes)) rest) = Some s"
    by (simp only: suffix_loop.simps[of suffix uuids])
  with 1(1,3) push_bytes_ok[of suffix] show ?case by (auto split: if_splits list.splits)
qed

definition accepted_bytes :: "8 word list \<Rightarrow> (nat \<times> 8 word) list" where
  "accepted_bytes bytes = filter (\<lambda>(i, b). i \<noteq> 6 \<and> i \<noteq> 8 \<and> b < SUFFIX_LIMIT) (enumerate 0 bytes)"

lemma push_bytes_length:
  "length suffix \<le> 6 \<Longrightarrow> length (foldl push_byte suffix ibs) =
     min 6 (length suffix + length (filter (\<lambda>(i, b). i \<noteq> 6 \<and> i \<noteq> 8 \<and> b < SUFFIX_LIMIT) ibs))"
  by (induction ibs arbitrary: suffix) (auto simp: push_byte_def split: if_splits)

lemma suffix_loop_total:
  "length suffix \<le> 6 \<Longrightarrow> 6 \<le> length suffix + length (concat (map accepted_bytes uuids)) \<Longrightarrow>
     \<exists>s. suffix_loop suffix uuids = Some s"
proof (induction uuids arbitrary: suffix)
  case (Cons bytes uuids)
  let ?s = "foldl push_byte suffix (enumerate 0 bytes)"
  have "length ?s = min 6 (length suffix + length (accepted_bytes bytes))"
    using push_bytes_length[OF Cons.prems(1)] by (simp add: accepted_bytes_def)
  with Cons have "\<exists>s. suffix_loop ?s uuids = Some s" by (intro Cons.IH) auto
  then show ?case by (simp add: suffix_loop.simps[of suffix])
qed (simp add: suffix_loop.simps[of _ "[]"])

lemma generate_suffix_ok:
  assumes "6 \<le> length (concat (map accepted_bytes uuids))"
  shows "\<exists>s. generate_suffix uuids = Some s \<and> length s = 6 \<and> set s \<subseteq> set ALPHABET"
  using suffix_loop_total[of "[]" uuids] suffix_loop_ok[of "[]" uuids] assms by (auto simp: generate_suffix_def)

lemma filter_replicated: "length (filter P (concat (replicate n xs))) = n * length (filter P xs)"
  by (induction n) auto

lemma suffix_uniform: "c \<in> set ALPHABET \<Longrightarrow>
    length (filter (\<lambda>b. ALPHABET ! (b mod 36) = c) [0 ..< unat SUFFIX_LIMIT]) = 7"
proof -
  assume c: "c \<in> set ALPHABET"
  have l: "unat SUFFIX_LIMIT = 252" by (simp add: SUFFIX_LIMIT_def)
  have len: "length ALPHABET = 36" by (simp add: ALPHABET_def)
  have rounds: "map (\<lambda>b. b mod 36) [0 ..< 252] = concat (replicate 7 [0 ..< 36 :: nat])" by code_simp
  have "length (filter (\<lambda>b. ALPHABET ! (b mod 36) = c) [0 ..< 252]) =
      length (filter (\<lambda>i. ALPHABET ! i = c) (map (\<lambda>b. b mod 36) [0 ..< 252]))"
    by (simp add: filter_map comp_def)
  also have "\<dots> = 7 * length (filter (\<lambda>i. ALPHABET ! i = c) [0 ..< length ALPHABET])"
    unfolding rounds filter_replicated len ..
  also have "length (filter (\<lambda>i. ALPHABET ! i = c) [0 ..< length ALPHABET]) = length (filter (\<lambda>a. a = c) ALPHABET)"
    using filter_map[of "\<lambda>a. a = c" "(!) ALPHABET" "[0 ..< length ALPHABET]"] by (simp add: map_nth comp_def)
  also have "\<dots> = 1"
  proof -
    have "list_all (\<lambda>c. length (filter (\<lambda>a. a = c) ALPHABET) = 1) ALPHABET" by code_simp
    with c show ?thesis by (simp add: list_all_iff)
  qed
  finally show ?thesis unfolding l by simp
qed

text \<open>The names of a run's containers are distinct.\<close>

lemma container_resource_name_inj: "container_resource_name names a = container_resource_name names b \<longleftrightarrow> a = b"
  by (simp add: container_resource_name_def resource_name_def)

text \<open>Removal goes through every leftover once, containers before networks, and counts the answers that are \<open>Ok\<close>.\<close>

lemma remove_each_log: "case remove_each docker ls d of (n, log, _) \<Rightarrow>
    map fst log = ls \<and> n = length (filter (\<lambda>(_, r). is_ok r) log)"
  by (induction docker ls d rule: remove_each.induct) (auto simp: Let_def split: prod.splits)

lemma remove_leftovers_log: "case remove_leftovers docker ls d of (n, log, _) \<Rightarrow>
    map fst log = filter (\<lambda>l. \<not> lo_is_network l) ls @ filter lo_is_network ls \<and>
    n = length (filter (\<lambda>(_, r). is_ok r) log)"
  unfolding remove_leftovers_def by (rule remove_each_log)

section \<open>Finding what a run left\<close>

text \<open>What the daemon documents of a label filter: a listing holds exactly the resources of that kind
  that carry every label asked for, with the value asked for.\<close>

definition label_matches :: "string index_map \<Rightarrow> string \<times> string option \<Rightarrow> bool" where
  "label_matches m kv = (case snd kv of
     Some v \<Rightarrow> im_get m (fst kv) = Some v | None \<Rightarrow> im_contains m (fst kv))"

definition answers_filters ::
  "('d, 'e) inventory \<Rightarrow> ('d \<Rightarrow> labelled_resource list) \<Rightarrow> ('d \<Rightarrow> labelled_resource list) \<Rightarrow> bool" where
  "answers_filters docker held_containers held_networks \<longleftrightarrow> (\<forall>d fs. fs \<noteq> [] \<longrightarrow>
     (\<forall>(k, v) \<in> set fs. CHR ''='' \<notin> set k) \<longrightarrow>
     list_containers docker d (label_filters fs) = Ok (filter (\<lambda>r. list_all (label_matches (lr_labels r)) fs) (held_containers d)) \<and>
     list_networks docker d (label_filters fs) = Ok (filter (\<lambda>r. list_all (label_matches (lr_labels r)) fs) (held_networks d)))"

lemma project_label_plain: "CHR ''='' \<notin> set PROJECT_LABEL"
  by (simp add: PROJECT_LABEL_def)

text \<open>
  C27 (leftovers_found_again): everything a run of a project creates is found again by the project's name, whatever
  labels the configuration gives its containers, and nothing is found that another project or no run
  of Ratect created. What is found says which task and run it is from.
\<close>

theorem leftovers_found_again:
  assumes "answers_filters docker held_containers held_networks"
  shows "\<exists>found. find_leftovers docker d (Some project) None now = Ok found \<and>
    (\<forall>r \<in> set (held_containers d). \<forall>run name role configured.
       lr_labels r = for_container run name role configured \<longrightarrow> rl_project run = project \<longrightarrow>
       (\<exists>l \<in> set found. lo_resource l = r \<and> lo_task l = rl_task run \<and> lo_run l = rl_run_id run)) \<and>
    (\<forall>r \<in> set (held_networks d). \<forall>run. lr_labels r = for_network run \<longrightarrow> rl_project run = project \<longrightarrow>
       (\<exists>l \<in> set found. lo_resource l = r \<and> lo_task l = rl_task run \<and> lo_run l = rl_run_id run)) \<and>
    (\<forall>l \<in> set found. lo_resource l \<in> set (held_containers d) \<union> set (held_networks d) \<and>
       im_get (lr_labels (lo_resource l)) PROJECT_LABEL = Some project)"
proof -
  let ?f = "\<lambda>r. im_get (lr_labels r) PROJECT_LABEL = Some project"
  let ?held = "filter ?f (held_containers d @ held_networks d)"
  have match: "list_all (label_matches m) [(PROJECT_LABEL, Some project)] = (im_get m PROJECT_LABEL = Some project)" for m
    by (simp add: label_matches_def)
  have lists: "list_containers docker d (label_filters [(PROJECT_LABEL, Some project)]) = Ok (filter ?f (held_containers d))"
    "list_networks docker d (label_filters [(PROJECT_LABEL, Some project)]) = Ok (filter ?f (held_networks d))"
    using assms[unfolded answers_filters_def, rule_format, of "[(PROJECT_LABEL, Some project)]" d] project_label_plain
    unfolding match by auto
  have both: "(im_get m PROJECT_LABEL = Some project \<and> im_contains m PROJECT_LABEL) = (im_get m PROJECT_LABEL = Some project)" for m :: "string index_map"
    by (auto simp: im_contains_def dest: im_get_Some_key)
  have found: "find_leftovers docker d (Some project) None now = Ok (map (new_leftover now) ?held)"
    by (simp add: find_leftovers_def lists old_enough_def both)
  have says: "lo_resource (new_leftover now r) = r"
    "im_get (lr_labels r) TASK_LABEL = Some t \<Longrightarrow> lo_task (new_leftover now r) = t"
    "im_get (lr_labels r) RUN_LABEL = Some i \<Longrightarrow> lo_run (new_leftover now r) = i" for r t i
    by (simp_all add: new_leftover_def Let_def)
  let ?found = "map (new_leftover now) ?held"
  have recalled: "\<exists>l \<in> set ?found. lo_resource l = r \<and> lo_task l = rl_task run \<and> lo_run l = rl_run_id (run :: run_labels)"
    if "r \<in> set (held_containers d) \<union> set (held_networks d)" "im_get (lr_labels r) PROJECT_LABEL = Some project"
      "im_get (lr_labels r) TASK_LABEL = Some (rl_task run)" "im_get (lr_labels r) RUN_LABEL = Some (rl_run_id run)" for r run
    using that says(1)[of r] says(2)[OF that(3)] says(3)[OF that(4)] by (intro bexI[of _ "new_leftover now r"]) auto
  have "\<forall>l \<in> set ?found. lo_resource l \<in> set (held_containers d) \<union> set (held_networks d) \<and>
       im_get (lr_labels (lo_resource l)) PROJECT_LABEL = Some project"
    by (auto simp: says(1))
  moreover have "\<forall>r \<in> set (held_containers d). \<forall>run name role configured.
       lr_labels r = for_container run name role configured \<longrightarrow> rl_project run = project \<longrightarrow>
       (\<exists>l \<in> set ?found. lo_resource l = r \<and> lo_task l = rl_task run \<and> lo_run l = rl_run_id run)"
    by (intro ballI allI impI, rule recalled) (simp_all add: for_container_keys)
  moreover have "\<forall>r \<in> set (held_networks d). \<forall>run. lr_labels r = for_network run \<longrightarrow> rl_project run = project \<longrightarrow>
       (\<exists>l \<in> set ?found. lo_resource l = r \<and> lo_task l = rl_task run \<and> lo_run l = rl_run_id run)"
    by (intro ballI allI impI, rule recalled) (simp_all add: for_network_def get_shared_labels)
  ultimately show ?thesis using found by blast
qed

text \<open>A daemon that holds one container of the project, labelled over the project's own labels.\<close>

definition filter_matches :: "string list index_map \<Rightarrow> labelled_resource \<Rightarrow> bool" where
  "filter_matches fs r = list_all (\<lambda>f. case split_once (CHR ''='') f of
       Some (k, v) \<Rightarrow> im_get (lr_labels r) k = Some v | None \<Rightarrow> im_contains (lr_labels r) f)
     (case im_get fs ''label'' of Some ls \<Rightarrow> ls | None \<Rightarrow> [])"

definition example_daemon :: "(labelled_resource list, string) inventory" where
  "example_daemon = \<lparr>list_containers = (\<lambda>d fs. Ok (filter (filter_matches fs) d)), list_networks = (\<lambda>_ _. Ok []),
     remove_network = (\<lambda>i d. (Ok (), d)), stop_and_remove_container = (\<lambda>i d. (Ok (), filter (\<lambda>r. lr_id r \<noteq> i) d))\<rparr>"

lemma example_daemon_answers: "answers_filters example_daemon id (\<lambda>_. [])"
proof -
  have one: "(case split_once (CHR ''='') (case v of Some v \<Rightarrow> k @ ''='' @ v | None \<Rightarrow> k) of
       Some (k, v) \<Rightarrow> im_get m k = Some v | None \<Rightarrow> im_contains m (case v of Some v \<Rightarrow> k @ ''='' @ v | None \<Rightarrow> k)) =
     label_matches m (k, v)" if "CHR ''='' \<notin> set k" for m :: "string index_map" and k v
    using that by (cases v) (simp_all add: label_matches_def)
  have "filter_matches (label_filters fs) r = list_all (label_matches (lr_labels r)) fs"
    if "fs \<noteq> []" "\<forall>(k, v) \<in> set fs. CHR ''='' \<notin> set k" for fs r
  proof -
    let ?g = "\<lambda>(k, v). case v of Some v \<Rightarrow> k @ ''='' @ v | None \<Rightarrow> k"
    let ?Q = "\<lambda>f. case split_once (CHR ''='') f of Some (k, v) \<Rightarrow> im_get (lr_labels r) k = Some v | None \<Rightarrow> im_contains (lr_labels r) f"
    have "label_filters fs = [(''label'', map ?g fs)]" using that(1) by (simp add: label_filters_def)
    then have "filter_matches (label_filters fs) r = list_all ?Q (map ?g fs)"
      by (simp only: filter_matches_def im_get_simps simp_thms if_True option.case)
    also have "\<dots> = list_all (label_matches (lr_labels r)) fs"
      unfolding list.pred_map comp_def
    proof (rule list.pred_cong[OF refl])
      fix kv assume "kv \<in> set fs"
      with that(2) obtain k v where kv: "kv = (k, v)" "CHR ''='' \<notin> set k" by fastforce
      from one[OF kv(2), of "lr_labels r" v] show "?Q (?g kv) = label_matches (lr_labels r) kv" by (simp only: kv(1) prod.case)
    qed
    finally show ?thesis .
  qed
  then show ?thesis by (simp add: answers_filters_def example_daemon_def cong: filter_cong)
qed

definition example_run_labels :: run_labels where
  "example_run_labels = \<lparr>rl_project = ''shop'', rl_task = ''test'', rl_run_id = ''r1'', rl_version = None\<rparr>"

definition example_leftover :: labelled_resource where
  "example_leftover = \<lparr>lr_id = ''1'', lr_name = ''shop-db-ab12cd'',
     lr_labels = for_container example_run_labels ''db'' Dependency_Role (Some [(PROJECT_LABEL, ''other'')]),
     lr_created = None, lr_state = Some ''exited''\<rparr>"

theorem leftovers_found_again_witness:
  "\<exists>found. find_leftovers example_daemon [example_leftover] (Some ''shop'') None 0 = Ok found \<and>
     (\<exists>l \<in> set found. lo_resource l = example_leftover \<and> lo_task l = ''test'' \<and> lo_run l = ''r1'')"
proof -
  have "lr_labels example_leftover = for_container example_run_labels ''db'' Dependency_Role (Some [(PROJECT_LABEL, ''other'')])"
    "rl_project example_run_labels = ''shop''" "rl_task example_run_labels = ''test''" "rl_run_id example_run_labels = ''r1''"
    by (simp_all add: example_leftover_def example_run_labels_def)
  with leftovers_found_again[OF example_daemon_answers, of "[example_leftover]" "''shop''" 0] show ?thesis
    by (metis id_apply list.set_intros(1))
qed

end
