(* ===== verification/Container_Spec.thy ===== *)
theory Container_Spec
  imports Config_Checks Labels Proxy
begin

text \<open>
  What a container is created from (\<open>src/ratect-core/src/container_spec.rs\<close>): the network it is on, the merge of
  its configuration with the task's \<open>run\<close> or a dependency's \<open>customise\<close> entry, and the specification of a
  build. The file system is an argument where a build's secrets and agents are looked at.
\<close>

section \<open>Networks\<close>

datatype container_network = On_Task_Network string | On_Host | On_None | On_Container string

fun shares_namespace :: "container_network \<Rightarrow> bool" where
  "shares_namespace (On_Container _) = True"
| "shares_namespace _ = False"

datatype spec_error =
    Undeclared_Container_Bug string
  | Network_Target_Not_Created string
  | Ssh_Socket_And_Files string string
  | Ssh_Several_Sockets string nat
  | Secret_Not_A_File string string
  | Secret_Does_Not_Exist string string
  | Secret_Unreadable string string

definition resolve_network ::
  "network_mode option \<Rightarrow> string \<Rightarrow> string index_map \<Rightarrow> (spec_error, container_network) result" where
  "resolve_network mode task_network dependency_ids = (case mode of
       None \<Rightarrow> Ok (On_Task_Network task_network)
     | Some Host \<Rightarrow> Ok On_Host
     | Some No_Network \<Rightarrow> Ok On_None
     | Some (Container_Network target) \<Rightarrow> (case im_get dependency_ids target of
           Some i \<Rightarrow> Ok (On_Container i) | None \<Rightarrow> Err (Network_Target_Not_Created target)))"

section \<open>The specification\<close>

record current_user =
  cu_uid :: u32
  cu_gid :: u32
  cu_username :: string
  cu_groupname :: string

record user_mapping =
  um_user :: current_user
  um_home_directory :: string
  um_cache_directories :: "string list"

record network_options =
  no_additional_hostnames :: "string list option"
  no_additional_hosts :: "string index_map option"
  no_proxy_host_gateway :: "host_gateway option"
  no_ports :: "(u16 \<times> u16 \<times> string) list option"

record container_options =
  co_working_directory :: "string option"
  co_entrypoint :: "string option"
  co_capabilities_to_add :: "string list option"
  co_capabilities_to_drop :: "string list option"
  co_privileged :: "bool option"
  co_shm_size :: "nat option"
  co_devices :: "(string \<times> string \<times> string option) list option"
  co_enable_init_process :: bool
  co_log_driver :: "string option"
  co_log_options :: "string index_map option"
  co_tmpfs :: "(string \<times> string) list option"
  co_ulimits :: "(string \<times> int \<times> int) list option"
  co_groups :: "string list option"
  co_dns :: "string list option"
  co_dns_search :: "string list option"
  co_dns_options :: "string list option"

record health_check_options =
  ho_command :: "string option"
  ho_interval :: "nat option"
  ho_retries :: "u32 option"
  ho_start_period :: "nat option"
  ho_timeout :: "nat option"

record identity_plan =
  ip_home :: string
  ip_host_user :: "current_user option"
  ip_additional_users :: "additional_user list"

datatype bind_source = Host_Path string | Named_Volume string

record bind_mount =
  bm_source :: bind_source
  bm_container :: string
  bm_options :: "string option"

fun host_path :: "bind_mount \<Rightarrow> string option" where
  "host_path b = (case bm_source b of Host_Path p \<Rightarrow> Some p | Named_Volume _ \<Rightarrow> None)"

definition to_bind_string :: "bind_mount \<Rightarrow> string" where
  "to_bind_string b =
     (let source = (case bm_source b of Host_Path p \<Rightarrow> p | Named_Volume v \<Rightarrow> v)
      in case bm_options b of
           Some opts \<Rightarrow> source @ '':'' @ bm_container b @ '':'' @ opts
         | None \<Rightarrow> source @ '':'' @ bm_container b)"

definition is_read_only :: "string option \<Rightarrow> bool" where
  "is_read_only opts = (case opts of None \<Rightarrow> False | Some s \<Rightarrow> list_ex (\<lambda>flag. trim flag = ''ro'') (split (CHR '','') s))"

record shared_container_spec =
  sc_name :: string
  sc_docker_name :: string
  sc_image :: string
  sc_cmd :: "string option"
  sc_volumes :: "bind_mount list option"
  sc_environment :: "string index_map option"
  sc_network :: container_network
  sc_runs_as_host_user :: bool
  sc_process_user :: "string option"
  sc_user_mapping :: "user_mapping option"
  sc_identity :: "identity_plan option"
  sc_network_options :: network_options
  sc_health_check :: "health_check_options option"
  sc_options :: container_options

record container_spec =
  cs_shared :: shared_container_spec
  cs_role :: container_role
  cs_labels :: "string index_map"
  cs_interactive :: bool
  cs_additional_args :: "string list"

datatype overlay = Run task_run | Customise "customisation option"

record spec_inputs =
  in_name :: string
  in_docker_name :: string
  in_container_config :: container
  in_overlay :: overlay
  in_image :: string
  in_network :: container_network
  in_interactive :: bool
  in_additional_args :: "string list"
  in_user_mapping :: "user_mapping option"
  in_identity_host_user :: "current_user option"
  in_volumes :: "bind_mount list option"
  in_term_var :: "string index_map option"
  in_proxy :: "proxy_environment option"
  in_publish_ports :: bool
  in_role :: container_role
  in_run_labels :: run_labels

section \<open>Merging\<close>

definition extend_opt :: "'v index_map \<Rightarrow> 'v index_map option \<Rightarrow> 'v index_map" where
  "extend_opt m n = (case n of Some n \<Rightarrow> im_extend m n | None \<Rightarrow> m)"

definition merged_environment ::
  "string index_map option \<Rightarrow> string index_map option \<Rightarrow> string index_map option \<Rightarrow> string index_map option \<Rightarrow>
   string index_map option" where
  "merged_environment term_var proxy_vars container_env overlay_env =
     (if term_var = None \<and> proxy_vars = None \<and> container_env = None \<and> overlay_env = None then None
      else Some (extend_opt (extend_opt (extend_opt (case term_var of Some m \<Rightarrow> m | None \<Rightarrow> []) proxy_vars) container_env) overlay_env))"

definition push_new :: "'a list \<Rightarrow> 'a \<Rightarrow> 'a list" where
  "push_new xs x = (if x \<in> set xs then xs else xs @ [x])"

definition merged_ports :: "port_mapping list option \<Rightarrow> port_mapping list option \<Rightarrow> (u16 \<times> u16 \<times> string) list" where
  "merged_ports container_ports overlay_ports =
     foldl push_new [] (concat (map port_mapping_expand (or_empty container_ports @ or_empty overlay_ports)))"

definition health_check_options_of :: "container \<Rightarrow> health_check_options option" where
  "health_check_options_of c = map_option (\<lambda>h. \<lparr>ho_command = hc_command h, ho_interval = hc_interval h,
     ho_retries = hc_retries h, ho_start_period = hc_start_period h, ho_timeout = hc_timeout h\<rparr>) (health_check c)"

definition device_triples :: "device_mapping list option \<Rightarrow> (string \<times> string \<times> string option) list option" where
  "device_triples ds = map_option (map (\<lambda>d. (dm_local d, dm_container d, dm_options d))) ds"

definition show_u32 :: "u32 \<Rightarrow> string" where
  "show_u32 w = show_nat (unat w)"

definition process_user :: "container \<Rightarrow> current_user option \<Rightarrow> string option" where
  "process_user c host_user = (case host_user of
       Some u \<Rightarrow> Some (show_u32 (cu_uid u) @ '':'' @ show_u32 (cu_gid u))
     | None \<Rightarrow> (case user c of
           None \<Rightarrow> None
         | Some u \<Rightarrow> Some (case group c of Some g \<Rightarrow> u @ '':'' @ g | None \<Rightarrow> u)))"

definition tmpfs_mounts :: "volume_mount list option \<Rightarrow> (string \<times> string) list option" where
  "tmpfs_mounts vs = (case vs of None \<Rightarrow> None | Some vs \<Rightarrow>
     (let mounts = List.map_filter (\<lambda>v. case v of
            Tmpfs t \<Rightarrow> Some (tv_container t, case tv_options t of Some s \<Rightarrow> s | None \<Rightarrow> []) | _ \<Rightarrow> None) vs
      in if mounts = [] then None else Some mounts))"

text \<open>What an overlay overrides: command, entrypoint, working directory, environment and ports.\<close>

fun overrides :: "overlay \<Rightarrow> string option \<times> string option \<times> string option \<times> string index_map option \<times> port_mapping list option" where
  "overrides (Run r) = (tr_command r, tr_entrypoint r, tr_working_directory r, tr_environment r, tr_ports r)"
| "overrides (Customise None) = (None, None, None, None, None)"
| "overrides (Customise (Some c)) = (None, None, cu_working_directory c, cu_environment c, cu_ports c)"

definition plan_identity :: "container \<Rightarrow> current_user option \<Rightarrow> identity_plan option" where
  "plan_identity c host_user = map_option (\<lambda>i. \<lparr>ip_home = id_home i, ip_host_user = host_user,
     ip_additional_users = id_additional_users i\<rparr>) (identity c)"

definition derive_spec :: "spec_inputs \<Rightarrow> container_spec" where
  "derive_spec i =
     (let c = in_container_config i;
          (command_override, entrypoint_override, working_directory_override, environment_override, ports_override) = overrides (in_overlay i);
          merged = merged_environment (in_term_var i) (map_option pe_variables (in_proxy i)) (environment c) environment_override;
          plan = plan_identity c (in_identity_host_user i);
          env = (case plan of None \<Rightarrow> merged
                 | Some p \<Rightarrow> Some (or_insert (case merged of Some m \<Rightarrow> m | None \<Rightarrow> []) ''HOME'' (ip_home p)));
          expanded_ports = merged_ports (ports c) ports_override;
          host_user = opt_or (map_option um_user (in_user_mapping i)) (Option.bind plan ip_host_user)
      in \<lparr>cs_shared = \<lparr>
            sc_name = in_name i,
            sc_docker_name = in_docker_name i,
            sc_image = in_image i,
            sc_cmd = opt_or command_override (command c),
            sc_volumes = in_volumes i,
            sc_environment = env,
            sc_network = in_network i,
            sc_runs_as_host_user = (host_user \<noteq> None),
            sc_process_user = process_user c host_user,
            sc_user_mapping = in_user_mapping i,
            sc_identity = plan,
            sc_network_options = \<lparr>
              no_additional_hostnames = additional_hostnames c,
              no_additional_hosts = additional_hosts c,
              no_proxy_host_gateway = (if shares_namespace (in_network i) then None
                 else Option.bind (in_proxy i) host_gateway_of),
              no_ports = (if in_publish_ports i \<and> expanded_ports \<noteq> [] then Some expanded_ports else None)\<rparr>,
            sc_health_check = health_check_options_of c,
            sc_options = \<lparr>
              co_working_directory = opt_or working_directory_override (working_directory c),
              co_entrypoint = opt_or entrypoint_override (entrypoint c),
              co_capabilities_to_add = capabilities_to_add c,
              co_capabilities_to_drop = capabilities_to_drop c,
              co_privileged = privileged c,
              co_shm_size = shm_size c,
              co_devices = device_triples (devices c),
              co_enable_init_process = (case enable_init_process c of Some b \<Rightarrow> b | None \<Rightarrow> False),
              co_log_driver = log_driver c,
              co_log_options = log_options c,
              co_tmpfs = tmpfs_mounts (volumes c),
              co_ulimits = ulimits c,
              co_groups = groups c,
              co_dns = dns c,
              co_dns_search = dns_search c,
              co_dns_options = dns_options c\<rparr>\<rparr>,
          cs_role = in_role i,
          cs_labels = for_container (in_run_labels i) (in_name i) (in_role i) (labels c),
          cs_interactive = in_interactive i,
          cs_additional_args = in_additional_args i\<rparr>)"

section \<open>Builds\<close>

datatype ssh_agent_source = Host_Agent | Agent_Socket string | Agent_Keys "string list"

definition classify_ssh_agent_paths :: "(string \<Rightarrow> bool) \<Rightarrow> string \<Rightarrow> string list \<Rightarrow> (spec_error, ssh_agent_source) result" where
  "classify_ssh_agent_paths is_socket i paths =
     (if paths = [] then Ok Host_Agent
      else let unique = foldl push_new [] paths; sockets = filter is_socket unique
           in case sockets of
                [] \<Rightarrow> Ok (Agent_Keys unique)
              | [s] \<Rightarrow> if length unique = 1 then Ok (Agent_Socket s) else Err (Ssh_Socket_And_Files i s)
              | _ \<Rightarrow> Err (Ssh_Several_Sockets i (length sockets)))"

datatype file_status = Regular_File | Other_File | No_Such_File | Metadata_Error

definition check_secret_file :: "(string \<Rightarrow> file_status) \<Rightarrow> string \<Rightarrow> string \<Rightarrow> (spec_error, unit) result" where
  "check_secret_file metadata i path = (case metadata path of
       Regular_File \<Rightarrow> Ok ()
     | Other_File \<Rightarrow> Err (Secret_Not_A_File i path)
     | No_Such_File \<Rightarrow> Err (Secret_Does_Not_Exist i path)
     | Metadata_Error \<Rightarrow> Err (Secret_Unreadable i path))"

record buildkit_options =
  bk_secrets :: "build_secret index_map"
  bk_ssh_agents :: "ssh_agent_source index_map"

text \<open>A secret's source mirrors its configuration, so the same type serves for both.\<close>

definition secret_source ::
  "(string \<Rightarrow> file_status) \<Rightarrow> build_secret index_map \<Rightarrow> string \<times> build_secret \<Rightarrow> (spec_error, build_secret index_map) result" where
  "secret_source metadata sources entry = (case snd entry of
       Secret_Environment name \<Rightarrow> Ok (im_insert sources (fst entry) (Secret_Environment name))
     | Secret_Path path \<Rightarrow> rbind (check_secret_file metadata (fst entry) path) (\<lambda>_.
         Ok (im_insert sources (fst entry) (Secret_Path path))))"

definition buildkit_options_of ::
  "(string \<Rightarrow> bool) \<Rightarrow> (string \<Rightarrow> file_status) \<Rightarrow> container \<Rightarrow> (spec_error, buildkit_options option) result" where
  "buildkit_options_of is_socket metadata c =
     (if build_secrets c = None \<and> build_ssh c = None then Ok None
      else rbind (fold_res (\<lambda>agent agents. rbind (classify_ssh_agent_paths is_socket (ssh_id agent) (ssh_paths agent))
                    (\<lambda>source. Ok (im_insert agents (ssh_id agent) source))) (or_empty (build_ssh c)) [])
      (\<lambda>agents. rbind (fold_res (\<lambda>entry sources. secret_source metadata sources entry)
                    (sort_key fst (case build_secrets c of Some m \<Rightarrow> m | None \<Rightarrow> [])) [])
      (\<lambda>secrets. Ok (Some \<lparr>bk_secrets = secrets, bk_ssh_agents = agents\<rparr>))))"

record build_spec =
  bs_build_directory :: string
  bs_dockerfile :: string
  bs_build_args :: "string index_map option"
  bs_target :: "string option"
  bs_buildkit :: "buildkit_options option"
  bs_tag :: string
  bs_force_pull :: bool
  bs_proxy_host_gateway :: "host_gateway option"
  bs_config_file_proxies :: bool

definition derive_build_spec ::
  "(string \<Rightarrow> bool) \<Rightarrow> (string \<Rightarrow> file_status) \<Rightarrow> container \<Rightarrow> string \<Rightarrow> string \<Rightarrow> string \<Rightarrow> proxy_environment option \<Rightarrow> bool \<Rightarrow>
   (spec_error, build_spec) result" where
  "derive_build_spec is_socket metadata c directory docker_file tag proxy config_file_proxies =
     rbind (buildkit_options_of is_socket metadata c) (\<lambda>bk.
       Ok \<lparr>bs_build_directory = directory, bs_dockerfile = docker_file,
         bs_build_args = merged_environment None (map_option pe_variables proxy) (build_args c) None,
         bs_target = build_target c, bs_buildkit = bk, bs_tag = tag,
         bs_force_pull = (case image_pull_policy c of Some p \<Rightarrow> p = Pull_Always | None \<Rightarrow> False),
         bs_proxy_host_gateway = Option.bind proxy host_gateway_of,
         bs_config_file_proxies = config_file_proxies\<rparr>)"

end
