(* ===== verification/Daemon.thy ===== *)
theory Daemon
  imports Rust_Std
begin

text \<open>
  What Ratect decides from what it learns about a daemon: its class (\<open>daemon_class.rs\<close>), the builder of an image
  build (\<open>select_builder_version\<close> and what leads to it in \<open>docker.rs\<close>, with \<open>docker/boolean_variable.rs\<close>), and the
  refusals of daemons it does not work with.
\<close>

section \<open>Classes\<close>

datatype daemon_class = Rootless | Userns_Remap | Desktop | Rootful_Linux

fun daemon_class_display :: "daemon_class \<Rightarrow> string" where
  "daemon_class_display Rootless = ''rootless''"
| "daemon_class_display Userns_Remap = ''userns-remap''"
| "daemon_class_display Desktop = ''desktop''"
| "daemon_class_display Rootful_Linux = ''rootful Linux''"

definition is_remapped :: "daemon_class \<Rightarrow> bool" where
  "is_remapped c \<longleftrightarrow> c = Rootless \<or> c = Userns_Remap"

datatype transport = Local_Socket | Network_Transport

definition of_host :: "string \<Rightarrow> transport" where
  "of_host host = (if starts_with host ''unix://'' \<or> starts_with host ''npipe://'' then Local_Socket else Network_Transport)"

definition classify :: "string list \<Rightarrow> string \<Rightarrow> transport \<Rightarrow> daemon_class" where
  "classify security_options host_os t =
     (let reports = (\<lambda>entry. list_ex (\<lambda>opt. opt = entry) security_options) in
      if reports ''name=rootless'' then Rootless
      else if reports ''name=userns'' then Userns_Remap
      else if host_os \<in> {''macos'', ''windows''} \<and> t = Local_Socket then Desktop
      else Rootful_Linux)"

section \<open>Boolean variables\<close>

datatype daemon_error =
    Neither_True_Nor_False string string
  | Unknown_Builder string
  | Needs_BuildKit string
  | Api_Too_Old "nat \<times> nat"
  | Windows_Containers string

definition boolean_variable_parse :: "string \<Rightarrow> string option \<Rightarrow> (daemon_error, bool option) result" where
  "boolean_variable_parse name val = (case val of
       None \<Rightarrow> Ok None
     | Some v \<Rightarrow> if v = [] then Ok None
         else let lower = to_ascii_lowercase v in
           if lower \<in> {''1'', ''yes'', ''true''} then Ok (Some True)
           else if lower \<in> {''0'', ''no'', ''false''} then Ok (Some False)
           else Err (Neither_True_Nor_False name v))"

section \<open>Builders\<close>

datatype builder_version = Builder_V1 | Builder_BuildKit

definition docker_buildkit_env_value :: "bool \<Rightarrow> string option \<Rightarrow> string option" where
  "docker_buildkit_env_value enable_buildkit_flag real_env_value =
     (if enable_buildkit_flag then Some ''1'' else real_env_value)"

definition select_builder_version :: "string option \<Rightarrow> string option \<Rightarrow> (daemon_error, builder_version) result" where
  "select_builder_version docker_buildkit_env daemon_advertised =
     rbind (boolean_variable_parse ''DOCKER_BUILDKIT'' docker_buildkit_env) (\<lambda>b. case b of
       Some True \<Rightarrow> Ok Builder_BuildKit
     | Some False \<Rightarrow> Ok Builder_V1
     | None \<Rightarrow> (case daemon_advertised of
           None \<Rightarrow> Ok Builder_V1
         | Some v \<Rightarrow> if v = [] \<or> v = ''1'' then Ok Builder_V1
             else if v = ''2'' then Ok Builder_BuildKit else Err (Unknown_Builder v)))"

definition refuse_buildkit_options_on_the_classic_builder ::
  "builder_version \<Rightarrow> 'b option \<Rightarrow> string \<Rightarrow> (daemon_error, unit) result" where
  "refuse_buildkit_options_on_the_classic_builder builder buildkit tag =
     (if builder = Builder_V1 \<and> buildkit \<noteq> None then Err (Needs_BuildKit tag) else Ok ())"

section \<open>Daemons that do not do\<close>

definition MINIMUM_API_VERSION :: "nat \<times> nat" where
  "MINIMUM_API_VERSION = (1, 41)"

text \<open>Versions are compared by their major number, then by their minor one.\<close>

definition version_less :: "nat \<times> nat \<Rightarrow> nat \<times> nat \<Rightarrow> bool" where
  "version_less a b \<longleftrightarrow> fst a < fst b \<or> fst a = fst b \<and> snd a < snd b"

definition check_api_version_floor :: "nat \<times> nat \<Rightarrow> (daemon_error, unit) result" where
  "check_api_version_floor negotiated =
     (if version_less negotiated MINIMUM_API_VERSION then Err (Api_Too_Old negotiated) else Ok ())"

definition check_daemon_os :: "string option \<Rightarrow> (daemon_error, unit) result" where
  "check_daemon_os os = (case os of
       Some os \<Rightarrow> if to_ascii_lowercase os = to_ascii_lowercase ''windows'' then Err (Windows_Containers os) else Ok ()
     | None \<Rightarrow> Ok ())"

section \<open>Lemmas\<close>

text \<open>The flag decides whatever the variable holds; a variable that is set decides whatever the daemon
  advertises, and an error quotes the value that is neither.\<close>

lemma flag_selects_buildkit:
  "select_builder_version (docker_buildkit_env_value True env) advertised = Ok Builder_BuildKit"
proof -
  have "to_ascii_lowercase ''1'' = ''1''" by code_simp
  then show ?thesis by (simp add: select_builder_version_def docker_buildkit_env_value_def boolean_variable_parse_def)
qed

lemma boolean_variable_case_insensitive:
  "to_ascii_lowercase v = to_ascii_lowercase w \<Longrightarrow> v \<noteq> [] \<Longrightarrow> w \<noteq> [] \<Longrightarrow>
     boolean_variable_parse n (Some v) = Ok b \<longleftrightarrow> boolean_variable_parse n (Some w) = Ok b"
  by (auto simp: boolean_variable_parse_def Let_def)

lemma secrets_need_buildkit:
  assumes "select_builder_version env advertised = Ok builder"
    and "refuse_buildkit_options_on_the_classic_builder builder (Some options) tag = Ok ()"
  shows "builder = Builder_BuildKit"
  using assms by (cases builder) (auto simp: refuse_buildkit_options_on_the_classic_builder_def)

text \<open>A local daemon on a desktop system that reports a remapping is not taken for a desktop one.\<close>

lemma classify_reported: "''name=rootless'' \<in> set opts \<Longrightarrow> is_remapped (classify opts os t)"
  "''name=userns'' \<in> set opts \<Longrightarrow> is_remapped (classify opts os t)"
  "is_remapped (classify opts os t) \<Longrightarrow> ''name=rootless'' \<in> set opts \<or> ''name=userns'' \<in> set opts"
  by (auto simp: classify_def is_remapped_def list_ex_iff Let_def split: if_splits)

end
