(* ===== verification/Create_Request.thy ===== *)
theory Create_Request
  imports Container_Spec Command_Line Daemon
begin

text \<open>
  The request Docker gets to create a container: the builders of \<open>src/ratect-core/src/docker.rs\<close> and
  \<open>container_config\<close>, which composes them, and the inputs \<open>ensure_container_created\<close> of \<open>engine.rs\<close> derives the
  container's specification from. What the daemon is told is a record with the fields the code sets;
  every other field of the API's types stays unset.
\<close>

section \<open>The parts of a request\<close>

definition additional_args_replace_image_cmd :: "string option \<Rightarrow> string list \<Rightarrow> bool" where
  "additional_args_replace_image_cmd cmd args \<longleftrightarrow> cmd = None \<and> args \<noteq> []"

definition replaced_image_cmd :: "string option \<Rightarrow> string list \<Rightarrow> string list option \<Rightarrow> string list option" where
  "replaced_image_cmd cmd args image_cmd = (case image_cmd of
       Some c \<Rightarrow> if additional_args_replace_image_cmd cmd args \<and> c \<noteq> [] then Some c else None
     | None \<Rightarrow> None)"

definition build_env :: "string index_map option \<Rightarrow> string list option" where
  "build_env env = map_option (\<lambda>m. sort (map (\<lambda>(key, val). key @ ''='' @ val) m)) env"

definition build_extra_hosts :: "string index_map option \<Rightarrow> host_gateway option \<Rightarrow> string list option" where
  "build_extra_hosts hosts gateway =
     (if hosts = None \<and> gateway = None then None
      else let base = (case gateway of Some g \<Rightarrow> [(hg_name g, hg_address g)] | None \<Rightarrow> []);
               all_hosts = extend_opt base hosts
           in Some (sort (map (\<lambda>(name, address). name @ '':'' @ address) all_hosts)))"

record device_request =
  path_on_host :: string
  path_in_container :: string
  cgroup_permissions :: string

definition build_devices :: "(string \<times> string \<times> string option) list option \<Rightarrow> device_request list option" where
  "build_devices ds = map_option (map (\<lambda>(lcl, cnt, opts).
     \<lparr>path_on_host = lcl, path_in_container = cnt,
      cgroup_permissions = (case opts of Some p \<Rightarrow> p | None \<Rightarrow> ''rwm'')\<rparr>)) ds"

fun build_network_mode :: "container_network \<Rightarrow> string" where
  "build_network_mode (On_Task_Network name) = name"
| "build_network_mode On_Host = ''host''"
| "build_network_mode On_None = ''none''"
| "build_network_mode (On_Container i) = ''container:'' @ i"

fun build_networking_config :: "container_network \<Rightarrow> string \<Rightarrow> string list option \<Rightarrow> (string \<times> string list) option" where
  "build_networking_config (On_Task_Network network) name hostnames = Some (network, name # or_empty hostnames)"
| "build_networking_config _ name hostnames = None"

definition build_hostname :: "string \<Rightarrow> container_network \<Rightarrow> string option" where
  "build_hostname name network = (if shares_namespace network then None else Some name)"

record ulimit_request =
  ulr_name :: string
  ulr_soft :: int
  ulr_hard :: int

definition build_ulimits :: "(string \<times> int \<times> int) list option \<Rightarrow> ulimit_request list option" where
  "build_ulimits us = map_option (map (\<lambda>(name, soft, hard). \<lparr>ulr_name = name, ulr_soft = soft, ulr_hard = hard\<rparr>)) us"

text \<open>Collecting pairs into a \<open>HashMap\<close>: the last of several with one key wins.\<close>

definition build_tmpfs_mounts :: "(string \<times> string) list option \<Rightarrow> string index_map option" where
  "build_tmpfs_mounts ts = map_option (im_extend []) ts"

definition build_log_config :: "string option \<Rightarrow> string index_map option \<Rightarrow> (string \<times> string index_map option) option" where
  "build_log_config driver opts = map_option (\<lambda>d. (d, opts)) driver"

record health_request =
  hr_test :: "string list option"
  hr_interval :: "int option"
  hr_timeout :: "int option"
  hr_retries :: "int option"
  hr_start_period :: "int option"

definition i64_max :: int where "i64_max = 2 ^ 63 - 1"

definition nanos :: "nat \<Rightarrow> int" where
  "nanos d = (if int d \<le> i64_max then int d else i64_max)"

definition build_health_config :: "health_check_options option \<Rightarrow> health_request option" where
  "build_health_config h = map_option (\<lambda>h.
     \<lparr>hr_test = map_option (\<lambda>c. [''CMD-SHELL'', c]) (ho_command h), hr_interval = map_option nanos (ho_interval h),
      hr_timeout = map_option nanos (ho_timeout h), hr_retries = map_option uint (ho_retries h),
      hr_start_period = map_option nanos (ho_start_period h)\<rparr>) h"

type_synonym port_bindings = "u16 list index_map"

definition port_key :: "u16 \<times> u16 \<times> string \<Rightarrow> string" where
  "port_key p = show_u16 (fst (snd p)) @ ''/'' @ snd (snd p)"

definition add_port :: "string list \<times> port_bindings \<Rightarrow> u16 \<times> u16 \<times> string \<Rightarrow> string list \<times> port_bindings" where
  "add_port eb p = (case eb of (exposed, bindings) \<Rightarrow>
     (push_new exposed (port_key p),
      im_insert bindings (port_key p) (push_new (case im_get bindings (port_key p) of Some bs \<Rightarrow> bs | None \<Rightarrow> []) (fst p))))"

definition build_port_config :: "(u16 \<times> u16 \<times> string) list option \<Rightarrow> (string list \<times> port_bindings) option" where
  "build_port_config ps = (case ps of None \<Rightarrow> None | Some ps \<Rightarrow>
     if ps = [] then None else Some (foldl add_port ([], []) ps))"

section \<open>Standard streams\<close>

datatype container_io_streaming = Task_Container_Only | Interleaved_IO

fun allows_interactive :: "container_io_streaming \<Rightarrow> bool" where
  "allows_interactive Task_Container_Only = True"
| "allows_interactive Interleaved_IO = False"

definition should_use_tty :: "bool \<Rightarrow> bool \<Rightarrow> bool \<Rightarrow> bool" where
  "should_use_tty interactive stdin_is_tty stdout_is_tty \<longleftrightarrow> interactive \<and> stdin_is_tty \<and> stdout_is_tty"

record stdin_flags =
  sf_tty :: "bool option"
  sf_open_stdin :: "bool option"
  sf_attach_stdin :: "bool option"
  sf_stdin_once :: "bool option"

definition then_true :: "bool \<Rightarrow> bool option" where
  "then_true b = (if b then Some True else None)"

definition stdin_flags_of :: "bool \<Rightarrow> bool \<Rightarrow> stdin_flags" where
  "stdin_flags_of interactive use_tty = \<lparr>sf_tty = then_true use_tty, sf_open_stdin = then_true interactive,
     sf_attach_stdin = then_true interactive, sf_stdin_once = then_true interactive\<rparr>"

text \<open>What the client knows of its surroundings: the daemon's host, how output is streamed, and whether
  its own stdin and stdout are terminals.\<close>

record docker_client =
  dc_daemon_host :: string
  dc_streaming :: container_io_streaming
  dc_stdin_is_tty :: bool
  dc_stdout_is_tty :: bool

definition task_container_io :: "docker_client \<Rightarrow> container_spec \<Rightarrow> bool \<times> bool" where
  "task_container_io client spec =
     (let interactive = (cs_interactive spec \<and> allows_interactive (dc_streaming client))
      in (interactive, should_use_tty interactive (dc_stdin_is_tty client) (dc_stdout_is_tty client)))"

definition creates_host_directories :: "shared_container_spec \<Rightarrow> transport \<Rightarrow> bool" where
  "creates_host_directories shared t \<longleftrightarrow> sc_runs_as_host_user shared \<and> (sc_user_mapping shared \<noteq> None \<or> t = Local_Socket)"

section \<open>The request\<close>

record host_config =
  binds :: "string list option"
  extra_hosts :: "string list option"
  port_bindings :: "port_bindings option"
  cap_add :: "string list option"
  cap_drop :: "string list option"
  hc_privileged :: "bool option"
  hc_shm_size :: "nat option"
  hc_devices :: "device_request list option"
  init :: bool
  log_config :: "(string \<times> string index_map option) option"
  tmpfs :: "string index_map option"
  hc_ulimits :: "ulimit_request list option"
  group_add :: "string list option"
  hc_dns :: "string list option"
  hc_dns_search :: "string list option"
  hc_dns_options :: "string list option"
  hc_network_mode :: string

record create_request =
  rq_hostname :: "string option"
  rq_image :: string
  rq_cmd :: "string list option"
  rq_entrypoint :: "string list option"
  rq_env :: "string list option"
  rq_exposed_ports :: "string list option"
  rq_attach_stdout :: "bool option"
  rq_attach_stderr :: "bool option"
  rq_stdin :: stdin_flags
  rq_user :: "string option"
  rq_healthcheck :: "health_request option"
  rq_working_dir :: "string option"
  rq_labels :: "string index_map"
  rq_host_config :: host_config
  rq_networking_config :: "(string \<times> string list) option"

datatype 'e request_error = Host_Directories 'e | Command_Error command_error

text \<open>The creation of host directories is file system work: its result is the argument \<open>ensured\<close>, called with the
  mounts when the container needs it.\<close>

definition container_config ::
  "docker_client \<Rightarrow> (bind_mount list \<Rightarrow> (string \<times> string) list \<Rightarrow> ('e, unit) result) \<Rightarrow> container_spec \<Rightarrow>
   ('e request_error, create_request) result" where
  "container_config client ensured spec =
     (let shared = cs_shared spec; options = sc_options shared; network = sc_network_options shared in
      rbind (if creates_host_directories shared (of_host (dc_daemon_host client))
             then map_err Host_Directories (ensured (or_empty (sc_volumes shared)) (or_empty (co_tmpfs options))) else Ok ()) (\<lambda>_.
      rbind (map_err Command_Error (build_cmd (sc_cmd shared) (cs_additional_args spec))) (\<lambda>cmd.
      rbind (map_err Command_Error (case co_entrypoint options of None \<Rightarrow> Ok None
               | Some e \<Rightarrow> rbind (tokenize_command_line e) (\<lambda>argv. Ok (Some argv)))) (\<lambda>entry.
      let port_config = build_port_config (no_ports network);
          is_task_container = (cs_role spec = Task_Role);
          (interactive, use_tty) = task_container_io client spec
      in Ok \<lparr>rq_hostname = build_hostname (sc_name shared) (sc_network shared),
             rq_image = sc_image shared, rq_cmd = cmd, rq_entrypoint = entry,
             rq_env = build_env (sc_environment shared),
             rq_exposed_ports = map_option fst port_config,
             rq_attach_stdout = then_true is_task_container, rq_attach_stderr = then_true is_task_container,
             rq_stdin = stdin_flags_of interactive use_tty,
             rq_user = sc_process_user shared,
             rq_healthcheck = build_health_config (sc_health_check shared),
             rq_working_dir = co_working_directory options,
             rq_labels = cs_labels spec,
             rq_host_config = \<lparr>
               binds = map_option (map to_bind_string) (sc_volumes shared),
               extra_hosts = build_extra_hosts (no_additional_hosts network) (no_proxy_host_gateway network),
               port_bindings = map_option snd port_config,
               cap_add = co_capabilities_to_add options, cap_drop = co_capabilities_to_drop options,
               hc_privileged = co_privileged options, hc_shm_size = co_shm_size options,
               hc_devices = build_devices (co_devices options), init = co_enable_init_process options,
               log_config = build_log_config (co_log_driver options) (co_log_options options),
               tmpfs = build_tmpfs_mounts (co_tmpfs options), hc_ulimits = build_ulimits (co_ulimits options),
               group_add = co_groups options, hc_dns = co_dns options, hc_dns_search = co_dns_search options,
               hc_dns_options = co_dns_options options,
               hc_network_mode = build_network_mode (sc_network shared)\<rparr>,
             rq_networking_config = build_networking_config (sc_network shared) (sc_name shared) (no_additional_hostnames network)\<rparr>))))"

section \<open>From a run to a request\<close>

text \<open>What \<open>ensure_container_created\<close> takes from the run, and what it asks for about one container: the resolved
  image, the id its shared network's target was created with, the mapped and adopted users, the mounts.\<close>

record run_context =
  rc_containers :: "container index_map"
  rc_run :: task_run
  rc_customisations :: "customisation index_map option"
  rc_network :: string
  rc_additional_args :: "string list"
  rc_interactive :: bool
  rc_run_labels :: run_labels
  rc_resource_names :: resource_names
  rc_term_var :: "string index_map option"
  rc_proxy :: "proxy_environment option"
  rc_publish_ports :: bool

record container_facts =
  cf_image :: string
  cf_created_ids :: "string \<Rightarrow> string"
  cf_user_mapping :: "user_mapping option"
  cf_identity_host_user :: "current_user option"
  cf_volumes :: "bind_mount list option"

definition network_target_ids :: "container_facts \<Rightarrow> container \<Rightarrow> string index_map" where
  "network_target_ids facts c = (case network_mode c of
     Some (Container_Network target) \<Rightarrow> [(target, cf_created_ids facts target)] | _ \<Rightarrow> [])"

definition spec_inputs_for :: "run_context \<Rightarrow> container_facts \<Rightarrow> string \<Rightarrow> container \<Rightarrow> container_network \<Rightarrow> spec_inputs" where
  "spec_inputs_for ctx facts name c network =
     (let is_root = (name = tr_container (rc_run ctx)) in
      \<lparr>in_name = name, in_docker_name = container_resource_name (rc_resource_names ctx) name, in_container_config = c,
       in_overlay = (if is_root then Run (rc_run ctx)
          else Customise (Option.bind (rc_customisations ctx) (\<lambda>m. im_get m name))),
       in_image = cf_image facts, in_network = network, in_interactive = (is_root \<and> rc_interactive ctx),
       in_additional_args = (if is_root then rc_additional_args ctx else []),
       in_user_mapping = cf_user_mapping facts,
       in_identity_host_user = (if identity c \<noteq> None then cf_identity_host_user facts else None),
       in_volumes = cf_volumes facts, in_term_var = rc_term_var ctx, in_proxy = rc_proxy ctx,
       in_publish_ports = rc_publish_ports ctx,
       in_role = (if is_root then Task_Role else Dependency_Role), in_run_labels = rc_run_labels ctx\<rparr>)"

definition container_spec_for :: "run_context \<Rightarrow> container_facts \<Rightarrow> string \<Rightarrow> (spec_error, container_spec) result" where
  "container_spec_for ctx facts name = (case im_get (rc_containers ctx) name of
       None \<Rightarrow> Err (Undeclared_Container_Bug name)
     | Some c \<Rightarrow> rbind (resolve_network (network_mode c) (rc_network ctx) (network_target_ids facts c)) (\<lambda>network.
         Ok (derive_spec (spec_inputs_for ctx facts name c network))))"

section \<open>Lemmas on the merges\<close>

lemma push_new_set [simp]: "set (push_new xs x) = insert x (set xs)"
  by (auto simp: push_new_def)

lemma push_new_distinct [simp]: "distinct xs \<Longrightarrow> distinct (push_new xs x)"
  by (simp add: push_new_def)

lemma foldl_push_new: "set (foldl push_new xs ys) = set xs \<union> set ys" "distinct xs \<Longrightarrow> distinct (foldl push_new xs ys)"
  by (induction ys arbitrary: xs) auto

lemma merged_ports_set:
  "set (merged_ports a b) = (\<Union>m \<in> set (or_empty a) \<union> set (or_empty b). set (port_mapping_expand m))"
  "distinct (merged_ports a b)"
  by (auto simp: merged_ports_def foldl_push_new)

definition maps_ok :: "string index_map option \<Rightarrow> bool" where
  "maps_ok m \<longleftrightarrow> (\<forall>x. m = Some x \<longrightarrow> im_ok x)"

lemma maps_ok_simps [simp]: "maps_ok None" "maps_ok (Some m) \<longleftrightarrow> im_ok m"
  by (simp_all add: maps_ok_def)

definition opt_get :: "'v index_map option \<Rightarrow> string \<Rightarrow> 'v option" where
  "opt_get m k = (case m of Some m \<Rightarrow> im_get m k | None \<Rightarrow> None)"

lemma opt_get_simps [simp]: "opt_get None k = None" "opt_get (Some m) k = im_get m k"
  by (simp_all add: opt_get_def)

lemma get_extend_opt: "maps_ok n \<Longrightarrow> im_get (extend_opt m n) k = opt_or (opt_get n k) (im_get m k)"
  by (cases n) (simp_all add: extend_opt_def opt_get_def im_get_extend)

lemma ok_extend_opt [simp]: "im_ok m \<Longrightarrow> im_ok (extend_opt m n)"
  by (cases n) (simp_all add: extend_opt_def)

lemma merged_environment_get:
  assumes "maps_ok term_var" "maps_ok proxy_vars" "maps_ok container_env" "maps_ok overlay_env"
  shows "opt_get (merged_environment term_var proxy_vars container_env overlay_env) k =
    opt_or (opt_get overlay_env k) (opt_or (opt_get container_env k) (opt_or (opt_get proxy_vars k) (opt_get term_var k)))"
    and "maps_ok (merged_environment term_var proxy_vars container_env overlay_env)"
proof -
  let ?base = "case term_var of Some m \<Rightarrow> m | None \<Rightarrow> []"
  have t: "im_ok ?base" "im_get ?base k = opt_get term_var k" using assms(1) by (cases term_var; simp)+
  show "opt_get (merged_environment term_var proxy_vars container_env overlay_env) k =
    opt_or (opt_get overlay_env k) (opt_or (opt_get container_env k) (opt_or (opt_get proxy_vars k) (opt_get term_var k)))"
  proof (cases "term_var = None \<and> proxy_vars = None \<and> container_env = None \<and> overlay_env = None")
    case True
    then show ?thesis by (simp add: merged_environment_def)
  next
    case False
    then show ?thesis by (simp only: merged_environment_def if_False opt_get_simps get_extend_opt assms t)
  qed
  show "maps_ok (merged_environment term_var proxy_vars container_env overlay_env)"
    by (simp only: merged_environment_def) (simp add: t(1))
qed

lemma build_env_entries:
  assumes "im_ok m" and "\<forall>k \<in> set (im_keys m). CHR ''='' \<notin> set k" and "CHR ''='' \<notin> set k"
  shows "k @ ''='' @ v \<in> set (map (\<lambda>(key, val). key @ ''='' @ val) m) \<longleftrightarrow> im_get m k = Some v"
proof -
  have "k' = k \<and> v' = v" if "(k', v') \<in> set m" "k @ ''='' @ v = k' @ ''='' @ v'" for k' v'
  proof -
    from that(1) assms(2) have k': "CHR ''='' \<notin> set k'" by (auto simp: im_keys_def)
    from that(2) have "split_once (CHR ''='') (k @ CHR ''='' # v) = split_once (CHR ''='') (k' @ CHR ''='' # v')"
      by (simp only: append_Cons append_Nil)
    then show ?thesis by (simp only: split_once_at[OF assms(3)] split_once_at[OF k'] option.inject prod.inject simp_thms)
  qed
  with assms(1) show ?thesis using im_get_in[of m k v] im_get_ok[of m k v] by force
qed

section \<open>What a request holds\<close>

lemma container_config_Ok:
  assumes "container_config client ensured spec = Ok rq"
  shows "rq_env rq = build_env (sc_environment (cs_shared spec))"
    and "rq_exposed_ports rq = map_option fst (build_port_config (no_ports (sc_network_options (cs_shared spec))))"
    and "port_bindings (rq_host_config rq) = map_option snd (build_port_config (no_ports (sc_network_options (cs_shared spec))))"
    and "rq_hostname rq = build_hostname (sc_name (cs_shared spec)) (sc_network (cs_shared spec))"
    and "rq_labels rq = cs_labels spec"
    and "extra_hosts (rq_host_config rq) = build_extra_hosts (no_additional_hosts (sc_network_options (cs_shared spec)))
           (no_proxy_host_gateway (sc_network_options (cs_shared spec)))"
    and "hc_dns (rq_host_config rq) = co_dns (sc_options (cs_shared spec))"
    and "hc_dns_search (rq_host_config rq) = co_dns_search (sc_options (cs_shared spec))"
    and "hc_dns_options (rq_host_config rq) = co_dns_options (sc_options (cs_shared spec))"
    and "hc_network_mode (rq_host_config rq) = build_network_mode (sc_network (cs_shared spec))"
    and "rq_networking_config rq = build_networking_config (sc_network (cs_shared spec)) (sc_name (cs_shared spec))
           (no_additional_hostnames (sc_network_options (cs_shared spec)))"
    and "build_cmd (sc_cmd (cs_shared spec)) (cs_additional_args spec) = Ok (rq_cmd rq)"
  using assms by (cases "task_container_io client spec"; auto simp: container_config_def Let_def)+

text \<open>The value a variable has in the container, and whether the container is the task's own.\<close>

definition overlay_of :: "run_context \<Rightarrow> string \<Rightarrow> overlay" where
  "overlay_of ctx name = (if name = tr_container (rc_run ctx) then Run (rc_run ctx)
     else Customise (Option.bind (rc_customisations ctx) (\<lambda>m. im_get m name)))"

definition overlay_environment :: "overlay \<Rightarrow> string index_map option" where
  "overlay_environment ov = fst (snd (snd (snd (overrides ov))))"

definition overlay_ports :: "overlay \<Rightarrow> port_mapping list option" where
  "overlay_ports ov = snd (snd (snd (snd (overrides ov))))"

definition variable_value :: "run_context \<Rightarrow> string \<Rightarrow> container \<Rightarrow> string \<Rightarrow> string option" where
  "variable_value ctx name c k =
     opt_or (opt_get (overlay_environment (overlay_of ctx name)) k)
    (opt_or (opt_get (environment c) k)
    (opt_or (opt_get (map_option pe_variables (rc_proxy ctx)) k)
    (opt_or (opt_get (rc_term_var ctx) k)
            (if k = ''HOME'' then map_option id_home (identity c) else None))))"

text \<open>The environment maps of a run: distinct keys, as in a \<open>HashMap\<close>, and no equals sign in a name.\<close>

definition env_ok :: "string index_map option \<Rightarrow> bool" where
  "env_ok m \<longleftrightarrow> (\<forall>x. m = Some x \<longrightarrow> im_ok x \<and> (\<forall>k \<in> set (im_keys x). CHR ''='' \<notin> set k))"

definition environments_ok :: "run_context \<Rightarrow> string \<Rightarrow> container \<Rightarrow> bool" where
  "environments_ok ctx name c \<longleftrightarrow> env_ok (overlay_environment (overlay_of ctx name)) \<and> env_ok (environment c) \<and>
     env_ok (map_option pe_variables (rc_proxy ctx)) \<and> env_ok (rc_term_var ctx)"

lemma env_ok_simps [simp]: "env_ok None" "env_ok (Some m) \<longleftrightarrow> im_ok m \<and> (\<forall>k \<in> set (im_keys m). CHR ''='' \<notin> set k)"
  by (simp_all add: env_ok_def)

lemma env_ok_maps: "env_ok m \<Longrightarrow> maps_ok m"
  by (cases m) simp_all

lemma env_ok_extend_opt: "env_ok (Some m) \<Longrightarrow> env_ok n \<Longrightarrow> env_ok (Some (extend_opt m n))"
  by (cases n) (auto simp: extend_opt_def)

lemma env_ok_merged: "env_ok a \<Longrightarrow> env_ok b \<Longrightarrow> env_ok c \<Longrightarrow> env_ok d \<Longrightarrow> env_ok (merged_environment a b c d)"
proof -
  assume "env_ok a" "env_ok b" "env_ok c" "env_ok d"
  moreover from \<open>env_ok a\<close> have "env_ok (Some (case a of Some m \<Rightarrow> m | None \<Rightarrow> []))" by (cases a) simp_all
  ultimately have "env_ok (Some (extend_opt (extend_opt (extend_opt (case a of Some m \<Rightarrow> m | None \<Rightarrow> []) b) c) d))"
    by (intro env_ok_extend_opt)
  then show ?thesis by (simp only: merged_environment_def env_ok_simps(1) split: if_split) simp
qed

lemma inputs_fields:
  "in_overlay (spec_inputs_for ctx facts name c network) = overlay_of ctx name"
  "in_container_config (spec_inputs_for ctx facts name c network) = c"
  "in_network (spec_inputs_for ctx facts name c network) = network"
  "in_name (spec_inputs_for ctx facts name c network) = name"
  "in_term_var (spec_inputs_for ctx facts name c network) = rc_term_var ctx"
  "in_proxy (spec_inputs_for ctx facts name c network) = rc_proxy ctx"
  "in_publish_ports (spec_inputs_for ctx facts name c network) = rc_publish_ports ctx"
  by (simp_all add: spec_inputs_for_def overlay_of_def Let_def)

text \<open>The fields of a derived specification that the properties below read.\<close>

lemma derived_fields:
  "sc_environment (cs_shared (derive_spec i)) =
     (let merged = merged_environment (in_term_var i) (map_option pe_variables (in_proxy i))
        (environment (in_container_config i)) (overlay_environment (in_overlay i))
      in case plan_identity (in_container_config i) (in_identity_host_user i) of None \<Rightarrow> merged
         | Some p \<Rightarrow> Some (or_insert (case merged of Some m \<Rightarrow> m | None \<Rightarrow> []) ''HOME'' (ip_home p)))"
  "no_ports (sc_network_options (cs_shared (derive_spec i))) =
     (let ps = merged_ports (ports (in_container_config i)) (overlay_ports (in_overlay i))
      in if in_publish_ports i \<and> ps \<noteq> [] then Some ps else None)"
  "sc_network (cs_shared (derive_spec i)) = in_network i"
  "sc_name (cs_shared (derive_spec i)) = in_name i"
  "no_additional_hostnames (sc_network_options (cs_shared (derive_spec i))) = additional_hostnames (in_container_config i)"
  "no_additional_hosts (sc_network_options (cs_shared (derive_spec i))) = additional_hosts (in_container_config i)"
  "no_proxy_host_gateway (sc_network_options (cs_shared (derive_spec i))) =
     (if shares_namespace (in_network i) then None else Option.bind (in_proxy i) host_gateway_of)"
  "co_dns (sc_options (cs_shared (derive_spec i))) = dns (in_container_config i)"
  "co_dns_search (sc_options (cs_shared (derive_spec i))) = dns_search (in_container_config i)"
  "co_dns_options (sc_options (cs_shared (derive_spec i))) = dns_options (in_container_config i)"
  by (cases "overrides (in_overlay i)"; simp add: derive_spec_def Let_def overlay_environment_def overlay_ports_def)+

lemma derived_environment:
  fixes facts network
  assumes "environments_ok ctx name c"
  defines "env \<equiv> sc_environment (cs_shared (derive_spec (spec_inputs_for ctx facts name c network)))"
  shows "env_ok env" and "opt_get env k = variable_value ctx name c k"
proof -
  let ?m = "merged_environment (rc_term_var ctx) (map_option pe_variables (rc_proxy ctx)) (environment c)
    (overlay_environment (overlay_of ctx name))"
  have env: "env = (case identity c of None \<Rightarrow> ?m | Some i \<Rightarrow> Some (or_insert (case ?m of Some m \<Rightarrow> m | None \<Rightarrow> []) ''HOME'' (id_home i)))"
    by (simp add: env_def derived_fields plan_identity_def inputs_fields split: option.split)
  have ok: "env_ok ?m" using assms(1) by (simp add: environments_ok_def env_ok_merged)
  have get: "opt_get ?m k = opt_or (opt_get (overlay_environment (overlay_of ctx name)) k) (opt_or (opt_get (environment c) k)
      (opt_or (opt_get (map_option pe_variables (rc_proxy ctx)) k) (opt_get (rc_term_var ctx) k)))"
    using assms(1) by (intro merged_environment_get(1)) (simp_all add: environments_ok_def env_ok_maps)
  have assoc: "opt_or (opt_or a b) d = opt_or a (opt_or b d)" for a b d :: "string option" by (cases a) simp_all
  show "env_ok env" using ok unfolding env
    by (cases ?m) (auto simp: or_insert_def im_contains_def split: option.split)
  show "opt_get env k = variable_value ctx name c k"
    unfolding env variable_value_def using get
    by (cases "identity c"; cases ?m) (auto simp: assoc[symmetric])
qed


lemma add_port_fold:
  defines "f \<equiv> foldl add_port"
  shows "set (fst (f (ex, bs) ps)) = set ex \<union> port_key ` set ps"
    and "distinct ex \<Longrightarrow> distinct (fst (f (ex, bs) ps))"
    and "set (or_empty (im_get (snd (f (ex, bs) ps)) key)) =
      set (or_empty (im_get bs key)) \<union> {l. \<exists>cp proto. (l, cp, proto) \<in> set ps \<and> port_key (l, cp, proto) = key}"
    and "im_contains (snd (f (ex, bs) ps)) key \<longleftrightarrow> im_contains bs key \<or> key \<in> port_key ` set ps"
proof -
  have empty: "(case b of Some bs \<Rightarrow> bs | None \<Rightarrow> []) = or_empty b" for b :: "u16 list option"
    by (simp add: or_empty_def)
  show "set (fst (f (ex, bs) ps)) = set ex \<union> port_key ` set ps"
    "distinct ex \<Longrightarrow> distinct (fst (f (ex, bs) ps))"
    "im_contains (snd (f (ex, bs) ps)) key \<longleftrightarrow> im_contains bs key \<or> key \<in> port_key ` set ps"
    unfolding f_def by (induction ps arbitrary: ex bs) (auto simp: add_port_def im_contains_def)
  show "set (or_empty (im_get (snd (f (ex, bs) ps)) key)) =
      set (or_empty (im_get bs key)) \<union> {l. \<exists>cp proto. (l, cp, proto) \<in> set ps \<and> port_key (l, cp, proto) = key}"
    unfolding f_def
  proof (induction ps arbitrary: ex bs)
    case (Cons p ps)
    obtain l cp proto where p: "p = (l, cp, proto)" by (cases p)
    have step: "add_port (ex, bs) p = (push_new ex (port_key p), im_insert bs (port_key p) (push_new (or_empty (im_get bs (port_key p))) l))"
      by (simp add: add_port_def empty p)
    show ?case unfolding foldl_Cons step Cons.IH by (auto simp: p or_empty_def)
  qed simp
qed

lemma inj_show_u16: "inj show_u16"
  by (rule inj_on_inverseI[where g = "the \<circ> parse_u16"]) simp

lemma port_key_inj: "port_key (l, a, p) = port_key (l', b, q) \<longleftrightarrow> a = b \<and> p = q"
proof -
  have "CHR ''/'' \<notin> set (show_u16 w)" for w
    using show_nat_chars[of "CHR ''/''" "unat w"] by (auto simp: show_u16_def is_ascii_digit_def char_code_def)
  from split_once_at[OF this] have s: "split_once (CHR ''/'') (port_key (l, a, p)) = Some (show_u16 a, p)" for l a p
    by (simp only: port_key_def fst_conv snd_conv append_Cons append_Nil)
  show ?thesis
  proof
    assume eq: "port_key (l, a, p) = port_key (l', b, q)"
    have "show_u16 a = show_u16 b \<and> p = q" using s[of l a p] unfolding eq s by simp
    then show "a = b \<and> p = q" using inj_show_u16 by (auto dest: injD)
  qed (simp add: port_key_def)
qed


section \<open>Networks of accepted configurations\<close>

text \<open>What Docker takes with each network mode: a container in another's network namespace has no hostname,
  hosts, nameservers, ports or aliases of its own, one off the task's network publishes no ports, and
  only one on it has an endpoint, under its name.\<close>

definition request_fits_network :: "string \<Rightarrow> container_network \<Rightarrow> create_request \<Rightarrow> bool" where
  "request_fits_network name network rq \<longleftrightarrow>
     hc_network_mode (rq_host_config rq) = build_network_mode network \<and>
     (case network of
        On_Task_Network n \<Rightarrow> (\<exists>aliases. rq_networking_config rq = Some (n, name # aliases)) \<and> rq_hostname rq = Some name
      | On_Container i \<Rightarrow> rq_hostname rq = None \<and> extra_hosts (rq_host_config rq) = None \<and>
          hc_dns (rq_host_config rq) = None \<and> hc_dns_search (rq_host_config rq) = None \<and>
          hc_dns_options (rq_host_config rq) = None \<and> rq_networking_config rq = None \<and>
          rq_exposed_ports rq = None \<and> port_bindings (rq_host_config rq) = None
      | _ \<Rightarrow> rq_networking_config rq = None \<and> rq_exposed_ports rq = None \<and> port_bindings (rq_host_config rq) = None)"

text \<open>A run evaluates expressions in some fields of its containers and leaves these as they were checked.\<close>

definition network_fields_kept :: "container \<Rightarrow> container \<Rightarrow> bool" where
  "network_fields_kept c c' \<longleftrightarrow> network_mode c = network_mode c' \<and> ports c = ports c' \<and>
     additional_hostnames c = additional_hostnames c' \<and> additional_hosts c = additional_hosts c' \<and>
     dns c = dns c' \<and> dns_search c = dns_search c' \<and> dns_options c = dns_options c'"

definition runs_task_of :: "config \<Rightarrow> run_context \<Rightarrow> bool" where
  "runs_task_of cfg ctx \<longleftrightarrow>
     (\<forall>n c. im_get (rc_containers ctx) n = Some c \<longrightarrow>
        (\<exists>c0. im_get (containers cfg) n = Some c0 \<and> network_fields_kept c0 c)) \<and>
     (\<exists>tn t r. (tn, t) \<in> set (tasks cfg) \<and> t_run t = Some r \<and> tr_container r = tr_container (rc_run ctx) \<and>
        tr_ports r = tr_ports (rc_run ctx) \<and>
        (\<forall>n cu. Option.bind (rc_customisations ctx) (\<lambda>m. im_get m n) = Some cu \<longrightarrow>
           (\<exists>cu0. (n, cu0) \<in> set (or_empty (t_customise t)) \<and> cu_ports cu0 = cu_ports cu)))"

lemma runs_task_of_container:
  assumes "runs_task_of cfg ctx" and "im_get (rc_containers ctx) n = Some c"
  obtains c0 where "im_get (containers cfg) n = Some c0" and "network_fields_kept c0 c"
  using assms unfolding runs_task_of_def by blast

lemma overlay_ports_only_on_task_network:
  assumes "checks_after_extends cfg sups = Ok ()" and "runs_task_of cfg ctx" and "im_get (rc_containers ctx) n = Some c"
    and "overlay_ports (overlay_of ctx n) \<noteq> None"
  shows "network_mode c = None"
proof -
  obtain c0 where c0: "im_get (containers cfg) n = Some c0" "network_mode c = network_mode c0"
    by (rule runs_task_of_container[OF assms(2,3)]) (auto simp: network_fields_kept_def)
  from assms(2) obtain tn t r where t: "(tn, t) \<in> set (tasks cfg)" "t_run t = Some r" "tr_container r = tr_container (rc_run ctx)"
      "tr_ports r = tr_ports (rc_run ctx)"
      "\<And>n cu. Option.bind (rc_customisations ctx) (\<lambda>m. im_get m n) = Some cu \<Longrightarrow>
         \<exists>cu0. (n, cu0) \<in> set (or_empty (t_customise t)) \<and> cu_ports cu0 = cu_ports cu"
    unfolding runs_task_of_def by blast
  have "n \<in> set (task_port_containers t)"
  proof (cases "n = tr_container (rc_run ctx)")
    case True
    with assms(4) t show ?thesis by (auto simp: task_port_containers_def overlay_ports_def overlay_of_def)
  next
    case False
    with assms(4) obtain cu where "Option.bind (rc_customisations ctx) (\<lambda>m. im_get m n) = Some cu" "cu_ports cu \<noteq> None"
      by (cases "Option.bind (rc_customisations ctx) (\<lambda>m. im_get m n)") (auto simp: overlay_ports_def overlay_of_def)
    with t(5) obtain cu0 where "(n, cu0) \<in> set (or_empty (t_customise t))" "cu_ports cu0 \<noteq> None" by metis
    then show ?thesis by (force simp: task_port_containers_def)
  qed
  moreover have "task_ports_sound cfg t"
    using assms(1) t(1) validate_network_modes_ok[of cfg] by (auto simp: checks_after_extends_def rbind_unit_Ok)
  ultimately show ?thesis using c0 by (simp add: task_ports_sound_def)
qed

lemma merged_ports_None [simp]: "merged_ports None None = []"
  by (simp add: merged_ports_def or_empty_def)

text \<open>
  C24 (create_request_fits_network): for a configuration the loader's checks accept, every container of every run of one of
  its tasks gets a request that Docker takes with its network mode, whatever proxies the host has and
  whether or not ports are published.
\<close>

theorem create_request_fits_network:
  assumes "checks_after_extends cfg sups = Ok ()" and "runs_task_of cfg ctx"
    and "im_get (rc_containers ctx) name = Some c" and "container_spec_for ctx facts name = Ok spec"
    and "container_config client ensured spec = Ok rq"
  shows "request_fits_network name (sc_network (cs_shared spec)) rq"
proof -
  from assms(3,4) obtain network where spec: "spec = derive_spec (spec_inputs_for ctx facts name c network)"
      and network: "resolve_network (network_mode c) (rc_network ctx) (network_target_ids facts c) = Ok network"
    by (auto simp: container_spec_for_def)
  note rq = container_config_Ok[OF assms(5), unfolded spec derived_fields inputs_fields Let_def]
  obtain c0 where c0: "(name, c0) \<in> set (containers cfg)" "network_fields_kept c0 c"
    by (rule runs_task_of_container[OF assms(2,3)]) (auto dest: im_get_in)
  with assms(1) validate_network_modes_ok[of cfg] have sound: "network_sound cfg c0"
    by (auto simp: checks_after_extends_def rbind_unit_Ok)
  have off: "ports c = None \<and> overlay_ports (overlay_of ctx name) = None" if "network_mode c \<noteq> None"
  proof -
    from that c0(2) obtain m where "network_mode c0 = Some m" "ports c = ports c0" by (auto simp: network_fields_kept_def)
    with sound have "ports c = None" by (cases m) (auto simp: network_sound_def no_field_set_def task_network_fields_def)
    with overlay_ports_only_on_task_network[OF assms(1-3)] that show ?thesis by blast
  qed
  have shared: "additional_hosts c = None \<and> dns c = None \<and> dns_search c = None \<and> dns_options c = None"
    if "network_mode c = Some (Container_Network target)" for target
    using that sound c0(2) by (auto simp: network_sound_def network_fields_kept_def no_field_set_def shared_namespace_fields_def)
  show ?thesis
  proof (cases "network_mode c")
    case None
    with network rq show ?thesis
      by (auto simp: resolve_network_def request_fits_network_def spec derived_fields inputs_fields build_hostname_def)
  next
    case (Some m)
    with off have none: "merged_ports (ports c) (overlay_ports (overlay_of ctx name)) = []" by simp
    show ?thesis
    proof (cases m)
      case (Container_Network target)
      with Some network shared none rq show ?thesis
        by (auto simp: resolve_network_def network_target_ids_def request_fits_network_def spec derived_fields inputs_fields
            build_hostname_def build_extra_hosts_def build_port_config_def)
    qed (use Some network none rq in \<open>auto simp: resolve_network_def request_fits_network_def spec derived_fields
            inputs_fields build_port_config_def\<close>)
  qed
qed

section \<open>An example\<close>

text \<open>A service that publishes a port, and a task that runs in the service's network namespace.\<close>

definition example_port :: port_mapping where
  "example_port = \<lparr>pm_local = \<lparr>pr_from = 8080, pr_to = 8081\<rparr>, pm_container = \<lparr>pr_from = 80, pr_to = 81\<rparr>, pm_protocol = ''tcp''\<rparr>"

definition example_service :: container where
  "example_service = container_default\<lparr>image := Some ''nginx'', ports := Some [example_port],
     environment := Some [(''TERM'', ''xterm'')]\<rparr>"

definition example_probe :: container where
  "example_probe = container_default\<lparr>image := Some ''curl'', dependencies := Some [''web''],
     network_mode := Some (Container_Network ''web'')\<rparr>"

definition example_run :: task_run where
  "example_run = \<lparr>tr_container = ''probe'', tr_command = None, tr_environment = None, tr_ports = None,
     tr_working_directory = None, tr_entrypoint = None\<rparr>"

definition example_task :: task where
  "example_task = \<lparr>t_run = Some example_run, t_prerequisites = None, t_dependencies = None, t_description = None,
     t_group = None, t_customise = None\<rparr>"

definition example_config :: config where
  "example_config = \<lparr>project_name = ''shop'', containers = [(''web'', example_service), (''probe'', example_probe)],
     tasks = [(''check'', example_task)], config_variables = None, forbid_telemetry = None\<rparr>"

definition example_context :: run_context where
  "example_context = \<lparr>rc_containers = containers example_config, rc_run = example_run, rc_customisations = None,
     rc_network = ''shop-network-ab12cd'', rc_additional_args = [], rc_interactive = False,
     rc_run_labels = example_run_labels, rc_resource_names = \<lparr>rn_project = ''shop'', rn_suffix = ''ab12cd''\<rparr>,
     rc_term_var = Some [(''TERM'', ''dumb'')], rc_proxy = None, rc_publish_ports = True\<rparr>"

definition example_facts :: container_facts where
  "example_facts = \<lparr>cf_image = ''sha256:1'', cf_created_ids = (\<lambda>_. ''c0ffee''), cf_user_mapping = None,
     cf_identity_host_user = None, cf_volumes = None\<rparr>"

definition example_client :: docker_client where
  "example_client = \<lparr>dc_daemon_host = ''unix:///var/run/docker.sock'', dc_streaming = Task_Container_Only,
     dc_stdin_is_tty = False, dc_stdout_is_tty = False\<rparr>"

lemma example_config_accepted: "checks_after_extends example_config [] = Ok ()"
  by code_simp

lemmas example_defs = example_service_def example_probe_def example_run_def example_task_def example_config_def
  example_context_def example_facts_def example_client_def container_default_def

lemma example_runs: "runs_task_of example_config example_context"
proof -
  have "network_fields_kept c c" for c by (simp add: network_fields_kept_def)
  then show ?thesis unfolding runs_task_of_def by (auto simp: example_defs)
qed

lemma example_request:
  assumes "name = ''web'' \<or> name = ''probe''"
  obtains spec rq where "container_spec_for example_context example_facts name = Ok spec"
    and "container_config example_client (\<lambda>_ _. Ok () :: (string, unit) result) spec = Ok rq"
  using assms
  by (auto simp: container_spec_for_def resolve_network_def network_target_ids_def container_config_def derive_spec_def
      spec_inputs_for_def creates_host_directories_def plan_identity_def build_cmd_def example_defs Let_def task_container_io_def)

lemma example_environments: "environments_ok example_context ''web'' example_service"
  by (simp add: environments_ok_def overlay_environment_def overlay_of_def example_defs)



theorem create_request_fits_network_witness:
  "\<exists>spec rq. container_spec_for example_context example_facts ''probe'' = Ok spec \<and>
     container_config example_client (\<lambda>_ _. Ok () :: (string, unit) result) spec = Ok rq \<and>
     sc_network (cs_shared spec) = On_Container ''c0ffee'' \<and> rq_hostname rq = None \<and> rq_exposed_ports rq = None"
proof -
  obtain spec rq where s: "container_spec_for example_context example_facts ''probe'' = Ok spec"
    "container_config example_client (\<lambda>_ _. Ok () :: (string, unit) result) spec = Ok rq"
    using example_request[of "''probe''"] by blast
  have c: "im_get (rc_containers example_context) ''probe'' = Some example_probe" by (simp add: example_defs)
  have n: "sc_network (cs_shared spec) = On_Container ''c0ffee''"
    using s(1) by (auto simp: container_spec_for_def c resolve_network_def network_target_ids_def derived_fields inputs_fields
        example_probe_def example_facts_def)
  from create_request_fits_network[OF example_config_accepted example_runs c s] s n show ?thesis
    by (auto simp: request_fits_network_def)
qed

end
