(* ===== verification/Images.thy ===== *)
theory Images
  imports Rust_Std
begin

text \<open>
  Image references: their parts as the pull and tag requests take them (\<open>docker.rs\<close>), the registry whose
  credentials a pull or a build uses (\<open>registry_auth.rs\<close>, and what calls it in \<open>docker.rs\<close>), and the check of a
  tag (\<open>image_reference.rs\<close>). The reference regular expression is an argument, as is the resolver of
  credentials.
\<close>

section \<open>Repository, tag and digest\<close>

definition split_image_reference :: "string \<Rightarrow> string \<times> string option" where
  "split_image_reference reference =
     (let (before, last) = (case rsplit_once (CHR ''/'') reference of Some (a, b) \<Rightarrow> (a @ ''/'', b) | None \<Rightarrow> ([], reference))
      in case rsplit_once (CHR '':'') last of
           Some (name, tag) \<Rightarrow> (before @ name, Some tag) | None \<Rightarrow> (reference, None))"

definition pull_request_reference :: "string \<Rightarrow> string \<times> string option" where
  "pull_request_reference reference =
     (if CHR ''@'' \<in> set reference then (reference, None)
      else let (repository, tag) = split_image_reference reference
           in (repository, Some (case tag of Some t \<Rightarrow> t | None \<Rightarrow> ''latest'')))"

definition digest_pinned_reference :: "string \<Rightarrow> string \<Rightarrow> string" where
  "digest_pinned_reference reference digest =
     (let name = (case split_once (CHR ''@'') reference of Some (name, _) \<Rightarrow> name | None \<Rightarrow> reference)
      in fst (split_image_reference name) @ ''@'' @ digest)"

section \<open>Registries\<close>

definition DOCKER_IO :: string where "DOCKER_IO = ''docker.io''"

definition registry_hostname :: "string \<Rightarrow> string" where
  "registry_hostname image_reference = (case split_once (CHR ''/'') image_reference of
       None \<Rightarrow> DOCKER_IO
     | Some (first_segment, _) \<Rightarrow>
         if first_segment = ''index.docker.io'' then DOCKER_IO
         else if first_segment = ''localhost'' \<or> CHR ''.'' \<in> set first_segment \<or> CHR '':'' \<in> set first_segment \<or>
                 list_ex is_ascii_upper first_segment
              then first_segment else DOCKER_IO)"

text \<open>\<open>config.json\<close> as parsed, empty where it does not parse.\<close>

record docker_config =
  cfg_auths :: "string list"
  cfg_cred_helpers :: "string list"
  cfg_creds_store :: string

definition configured_registries :: "docker_config \<Rightarrow> string list" where
  "configured_registries cfg = sort_dedup (cfg_auths cfg @ cfg_cred_helpers cfg)"

definition configured_creds_store :: "docker_config \<Rightarrow> string option" where
  "configured_creds_store cfg = (if cfg_creds_store cfg = [] then None else Some (cfg_creds_store cfg))"

record ('c, 'e) credential_resolver =
  resolve_credential :: "string \<Rightarrow> ('e, 'c option) result"
  list_store :: "string \<Rightarrow> ('e, string list) result"

datatype 'e credential_warning = Could_Not_Resolve string 'e | Could_Not_List string 'e

definition resolve_pull_credential ::
  "('c, 'e) credential_resolver \<Rightarrow> string \<Rightarrow> 'c option \<times> 'e credential_warning option" where
  "resolve_pull_credential resolver img =
     (let registry = registry_hostname img in
      case resolve_credential resolver registry of
        Inr credential \<Rightarrow> (credential, None)
      | Inl e \<Rightarrow> (None, Some (Could_Not_Resolve registry e)))"

definition build_registries ::
  "('c, 'e) credential_resolver \<Rightarrow> docker_config \<Rightarrow> string list \<times> 'e credential_warning option" where
  "build_registries resolver cfg =
     (let registries = configured_registries cfg in
      case configured_creds_store cfg of
        None \<Rightarrow> (registries, None)
      | Some store \<Rightarrow> (case list_store resolver store of
            Inr listed \<Rightarrow> (sort_dedup (registries @ listed), None)
          | Inl e \<Rightarrow> (registries, Some (Could_Not_List store e))))"

fun resolve_build_credentials ::
  "('c, 'e) credential_resolver \<Rightarrow> string list \<Rightarrow> 'c index_map \<times> 'e credential_warning list" where
  "resolve_build_credentials resolver [] = ([], [])"
| "resolve_build_credentials resolver (r # rs) =
     (let (credentials, warnings) = resolve_build_credentials resolver rs in
      case resolve_credential resolver r of
        Inr (Some c) \<Rightarrow> ((r, c) # credentials, warnings)
      | Inr None \<Rightarrow> (credentials, warnings)
      | Inl e \<Rightarrow> (credentials, Could_Not_Resolve r e # warnings))"

section \<open>The check of a tag\<close>

text \<open>\<open>str::to_lowercase\<close> on U+0000 to U+00FF.\<close>

definition to_lowercase_char :: "char \<Rightarrow> char" where
  "to_lowercase_char c = (if is_ascii_upper c \<or> (192 \<le> char_code c \<and> char_code c \<le> 222 \<and> char_code c \<noteq> 215)
     then char_of (char_code c + 32) else c)"

definition to_lowercase :: "string \<Rightarrow> string" where
  "to_lowercase s = map to_lowercase_char s"

definition split_docker_domain :: "string \<Rightarrow> string \<times> string" where
  "split_docker_domain name =
     (let (domain, remote) = (case split_once (CHR ''/'') name of
            None \<Rightarrow> (DOCKER_IO, name)
          | Some (head, tail) \<Rightarrow>
              if head = ''index.docker.io'' then (DOCKER_IO, tail)
              else if head = ''localhost'' \<or> CHR ''.'' \<in> set head \<or> CHR '':'' \<in> set head \<or> to_lowercase head \<noteq> head
              then (head, tail) else (DOCKER_IO, name))
      in if domain = DOCKER_IO \<and> CHR ''/'' \<notin> set remote then (domain, ''library/'' @ remote) else (domain, remote))"

datatype reference_error =
    Sixty_Four_Hex string | Must_Be_Lowercase string | Repository_Not_Lowercase | Invalid_Reference_Format
  | Repository_Too_Long | Digest_Format | Digest_Algorithm | Digest_Length | Digest_Reference

text \<open>The regular expressions: whether a value is an image id, and a reference's repository and digest.\<close>

record reference_regex =
  is_image_id :: "string \<Rightarrow> bool"
  reference_captures :: "string \<Rightarrow> (string \<times> string option) option"

definition check_digest :: "string \<Rightarrow> (reference_error, unit) result" where
  "check_digest digest =
     (let (algorithm, encoded) = (case split_once (CHR '':'') digest of Some p \<Rightarrow> p | None \<Rightarrow> ([], []))
      in case (if algorithm = ''sha256'' then Ok 64 else if algorithm = ''sha384'' then Ok 96
               else if algorithm = ''sha512'' then Ok 128
               else if list_ex is_ascii_upper algorithm then Err Digest_Format else Err Digest_Algorithm) of
           Inl e \<Rightarrow> Err e
         | Inr len \<Rightarrow> if length encoded \<noteq> len then Err Digest_Length
             else if list_ex is_ascii_upper encoded then Err Digest_Format else Ok ())"

definition parse_reference :: "reference_regex \<Rightarrow> string \<Rightarrow> (reference_error, unit) result" where
  "parse_reference rx reference = (case reference_captures rx reference of
       None \<Rightarrow> if to_lowercase reference \<noteq> reference \<and> reference_captures rx (to_lowercase reference) \<noteq> None
               then Err Repository_Not_Lowercase else Err Invalid_Reference_Format
     | Some (path, digest) \<Rightarrow> if 255 < length path then Err Repository_Too_Long
         else (case digest of Some d \<Rightarrow> rbind (check_digest d) (\<lambda>_. Err Digest_Reference) | None \<Rightarrow> Ok ()))"

definition check_reference_value :: "reference_regex \<Rightarrow> string \<Rightarrow> (reference_error, unit) result" where
  "check_reference_value rx val =
     (if is_image_id rx val then Err (Sixty_Four_Hex val)
      else let (domain, remainder) = split_docker_domain val; remote = hd (split (CHR '':'') remainder)
           in if to_lowercase remote \<noteq> remote then Err (Must_Be_Lowercase remote)
              else parse_reference rx (domain @ ''/'' @ remainder))"

section \<open>Lemmas\<close>

text \<open>A tag is what follows the last colon after the last slash.\<close>

lemma split_image_reference_tag:
  "split_image_reference r = (repo, Some t) \<longleftrightarrow> r = repo @ CHR '':'' # t \<and> CHR '':'' \<notin> set t \<and> CHR ''/'' \<notin> set t"
proof (cases "rsplit_once (CHR ''/'') r")
  case None
  then have split: "split_image_reference r = (case rsplit_once (CHR '':'') r of Some (n, u) \<Rightarrow> (n, Some u) | None \<Rightarrow> (r, None))"
    by (simp add: split_image_reference_def split: option.split)
  from None have "CHR ''/'' \<notin> set r" by (simp add: rsplit_once_None)
  moreover have "split_image_reference r = (repo, Some t) \<longleftrightarrow> rsplit_once (CHR '':'') r = Some (repo, t)"
    unfolding split by (cases "rsplit_once (CHR '':'') r") auto
  ultimately show ?thesis by (auto simp: rsplit_once_Some)
next
  case (Some p)
  obtain a b where p: "p = (a, b)" by (cases p)
  with Some have r: "r = a @ CHR ''/'' # b" "CHR ''/'' \<notin> set b" by (simp_all add: rsplit_once_Some)
  show ?thesis
  proof (cases "rsplit_once (CHR '':'') b")
    case None
    then have nb: "CHR '':'' \<notin> set b" by (simp add: rsplit_once_None)
    have "False" if "a @ CHR ''/'' # b = repo @ CHR '':'' # t" "CHR ''/'' \<notin> set t"
      using that nb by (auto simp: append_eq_append_conv2 append_eq_Cons_conv Cons_eq_append_conv)
    with None Some p r show ?thesis by (auto simp: split_image_reference_def)
  next
    case (Some q)
    obtain n u where q: "q = (n, u)" by (cases q)
    with Some have b: "b = n @ CHR '':'' # u" "CHR '':'' \<notin> set u" by (simp_all add: rsplit_once_Some)
    have split: "split_image_reference r = (a @ CHR ''/'' # n, Some u)"
      using \<open>rsplit_once (CHR ''/'') r = Some p\<close> p Some q by (simp add: split_image_reference_def)
    have unique: "repo = a @ CHR ''/'' # n \<and> t = u" if "r = repo @ CHR '':'' # t" "CHR '':'' \<notin> set t"
    proof -
      have "rsplit_once (CHR '':'') r = Some (repo, t)" using that by (simp add: rsplit_once_at)
      moreover have "rsplit_once (CHR '':'') r = Some (a @ CHR ''/'' # n, u)" using r b by (simp add: rsplit_once_Some)
      ultimately show ?thesis by simp
    qed
    show ?thesis
    proof
      assume "split_image_reference r = (repo, Some t)"
      with split have "repo = a @ CHR ''/'' # n" "t = u" by simp_all
      with r b show "r = repo @ CHR '':'' # t \<and> CHR '':'' \<notin> set t \<and> CHR ''/'' \<notin> set t" by simp
    next
      assume "r = repo @ CHR '':'' # t \<and> CHR '':'' \<notin> set t \<and> CHR ''/'' \<notin> set t"
      then have "repo = a @ CHR ''/'' # n \<and> t = u" by (intro unique) blast+
      with split show "split_image_reference r = (repo, Some t)" by simp
    qed
  qed
qed

lemma split_image_reference_None: "snd (split_image_reference r) = None \<Longrightarrow> fst (split_image_reference r) = r"
  by (auto simp: split_image_reference_def split: option.splits prod.splits)

text \<open>A pull names one image: by a digest, or by a tag that is the reference's own or \<open>latest\<close>.\<close>

lemma pull_names_one_image:
  "case pull_request_reference r of
     (repo, None) \<Rightarrow> repo = r \<and> CHR ''@'' \<in> set r
   | (repo, Some t) \<Rightarrow> CHR ''@'' \<notin> set r \<and> (r = repo @ CHR '':'' # t \<or> r = repo \<and> t = ''latest'')"
proof -
  obtain repo t where s: "split_image_reference r = (repo, t)" by (cases "split_image_reference r")
  show ?thesis
  proof (cases t)
    case None
    with s split_image_reference_None[of r] show ?thesis by (simp add: pull_request_reference_def)
  next
    case (Some u)
    with s split_image_reference_tag[of r repo u] show ?thesis by (simp add: pull_request_reference_def)
  qed
qed

text \<open>On ASCII, the registry whose credentials are used is the one the reference names.\<close>

lemma registry_is_the_domain:
  assumes "list_all (\<lambda>c. char_code c < 128) reference"
  shows "registry_hostname reference = fst (split_docker_domain reference)"
proof -
  have upper: "to_lowercase_char c \<noteq> c \<longleftrightarrow> is_ascii_upper c" if "char_code c < 128" for c
  proof -
    have "char_of (char_code c + 32) \<noteq> c" if "is_ascii_upper c"
    proof
      assume "char_of (char_code c + 32) = c"
      then have "of_char (char_of (char_code c + 32) :: char) = char_code c" by (simp add: char_code_def)
      with that show False by (simp add: char_code_def is_ascii_upper_def)
    qed
    with that show ?thesis by (auto simp: to_lowercase_char_def)
  qed
  have lower: "to_lowercase s \<noteq> s \<longleftrightarrow> list_ex is_ascii_upper s" if "list_all (\<lambda>c. char_code c < 128) s" for s
    using that upper by (induction s) (auto simp: to_lowercase_def)
  show ?thesis
  proof (cases "split_once (CHR ''/'') reference")
    case (Some p)
    obtain head tail where p: "p = (head, tail)" by (cases p)
    with Some assms have "list_all (\<lambda>c. char_code c < 128) head" by simp
    from lower[OF this] Some p show ?thesis
      by (simp add: registry_hostname_def split_docker_domain_def del: split_once_Some)
  qed (simp add: registry_hostname_def split_docker_domain_def)
qed

end
