(* ===== verification/Output_Lines.thy ===== *)
theory Output_Lines
  imports Rust_Std
begin

text \<open>
  How container and build output becomes lines: \<open>LineBuffer\<close> of \<open>ui/interleaved.rs\<close>, which takes the bytes in
  whatever chunks the stream delivers, \<open>drain_interleaved_output\<close> of \<open>docker.rs\<close> and the classic builder's output of
  \<open>docker/build_output.rs\<close>, which are fed from it. A byte is a \<open>char\<close>; the decoding of a line's bytes,
  \<open>String::from_utf8_lossy\<close>, is an argument. The abstract side is the framing rule on the whole text.
\<close>

section \<open>Machines that consume a stream\<close>

text \<open>A machine that takes one byte at a time and emits lines does not see how its input is cut into chunks.\<close>

locale byte_machine =
  fixes step :: "'s \<Rightarrow> char \<Rightarrow> 's \<times> 'l list"
begin

fun feed :: "'s \<Rightarrow> string \<Rightarrow> 's \<times> 'l list" where
  "feed s [] = (s, [])"
| "feed s (b # bs) = (case step s b of (s', ls) \<Rightarrow> case feed s' bs of (s'', ls') \<Rightarrow> (s'', ls @ ls'))"

fun feed_all :: "'s \<Rightarrow> string list \<Rightarrow> 's \<times> 'l list" where
  "feed_all s [] = (s, [])"
| "feed_all s (c # cs) = (case feed s c of (s', ls) \<Rightarrow> case feed_all s' cs of (s'', ls') \<Rightarrow> (s'', ls @ ls'))"

lemma feed_append: "feed s (xs @ ys) = (case feed s xs of (s', ls) \<Rightarrow> case feed s' ys of (s'', ls') \<Rightarrow> (s'', ls @ ls'))"
  by (induction xs arbitrary: s) (simp_all split: prod.split)

lemma feed_chunks: "feed_all s cs = feed s (concat cs)"
  by (induction cs arbitrary: s) (simp_all add: feed_append split: prod.split)

end

section \<open>The line buffer\<close>

record line_buffer =
  lb_pending :: string
  lb_pending_cr :: bool
  lb_after_lone_cr :: bool

definition new_buffer :: line_buffer where
  "new_buffer = \<lparr>lb_pending = [], lb_pending_cr = False, lb_after_lone_cr = False\<rparr>"

text \<open>The lines handed to \<open>emit\<close> are returned beside the buffer, as bytes.\<close>

definition emit_line :: "line_buffer \<Rightarrow> line_buffer \<times> string list" where
  "emit_line b = (b\<lparr>lb_pending := []\<rparr>, [lb_pending b])"

definition end_at_newline :: "line_buffer \<Rightarrow> line_buffer \<times> string list" where
  "end_at_newline b =
     (let (b', ls) = (if lb_pending b \<noteq> [] \<or> \<not> lb_after_lone_cr b then emit_line b else (b, []))
      in (b'\<lparr>lb_after_lone_cr := False\<rparr>, ls))"

definition end_at_lone_cr :: "line_buffer \<Rightarrow> line_buffer \<times> string list" where
  "end_at_lone_cr b =
     (if lb_pending b \<noteq> [] then (case emit_line b of (b', ls) \<Rightarrow> (b'\<lparr>lb_after_lone_cr := True\<rparr>, ls)) else (b, []))"

definition match_byte :: "line_buffer \<Rightarrow> char \<Rightarrow> line_buffer \<times> string list" where
  "match_byte b byte =
     (if byte = CHR 13 then (b\<lparr>lb_pending_cr := True\<rparr>, [])
      else if byte = CHR 10 then end_at_newline b
      else (b\<lparr>lb_pending := lb_pending b @ [byte]\<rparr>, []))"

definition push_one :: "line_buffer \<Rightarrow> char \<Rightarrow> line_buffer \<times> string list" where
  "push_one b byte =
     (if lb_pending_cr b then
        (let b = b\<lparr>lb_pending_cr := False\<rparr> in
         if byte = CHR 10 then end_at_newline b
         else (case end_at_lone_cr b of (b', ls) \<Rightarrow> case match_byte b' byte of (b'', ls') \<Rightarrow> (b'', ls @ ls')))
      else match_byte b byte)"

fun buffer_push :: "line_buffer \<Rightarrow> string \<Rightarrow> line_buffer \<times> string list" where
  "buffer_push b [] = (b, [])"
| "buffer_push b (byte # chunk) =
     (case push_one b byte of (b', ls) \<Rightarrow> case buffer_push b' chunk of (b'', ls') \<Rightarrow> (b'', ls @ ls'))"

definition buffer_flush :: "line_buffer \<Rightarrow> line_buffer \<times> string list" where
  "buffer_flush b =
     (let b = b\<lparr>lb_pending_cr := False, lb_after_lone_cr := False\<rparr>
      in if lb_pending b \<noteq> [] then emit_line b else (b, []))"

text \<open>A stream that ends, cleanly or not: what arrived is pushed chunk by chunk, then the buffer is flushed.\<close>

fun push_all :: "line_buffer \<Rightarrow> string list \<Rightarrow> line_buffer \<times> string list" where
  "push_all b [] = (b, [])"
| "push_all b (chunk # chunks) =
     (case buffer_push b chunk of (b', ls) \<Rightarrow> case push_all b' chunks of (b'', ls') \<Rightarrow> (b'', ls @ ls'))"

datatype 'e drain_event = Chunk string | Stream_Error 'e

datatype 'e drain_error = Read_Failed 'e | Drain_Stdout_Closed

text \<open>\<open>drain_interleaved_output\<close>: \<open>gone n\<close> is whether the reader of the result is gone when \<open>n\<close> events are left.\<close>

fun drain_loop :: "(nat \<Rightarrow> bool) \<Rightarrow> line_buffer \<Rightarrow> 'e drain_event list \<Rightarrow> line_buffer \<times> string list \<times> ('e drain_error, unit) result" where
  "drain_loop gone b [] = (b, [], Ok ())"
| "drain_loop gone b (Stream_Error e # events) = (b, [], Err (Read_Failed e))"
| "drain_loop gone b (Chunk c # events) = (case buffer_push b c of (b', ls) \<Rightarrow>
     if gone (length events) then (b', ls, Err Drain_Stdout_Closed)
     else case drain_loop gone b' events of (b'', ls', r) \<Rightarrow> (b'', ls @ ls', r))"

definition drain_interleaved_output ::
  "(string \<Rightarrow> string) \<Rightarrow> (nat \<Rightarrow> bool) \<Rightarrow> 'e drain_event list \<Rightarrow> string list \<times> ('e drain_error, unit) result" where
  "drain_interleaved_output lossy gone events =
     (case drain_loop gone new_buffer events of (b, ls, r) \<Rightarrow> case buffer_flush b of (_, ls') \<Rightarrow> (map lossy (ls @ ls'), r))"

section \<open>The classic builder's output\<close>

record classic_output =
  cl_transcript :: string
  cl_lines :: line_buffer

definition classic_new :: classic_output where
  "classic_new = \<lparr>cl_transcript = [], cl_lines = new_buffer\<rparr>"

definition classic_push :: "classic_output \<Rightarrow> string \<Rightarrow> classic_output \<times> string list" where
  "classic_push o1 chunk = (case buffer_push (cl_lines o1) chunk of (b, ls) \<Rightarrow>
     (\<lparr>cl_transcript = cl_transcript o1 @ chunk, cl_lines = b\<rparr>, ls))"

definition classic_finish :: "classic_output \<Rightarrow> classic_output \<times> string list" where
  "classic_finish o1 = (case buffer_flush (cl_lines o1) of (b, ls) \<Rightarrow> (o1\<lparr>cl_lines := b\<rparr>, ls))"

definition build_output_suffix :: "string \<Rightarrow> string" where
  "build_output_suffix out =
     (let trimmed = trim_end out in if trimmed = [] then []
      else [CHR 10, CHR 10] @ ''Build output:'' @ [CHR 10] @ trimmed)"

section \<open>The rule on the whole text\<close>

text \<open>A line ends at a newline, at a carriage return and newline, at a lone carriage return, or with the text.\<close>

datatype line_end = At_Newline | At_Lone_CR | At_End

fun frames :: "string \<Rightarrow> string \<Rightarrow> (string \<times> line_end) list" where
  "frames acc [] = [(acc, At_End)]"
| "frames acc (c # s) =
     (if c = CHR 13 then
        (case s of d # s' \<Rightarrow> if d = CHR 10 then (acc, At_Newline) # frames [] s' else (acc, At_Lone_CR) # frames [] s
         | [] \<Rightarrow> [(acc, At_Lone_CR), ([], At_End)])
      else if c = CHR 10 then (acc, At_Newline) # frames [] s
      else frames (acc @ [c]) s)"

text \<open>Which of them are shown: a line with content always, an empty one at a newline unless a lone carriage
  return has ended a line since the newline before.\<close>

fun shown :: "bool \<Rightarrow> (string \<times> line_end) list \<Rightarrow> string list" where
  "shown after_cr [] = []"
| "shown after_cr ((l, At_Newline) # fs) = (if l \<noteq> [] \<or> \<not> after_cr then [l] else []) @ shown False fs"
| "shown after_cr ((l, At_Lone_CR) # fs) = (if l \<noteq> [] then l # shown True fs else shown after_cr fs)"
| "shown after_cr ((l, At_End) # fs) = (if l \<noteq> [] then [l] else []) @ shown after_cr fs"

definition lines_of :: "string \<Rightarrow> string list" where
  "lines_of text = shown False (frames [] text)"

section \<open>The buffer implements the rule\<close>

interpretation line_machine: byte_machine push_one .

lemma buffer_push_feed: "buffer_push b c = line_machine.feed b c"
  by (induction b c rule: buffer_push.induct) (simp_all split: prod.split)

lemma push_all_concat: "push_all b cs = buffer_push b (concat cs)"
proof -
  have "push_all b cs = line_machine.feed_all b cs" for b
    by (induction b cs rule: push_all.induct) (simp_all add: buffer_push_feed split: prod.split)
  then show ?thesis by (simp add: buffer_push_feed line_machine.feed_chunks)
qed

text \<open>The text a buffer stands for: the bytes it holds, and the carriage return it has not resolved.\<close>

definition held :: "line_buffer \<Rightarrow> string" where
  "held b = lb_pending b @ (if lb_pending_cr b then [CHR 13] else [])"

definition finish_lines :: "line_buffer \<times> string list \<Rightarrow> string list" where
  "finish_lines r = snd r @ snd (buffer_flush (fst r))"

lemma frames_byte:
  "frames acc (CHR 10 # s) = (acc, At_Newline) # frames [] s"
  "frames acc (CHR 13 # CHR 10 # s) = (acc, At_Newline) # frames [] s"
  "c \<noteq> CHR 10 \<Longrightarrow> frames acc (CHR 13 # c # s) = (acc, At_Lone_CR) # frames [] (c # s)"
  "c \<noteq> CHR 10 \<Longrightarrow> c \<noteq> CHR 13 \<Longrightarrow> frames acc (c # s) = frames (acc @ [c]) s"
  by simp_all

lemma push_one_frames:
  assumes "push_one b c = (b', ls)"
  shows "ls @ shown (lb_after_lone_cr b') (frames (lb_pending b') ((if lb_pending_cr b' then [CHR 13] else []) @ s)) =
    shown (lb_after_lone_cr b) (frames (lb_pending b) ((if lb_pending_cr b then [CHR 13] else []) @ c # s))"
proof -
  obtain p cr a where b: "b = \<lparr>lb_pending = p, lb_pending_cr = cr, lb_after_lone_cr = a\<rparr>" by (cases b)
  note defs = push_one_def match_byte_def end_at_newline_def end_at_lone_cr_def emit_line_def Let_def
  consider "c = CHR 10" | "c = CHR 13" | "c \<noteq> CHR 10" "c \<noteq> CHR 13" by blast
  then show ?thesis
  proof cases
    case 1
    with assms b show ?thesis by (cases cr; cases "p = []"; cases a) (auto simp: defs frames_byte simp del: frames.simps)
  next
    case 2
    with assms b show ?thesis by (cases cr; cases "p = []") (auto simp: defs frames_byte simp del: frames.simps)
  next
    case 3
    with assms b show ?thesis by (cases cr; cases "p = []") (auto simp: defs frames_byte simp del: frames.simps)
  qed
qed

lemma buffer_push_frames:
  "finish_lines (buffer_push b s) = shown (lb_after_lone_cr b) (frames (lb_pending b) ((if lb_pending_cr b then [CHR 13] else []) @ s))"
proof (induction s arbitrary: b)
  case Nil
  then show ?case by (simp add: finish_lines_def buffer_flush_def emit_line_def Let_def)
next
  case (Cons c s)
  obtain b' ls where one: "push_one b c = (b', ls)" by (cases "push_one b c")
  have "finish_lines (buffer_push b (c # s)) = ls @ finish_lines (buffer_push b' s)"
    by (simp add: one finish_lines_def split: prod.split)
  also note Cons.IH[of b']
  also have "ls @ shown (lb_after_lone_cr b') (frames (lb_pending b') ((if lb_pending_cr b' then [CHR 13] else []) @ s)) =
      shown (lb_after_lone_cr b) (frames (lb_pending b) ((if lb_pending_cr b then [CHR 13] else []) @ c # s))"
    by (rule push_one_frames[OF one])
  finally show ?case .
qed

lemma drain_arrived:
  "drain_loop gone b events = (b', ls, r) \<Longrightarrow>
     \<exists>arrived rest. events = map Chunk arrived @ rest \<and> push_all b arrived = (b', ls) \<and> (r = Ok () \<longrightarrow> rest = []) \<and>
       (rest = [] \<or> (\<exists>e rest'. rest = Stream_Error e # rest') \<or> gone (length rest))"
proof (induction gone b events arbitrary: b' ls r rule: drain_loop.induct)
  case (2 gone b e events)
  then show ?case by (intro exI[of _ "[]"] exI[of _ "Stream_Error e # events"]) auto
next
  case (3 gone b c events)
  obtain b1 l1 where p: "buffer_push b c = (b1, l1)" by (cases "buffer_push b c")
  show ?case
  proof (cases "gone (length events)")
    case True
    with p 3(2) show ?thesis by (intro exI[of _ "[c]"] exI[of _ events]) auto
  next
    case False
    with p 3(2) obtain l2 where d: "drain_loop gone b1 events = (b', l2, r)" "ls = l1 @ l2" by (auto split: prod.splits)
    from 3(1)[OF p[symmetric] False d(1)] obtain arrived rest where
      a: "events = map Chunk arrived @ rest" "push_all b1 arrived = (b', l2)" "r = Ok () \<longrightarrow> rest = []"
        "rest = [] \<or> (\<exists>e rest'. rest = Stream_Error e # rest') \<or> gone (length rest)" by blast
    have "Chunk c # events = map Chunk (c # arrived) @ rest" "push_all b (c # arrived) = (b', ls)"
      using a(1,2) d(2) p by simp_all
    with a(3,4) show ?thesis by blast
  qed
qed auto

text \<open>
  C36 (line_buffer_implements_rule): however the stream cuts the output into chunks, the lines the buffer emits, the last unterminated
  one included, are the lines of the whole text; and this holds for what arrived when the stream fails
  or the result's reader goes, so nothing that arrived is lost or shown twice.
\<close>

theorem line_buffer_implements_rule:
  "finish_lines (push_all new_buffer chunks) = lines_of (concat chunks) \<and>
   (\<exists>arrived rest. events = map Chunk arrived @ rest \<and>
      fst (drain_interleaved_output lossy gone events) = map lossy (lines_of (concat arrived)) \<and>
      (snd (drain_interleaved_output lossy gone events) = Ok () \<longrightarrow> rest = []) \<and>
      (rest = [] \<or> (\<exists>e rest'. rest = Stream_Error e # rest') \<or> gone (length rest)))"
proof -
  have whole: "finish_lines (push_all new_buffer cs) = lines_of (concat cs)" for cs
    by (simp add: push_all_concat buffer_push_frames lines_of_def new_buffer_def)
  obtain b ls r where d: "drain_loop gone new_buffer events = (b, ls, r)" by (cases "drain_loop gone new_buffer events")
  have "drain_interleaved_output lossy gone events = (map lossy (finish_lines (b, ls)), r)"
    by (simp add: drain_interleaved_output_def d finish_lines_def split: prod.split)
  then have out: "fst (drain_interleaved_output lossy gone events) = map lossy (finish_lines (b, ls))"
    "snd (drain_interleaved_output lossy gone events) = r" by simp_all
  from drain_arrived[OF d] obtain arrived rest where
    a: "events = map Chunk arrived @ rest" "push_all new_buffer arrived = (b, ls)" "r = Ok () \<longrightarrow> rest = []"
      "rest = [] \<or> (\<exists>e rest'. rest = Stream_Error e # rest') \<or> gone (length rest)" by blast
  from whole[of arrived] a(2) have "map lossy (finish_lines (b, ls)) = map lossy (lines_of (concat arrived))" by simp
  with a(1,3,4) out whole show ?thesis by auto
qed

theorem line_buffer_implements_rule_witness:
  "drain_interleaved_output id (\<lambda>_. False) [Chunk [CHR ''a'', CHR 13], Chunk [CHR 10, CHR ''b''] :: string drain_event] =
     ([''a'', ''b''], Ok ())"
proof -
  let ?events = "[Chunk [CHR ''a'', CHR 13], Chunk [CHR 10, CHR ''b''] :: string drain_event]"
  have ok: "snd (drain_interleaved_output id (\<lambda>_. False) ?events) = Ok ()" by code_simp
  from line_buffer_implements_rule[of "[]" ?events id "\<lambda>_. False"] ok obtain arrived where
    a: "?events = map Chunk arrived" "fst (drain_interleaved_output id (\<lambda>_. False) ?events) = map id (lines_of (concat arrived))"
    by (metis append_Nil2)
  moreover from a(1) have "arrived = [[CHR ''a'', CHR 13], [CHR 10, CHR ''b'']]" by (auto simp: Cons_eq_map_conv)
  moreover have "lines_of [CHR ''a'', CHR 13, CHR 10, CHR ''b''] = [''a'', ''b'']" by code_simp
  ultimately show ?thesis using ok by (simp add: prod_eq_iff)
qed

end
