(* ===== verification/Build_Output.thy ===== *)
theory Build_Output
  imports Output_Lines "HOL-Library.Product_Lexorder" "HOL-Library.Multiset"
begin

text \<open>
  The BuildKit builder's output (\<open>src/ratect-core/src/docker/build_output.rs\<close>): status updates become lines that carry
  their step's number, and the transcript a failed build reports. A status update of the \<open>bollard\<close> crate is
  a record with the fields the code reads; a timestamp is whether it is set.
\<close>

section \<open>Data\<close>

record vertex =
  vx_digest :: string
  vx_inputs :: "string list"
  vx_name :: string
  vx_cached :: bool
  vx_started :: bool
  vx_completed :: bool
  vx_error :: string

record vertex_log =
  vl_vertex :: string
  vl_msg :: string

record status_response =
  sr_vertexes :: "vertex list"
  sr_logs :: "vertex_log list"

record build_step =
  st_name :: string
  st_number :: "nat option"
  st_started :: bool
  st_shown_cached :: bool
  st_shown_error :: bool
  st_lines :: line_buffer

record buildkit_output =
  bo_transcript :: string
  bo_steps :: "build_step index_map"
  bo_last_number :: nat

definition buildkit_new :: buildkit_output where
  "buildkit_new = \<lparr>bo_transcript = [], bo_steps = [], bo_last_number = 0\<rparr>"

section \<open>The order of steps that start together\<close>

definition rank :: "string \<Rightarrow> nat" where
  "rank name = (if starts_with name ''[internal] load build definition '' then 0
     else if starts_with name ''[internal] '' then 1 else if starts_with name ''['' then 2 else 3)"

text \<open>\<open>str::find\<close> of a pattern: the text before its first occurrence.\<close>

fun before_pattern :: "string \<Rightarrow> string \<Rightarrow> string option" where
  "before_pattern p [] = (if p = [] then Some [] else None)"
| "before_pattern p (c # s) = (if strip_prefix p (c # s) \<noteq> None then Some [] else map_option ((#) c) (before_pattern p s))"

definition stage_step :: "string \<Rightarrow> (string \<times> nat) option" where
  "stage_step name = (case (strip_prefix ''['' name, before_pattern ''] '' name) of
       (Some _, Some identifier0) \<Rightarrow>
         (let identifier = drop 1 identifier0;
              (stage, counter) = (case rsplit_once (CHR '' '') identifier of Some (stage, counter) \<Rightarrow> (trim stage, counter) | None \<Rightarrow> ([], identifier))
          in case split_once (CHR ''/'') counter of
               None \<Rightarrow> None
             | Some (step, _) \<Rightarrow> map_option (\<lambda>n. (stage, n)) (parse_unsigned 4294967295 step))
     | _ \<Rightarrow> None)"

definition displays_before :: "vertex \<Rightarrow> vertex \<Rightarrow> bool" where
  "displays_before a b =
     (if rank (vx_name a) \<noteq> rank (vx_name b) then rank (vx_name a) < rank (vx_name b)
      else case (stage_step (vx_name a), stage_step (vx_name b)) of
        (Some (s1, n1), Some (s2, n2)) \<Rightarrow> s1 = s2 \<and> n1 < n2
      | _ \<Rightarrow> False)"

definition waits_for_input :: "vertex list \<Rightarrow> vertex \<Rightarrow> bool" where
  "waits_for_input batch v = list_ex (\<lambda>input. list_ex (\<lambda>w. vx_digest w = input) batch) (vx_inputs v)"

definition preceded_by_none_of :: "vertex list \<Rightarrow> nat list \<Rightarrow> nat \<Rightarrow> bool" where
  "preceded_by_none_of batch candidates i = list_all (\<lambda>j. \<not> displays_before (batch ! j) (batch ! i)) candidates"

definition next_index :: "vertex list \<Rightarrow> nat" where
  "next_index batch =
     (let ready0 = filter (\<lambda>i. \<not> waits_for_input batch (batch ! i)) [0 ..< length batch];
          ready = (if ready0 = [] then [0 ..< length batch] else ready0)
      in case List.find (preceded_by_none_of batch [0 ..< length batch]) ready of
           Some i \<Rightarrow> i
         | None \<Rightarrow> (case List.find (preceded_by_none_of batch ready) ready of Some i \<Rightarrow> i | None \<Rightarrow> hd ready))"

definition remove_at :: "nat \<Rightarrow> 'a list \<Rightarrow> 'a list" where
  "remove_at i xs = take i xs @ drop (Suc i) xs"

lemma next_index_ready:
  assumes "batch \<noteq> []"
  shows "next_index batch < length batch"
    and "\<exists>v \<in> set batch. \<not> waits_for_input batch v \<Longrightarrow> \<not> waits_for_input batch (batch ! next_index batch)"
proof -
  define ready0 where "ready0 = filter (\<lambda>i. \<not> waits_for_input batch (batch ! i)) [0 ..< length batch]"
  define ready where "ready = (if ready0 = [] then [0 ..< length batch] else ready0)"
  have "ready \<noteq> []" using assms by (simp add: ready_def)
  have "next_index batch \<in> set ready"
    unfolding next_index_def Let_def ready0_def[symmetric] ready_def[symmetric]
    using \<open>ready \<noteq> []\<close> by (auto split: option.split simp: find_Some_iff)
  then show "next_index batch < length batch" by (auto simp: ready_def ready0_def split: if_splits)
  assume "\<exists>v \<in> set batch. \<not> waits_for_input batch v"
  then have "ready0 \<noteq> []" by (force simp: ready0_def filter_empty_conv in_set_conv_nth)
  with \<open>next_index batch \<in> set ready\<close> show "\<not> waits_for_input batch (batch ! next_index batch)"
    by (simp add: ready_def ready0_def)
qed

function display_order :: "vertex list \<Rightarrow> vertex list" where
  "display_order batch = (if batch = [] then []
     else batch ! next_index batch # display_order (remove_at (next_index batch) batch))"
  by pat_completeness auto
termination
proof (relation "measure length")
  fix batch :: "vertex list"
  assume "batch \<noteq> []"
  from next_index_ready(1)[OF this] show "(remove_at (next_index batch) batch, batch) \<in> measure length"
    by (simp add: remove_at_def)
qed simp

declare display_order.simps [simp del]

section \<open>Rendering\<close>

datatype build_output_bug = Step_Not_Shown string

type_synonym rendering = "buildkit_output \<times> string list"

definition new_step :: build_step where
  "new_step = \<lparr>st_name = [], st_number = None, st_started = False, st_shown_cached = False,
     st_shown_error = False, st_lines = new_buffer\<rparr>"

definition step_of :: "buildkit_output \<Rightarrow> string \<Rightarrow> build_step" where
  "step_of out digest = (case im_get (bo_steps out) digest of Some s \<Rightarrow> s | None \<Rightarrow> new_step)"

text \<open>\<open>entry\<close> gives a step to change, made if it is missing.\<close>

definition change_step :: "string \<Rightarrow> (build_step \<Rightarrow> build_step) \<Rightarrow> buildkit_output \<Rightarrow> buildkit_output" where
  "change_step digest f out = out\<lparr>bo_steps := im_insert (bo_steps out) digest (f (step_of out digest))\<rparr>"

definition label_line :: "nat \<Rightarrow> string \<Rightarrow> string" where
  "label_line n part = (if part = [] then ''#'' @ show_nat n else ''#'' @ show_nat n @ '' '' @ part)"

definition emit :: "string \<Rightarrow> string \<Rightarrow> rendering \<Rightarrow> (build_output_bug, rendering) result" where
  "emit digest text r = (case im_get (bo_steps (fst r)) digest of
       Some s \<Rightarrow> (case st_number s of
           Some n \<Rightarrow> (let ls = map (label_line n) (split (CHR 10) text)
               in Ok ((fst r)\<lparr>bo_transcript := bo_transcript (fst r) @ concat (map (\<lambda>l. l @ [CHR 10]) ls)\<rparr>, snd r @ ls))
         | None \<Rightarrow> Err (Step_Not_Shown digest))
     | None \<Rightarrow> Err (Step_Not_Shown digest))"

definition show_step :: "string \<Rightarrow> rendering \<Rightarrow> (build_output_bug, rendering) result" where
  "show_step digest r =
     (let out = change_step digest id (fst r) in
      if st_number (step_of out digest) \<noteq> None then Ok (out, snd r)
      else let number = Suc (bo_last_number out);
               out = change_step digest (\<lambda>s. s\<lparr>st_number := Some number\<rparr>) (out\<lparr>bo_last_number := number\<rparr>)
           in if st_name (step_of out digest) \<noteq> [] then emit digest (st_name (step_of out digest)) (out, snd r) else Ok (out, snd r))"

definition name_vertex :: "vertex \<Rightarrow> buildkit_output \<Rightarrow> buildkit_output" where
  "name_vertex v out = change_step (vx_digest v) (\<lambda>s. if vx_name v \<noteq> [] then s\<lparr>st_name := vx_name v\<rparr> else s) out"

definition start_vertex :: "vertex \<Rightarrow> rendering \<Rightarrow> (build_output_bug, rendering) result" where
  "start_vertex v r =
     (let show_cached = (vx_cached v \<and> \<not> st_shown_cached (step_of (fst r) (vx_digest v)));
          out = change_step (vx_digest v) (\<lambda>s. s\<lparr>st_started := True, st_shown_cached := st_shown_cached s \<or> vx_cached v\<rparr>) (fst r)
      in rbind (show_step (vx_digest v) (out, snd r)) (\<lambda>r.
           if show_cached then emit (vx_digest v) ''CACHED'' r else Ok r))"

definition emit_all :: "string \<Rightarrow> string list \<Rightarrow> rendering \<Rightarrow> (build_output_bug, rendering) result" where
  "emit_all digest ls r = fold_res (emit digest) ls r"

definition log_output :: "(string \<Rightarrow> string) \<Rightarrow> vertex_log \<Rightarrow> rendering \<Rightarrow> (build_output_bug, rendering) result" where
  "log_output lossy l r =
     rbind (show_step (vl_vertex l) r) (\<lambda>r.
       case buffer_push (st_lines (step_of (fst r) (vl_vertex l))) (vl_msg l) of (b, completed) \<Rightarrow>
         emit_all (vl_vertex l) (map lossy completed) (change_step (vl_vertex l) (\<lambda>s. s\<lparr>st_lines := b\<rparr>) (fst r), snd r))"

definition flush_step :: "(string \<Rightarrow> string) \<Rightarrow> string \<Rightarrow> rendering \<Rightarrow> (build_output_bug, rendering) result" where
  "flush_step lossy digest r = (case buffer_flush (st_lines (step_of (fst r) digest)) of (b, rest) \<Rightarrow>
     emit_all digest (map lossy rest) (change_step digest (\<lambda>s. s\<lparr>st_lines := b\<rparr>) (fst r), snd r))"

definition end_vertex :: "(string \<Rightarrow> string) \<Rightarrow> vertex \<Rightarrow> rendering \<Rightarrow> (build_output_bug, rendering) result" where
  "end_vertex lossy v r =
     rbind (if vx_completed v \<or> vx_error v \<noteq> [] then flush_step lossy (vx_digest v) r else Ok r) (\<lambda>r.
       if vx_error v = [] then Ok r
       else let shown = st_shown_error (step_of (fst r) (vx_digest v));
                r = (change_step (vx_digest v) (\<lambda>s. s\<lparr>st_shown_error := True\<rparr>) (fst r), snd r)
            in if shown then Ok r
               else rbind (show_step (vx_digest v) r) (emit (vx_digest v) (''ERROR: '' @ vx_error v)))"

definition buildkit_push :: "(string \<Rightarrow> string) \<Rightarrow> buildkit_output \<Rightarrow> status_response \<Rightarrow> (build_output_bug, rendering) result" where
  "buildkit_push lossy out status =
     (let out = fold name_vertex (sr_vertexes status) out;
          starting = filter (\<lambda>v. vx_started v \<and> \<not> st_started (step_of out (vx_digest v))) (sr_vertexes status)
      in rbind (fold_res start_vertex (display_order starting) (out, [])) (\<lambda>r.
         rbind (fold_res (log_output lossy) (sr_logs status) r) (\<lambda>r.
           fold_res (end_vertex lossy) (sr_vertexes status) r)))"

definition buildkit_finish :: "(string \<Rightarrow> string) \<Rightarrow> buildkit_output \<Rightarrow> (build_output_bug, rendering) result" where
  "buildkit_finish lossy out =
     (let unfinished = sort (List.map_filter (\<lambda>(digest, s). map_option (\<lambda>n. (n, digest)) (st_number s)) (bo_steps out))
      in fold_res (\<lambda>(_, digest). flush_step lossy digest) unfinished (out, []))"

section \<open>Steps are displayed in order\<close>

lemma mset_remove_at: "i < length xs \<Longrightarrow> add_mset (xs ! i) (mset (remove_at i xs)) = mset xs"
  by (subst (2) id_take_nth_drop[of i xs]) (simp_all add: remove_at_def)

lemma mset_display_order: "mset (display_order batch) = mset batch"
proof (induction batch rule: display_order.induct)
  case (1 batch)
  show ?case
  proof (cases "batch = []")
    case False
    with 1 next_index_ready(1)[OF False] show ?thesis
      by (simp add: display_order.simps[of batch] mset_remove_at)
  qed (simp add: display_order.simps)
qed

text \<open>The inputs of a batch: a step and one of its inputs that starts with it.\<close>

definition input_edges :: "vertex list \<Rightarrow> (string \<times> string) set" where
  "input_edges batch = {(i, vx_digest v) |i v. v \<in> set batch \<and> i \<in> set (vx_inputs v) \<and> i \<in> vx_digest ` set batch}"

lemma some_step_ready:
  assumes "acyclic (input_edges batch)" and "batch \<noteq> []"
  shows "\<exists>v \<in> set batch. \<not> waits_for_input batch v"
proof -
  have "input_edges batch \<subseteq> vx_digest ` set batch \<times> vx_digest ` set batch" by (auto simp: input_edges_def)
  then have "finite (input_edges batch)" by (rule finite_subset) simp
  then have "wf (input_edges batch)" using assms(1) by (rule finite_acyclic_wf)
  moreover have "vx_digest (hd batch) \<in> vx_digest ` set batch" using assms(2) by simp
  ultimately obtain d where d: "d \<in> vx_digest ` set batch" "\<And>e. (e, d) \<in> input_edges batch \<Longrightarrow> e \<notin> vx_digest ` set batch"
    unfolding wf_eq_minimal by blast
  from d(1) obtain v where v: "v \<in> set batch" "d = vx_digest v" by auto
  have "\<not> waits_for_input batch v"
  proof
    assume "waits_for_input batch v"
    then obtain i where "i \<in> set (vx_inputs v)" "i \<in> vx_digest ` set batch"
      by (auto simp: waits_for_input_def list_ex_iff)
    with v d(2)[of i] show False by (auto simp: input_edges_def)
  qed
  with v(1) show ?thesis by blast
qed

text \<open>No step is displayed before one of its inputs that starts in the same update.\<close>

lemma display_order_inputs_first:
  assumes "acyclic (input_edges batch)"
  shows "sorted_wrt (\<lambda>v w. vx_digest w \<notin> set (vx_inputs v)) (display_order batch)"
  using assms
proof (induction batch rule: display_order.induct)
  case (1 batch)
  show ?case
  proof (cases "batch = []")
    case False
    let ?i = "next_index batch" let ?rest = "remove_at ?i batch"
    have sub: "set ?rest \<subseteq> set batch" by (auto simp: remove_at_def dest: in_set_takeD in_set_dropD)
    then have "input_edges ?rest \<subseteq> input_edges batch" by (auto simp: input_edges_def)
    with 1(2) have "acyclic (input_edges ?rest)" by (rule acyclic_subset)
    with 1(1)[OF False] have "sorted_wrt (\<lambda>v w. vx_digest w \<notin> set (vx_inputs v)) (display_order ?rest)" by simp
    moreover have "\<not> waits_for_input batch (batch ! ?i)"
      by (rule next_index_ready(2)[OF False some_step_ready[OF 1(2) False]])
    then have "\<forall>w \<in> set batch. vx_digest w \<notin> set (vx_inputs (batch ! ?i))"
      by (auto simp: waits_for_input_def list_ex_iff)
    moreover have "set (display_order ?rest) \<subseteq> set batch"
      using mset_display_order[of ?rest] sub by (metis set_mset_mset)
    ultimately show ?thesis using False by (auto simp: display_order.simps[of batch])
  qed (simp add: display_order.simps)
qed

section \<open>Every line has its step's number\<close>

definition number_of :: "buildkit_output \<Rightarrow> string \<Rightarrow> nat option" where
  "number_of out d = st_number (step_of out d)"

definition steps_ok :: "buildkit_output \<Rightarrow> bool" where
  "steps_ok out \<longleftrightarrow>
     (\<forall>d. number_of out d = None \<longrightarrow> lb_pending (st_lines (step_of out d)) = []) \<and>
     (\<forall>d n. number_of out d = Some n \<longrightarrow> 0 < n \<and> n \<le> bo_last_number out) \<and>
     (\<forall>d e n. number_of out d = Some n \<longrightarrow> number_of out e = Some n \<longrightarrow> d = e)"

definition labelled :: "buildkit_output \<Rightarrow> string list \<Rightarrow> bool" where
  "labelled out ls \<longleftrightarrow> (\<forall>l \<in> set ls. \<exists>d n part. number_of out d = Some n \<and> l = label_line n part)"

definition numbers_kept :: "buildkit_output \<Rightarrow> buildkit_output \<Rightarrow> bool" where
  "numbers_kept out out' \<longleftrightarrow> (\<forall>d n. number_of out d = Some n \<longrightarrow> number_of out' d = Some n)"

text \<open>A rendering begun with the output \<open>t\<close>: the transcript has grown by exactly the lines returned, each
  labelled with the number of a step, and a step keeps its number.\<close>

definition rendering_ok :: "buildkit_output \<Rightarrow> rendering \<Rightarrow> bool" where
  "rendering_ok t r \<longleftrightarrow> steps_ok (fst r) \<and> numbers_kept t (fst r) \<and> labelled (fst r) (snd r) \<and>
     bo_transcript (fst r) = bo_transcript t @ concat (map (\<lambda>l. l @ [CHR 10]) (snd r))"

lemma labelled_kept: "labelled out ls \<Longrightarrow> numbers_kept out out' \<Longrightarrow> labelled out' ls"
  unfolding labelled_def numbers_kept_def by blast

lemma step_of_change [simp]: "step_of (change_step d f out) = (step_of out)(d := f (step_of out d))"
  by (auto simp: step_of_def change_step_def fun_eq_iff)

lemma change_step_fields [simp]:
  "bo_transcript (change_step d f out) = bo_transcript out" "bo_last_number (change_step d f out) = bo_last_number out"
  by (simp_all add: change_step_def)

lemma step_of_fields [simp]: "step_of (out\<lparr>bo_transcript := t\<rparr>) = step_of out" "step_of (out\<lparr>bo_last_number := n\<rparr>) = step_of out"
  by (auto simp: step_of_def fun_eq_iff)

text \<open>A change that keeps a step's number, and its buffer empty while it has none.\<close>

lemma change_keeps:
  assumes "rendering_ok t (out, ls)" and "st_number (f (step_of out d)) = number_of out d"
    and "number_of out d = None \<Longrightarrow> lb_pending (st_lines (f (step_of out d))) = []"
  shows "rendering_ok t (change_step d f out, ls)" and "number_of (change_step d f out) = number_of out"
proof -
  show n: "number_of (change_step d f out) = number_of out" using assms(2) by (auto simp: number_of_def fun_eq_iff)
  show "rendering_ok t (change_step d f out, ls)"
    using assms(1,3) unfolding rendering_ok_def steps_ok_def numbers_kept_def labelled_def fst_conv snd_conv n by auto
qed

lemma change_other_field:
  assumes "rendering_ok t (out, ls)" and "\<And>s. st_number (f s) = st_number s" "\<And>s. st_lines (f s) = st_lines s"
  shows "rendering_ok t (change_step d f out, ls)"
proof (rule change_keeps(1)[OF assms(1)])
  show "st_number (f (step_of out d)) = number_of out d" by (simp add: assms(2) number_of_def)
  show "lb_pending (st_lines (f (step_of out d))) = []" if "number_of out d = None"
    using that assms(1) by (simp add: assms(3) rendering_ok_def steps_ok_def)
qed

lemma emit_ok:
  assumes "rendering_ok t r" and "number_of (fst r) d \<noteq> None"
  shows "\<exists>r'. emit d text r = Ok r' \<and> rendering_ok t r' \<and> step_of (fst r') = step_of (fst r)"
proof -
  obtain out ls where r: "r = (out, ls)" by (cases r)
  from assms(2) obtain n s where s: "im_get (bo_steps out) d = Some s" "st_number s = Some n"
    by (cases "im_get (bo_steps out) d") (auto simp: r number_of_def step_of_def new_step_def)
  then have "number_of out d = Some n" by (simp add: number_of_def step_of_def)
  with assms(1) have "rendering_ok t (out\<lparr>bo_transcript := bo_transcript out @ concat (map (\<lambda>l. l @ [CHR 10]) (map (label_line n) (split (CHR 10) text)))\<rparr>,
      ls @ map (label_line n) (split (CHR 10) text))"
    by (auto simp: rendering_ok_def steps_ok_def numbers_kept_def labelled_def number_of_def r)
  with s show ?thesis by (simp add: emit_def r)
qed

lemma emit_all_ok:
  assumes "rendering_ok t r" and "number_of (fst r) d \<noteq> None"
  shows "\<exists>r'. emit_all d ls r = Ok r' \<and> rendering_ok t r' \<and> step_of (fst r') = step_of (fst r)"
  using assms
proof (induction ls arbitrary: r)
  case (Cons l ls)
  from emit_ok[OF Cons.prems] obtain r1 where r1: "emit d l r = Ok r1" "rendering_ok t r1" "step_of (fst r1) = step_of (fst r)" by blast
  then have "number_of (fst r1) d \<noteq> None" using Cons.prems(2) by (simp add: number_of_def)
  from Cons.IH[OF r1(2) this] r1 show ?case by (auto simp: emit_all_def)
qed (simp add: emit_all_def)

lemma show_step_ok:
  assumes "rendering_ok t r"
  shows "\<exists>r'. show_step d r = Ok r' \<and> rendering_ok t r' \<and> number_of (fst r') d \<noteq> None \<and>
    st_lines (step_of (fst r') d) = st_lines (step_of (fst r) d)"
proof -
  obtain out ls where r: "r = (out, ls)" by (cases r)
  let ?out = "change_step d id out" let ?n = "Suc (bo_last_number out)"
  let ?out' = "change_step d (\<lambda>s. s\<lparr>st_number := Some ?n\<rparr>) (?out\<lparr>bo_last_number := ?n\<rparr>)"
  have same: "step_of ?out = step_of out" by auto
  have ok: "rendering_ok t (?out, ls)"
    using assms unfolding r by (rule change_other_field) simp_all
  show ?thesis
  proof (cases "number_of out d")
    case (Some n)
    with ok same show ?thesis by (intro exI[of _ "(?out, ls)"]) (simp add: show_step_def r number_of_def Let_def)
  next
    case None
    have "number_of out e = Some m \<Longrightarrow> m \<le> bo_last_number out" for e m
      using assms by (auto simp: rendering_ok_def steps_ok_def r)
    then have fresh: "number_of out e \<noteq> Some ?n" for e by fastforce
    have kept: "numbers_kept out ?out'" using None by (auto simp: numbers_kept_def number_of_def)
    have "steps_ok ?out'"
      using assms fresh None unfolding r rendering_ok_def steps_ok_def number_of_def by (auto simp: le_SucI)
    moreover have "numbers_kept t ?out'" using kept assms by (simp add: r rendering_ok_def numbers_kept_def)
    moreover have "labelled ?out' ls" by (rule labelled_kept[OF _ kept]) (use assms in \<open>simp add: r rendering_ok_def\<close>)
    ultimately have ok': "rendering_ok t (?out', ls)" using assms by (simp add: r rendering_ok_def)
    have num: "number_of ?out' d = Some ?n" by (simp add: number_of_def)
    show ?thesis
    proof (cases "st_name (step_of ?out' d) = []")
      case True
      with ok' num None show ?thesis
        by (intro exI[of _ "(?out', ls)"]) (simp add: show_step_def r number_of_def Let_def)
    next
      case False
      from emit_ok[OF ok', of d "st_name (step_of ?out' d)"] num obtain r' where
        "emit d (st_name (step_of ?out' d)) (?out', ls) = Ok r'" "rendering_ok t r'" "step_of (fst r') = step_of ?out'" by auto
      with False num None show ?thesis
        by (intro exI[of _ r']) (simp add: show_step_def r number_of_def Let_def)
    qed
  qed
qed

lemma flush_step_ok:
  assumes "rendering_ok t r"
  shows "\<exists>r'. flush_step lossy d r = Ok r' \<and> rendering_ok t r'"
proof -
  obtain out ls where r: "r = (out, ls)" by (cases r)
  let ?s = "step_of out d"
  obtain b rest where f: "buffer_flush (st_lines ?s) = (b, rest)" by (cases "buffer_flush (st_lines ?s)")
  let ?out = "change_step d (\<lambda>s. s\<lparr>st_lines := b\<rparr>) out"
  have pending: "lb_pending b = []" using f by (auto simp: buffer_flush_def emit_line_def Let_def split: if_splits)
  with assms have ok: "rendering_ok t (?out, ls)" "number_of ?out = number_of out"
    using change_keeps[of t out ls "\<lambda>s. s\<lparr>st_lines := b\<rparr>" d] by (simp_all add: r number_of_def)
  show ?thesis
  proof (cases "number_of out d")
    case None
    with assms have "lb_pending (st_lines ?s) = []" by (simp add: rendering_ok_def steps_ok_def r)
    with f have "rest = []" by (auto simp: buffer_flush_def Let_def)
    with ok show ?thesis by (simp add: flush_step_def r f emit_all_def)
  next
    case (Some n)
    with emit_all_ok[OF ok(1), of d "map lossy rest"] ok(2) show ?thesis by (auto simp: flush_step_def r f)
  qed
qed

lemma log_output_ok:
  assumes "rendering_ok t r"
  shows "\<exists>r'. log_output lossy l r = Ok r' \<and> rendering_ok t r'"
proof -
  let ?d = "vl_vertex l"
  from show_step_ok[OF assms, of ?d] obtain out ls where s: "show_step ?d r = Ok (out, ls)" "rendering_ok t (out, ls)"
    "number_of out ?d \<noteq> None" by auto
  obtain b completed where p: "buffer_push (st_lines (step_of out ?d)) (vl_msg l) = (b, completed)"
    by (cases "buffer_push (st_lines (step_of out ?d)) (vl_msg l)")
  let ?out = "change_step ?d (\<lambda>s. s\<lparr>st_lines := b\<rparr>) out"
  have "rendering_ok t (?out, ls)" "number_of ?out = number_of out"
    using s(3) by (intro change_keeps[OF s(2)]; simp add: number_of_def)+
  with emit_all_ok[of t "(?out, ls)" ?d "map lossy completed"] s(1,3) p show ?thesis by (auto simp: log_output_def)
qed

lemma start_vertex_ok:
  assumes "rendering_ok t r"
  shows "\<exists>r'. start_vertex v r = Ok r' \<and> rendering_ok t r'"
proof -
  obtain out ls where r: "r = (out, ls)" by (cases r)
  let ?d = "vx_digest v" let ?f = "\<lambda>s. s\<lparr>st_started := True, st_shown_cached := st_shown_cached s \<or> vx_cached v\<rparr>"
  have "rendering_ok t (change_step ?d ?f out, ls)"
    using assms unfolding r by (rule change_other_field) simp_all
  from show_step_ok[OF this, of ?d] obtain r1 where "show_step ?d (change_step ?d ?f out, ls) = Ok r1" "rendering_ok t r1"
    "number_of (fst r1) ?d \<noteq> None" by auto
  moreover from calculation emit_ok[of t r1 ?d "''CACHED''"] obtain r2 where
    "emit ?d ''CACHED'' r1 = Ok r2" "rendering_ok t r2" by blast
  ultimately show ?thesis
    by (cases "vx_cached v \<and> \<not> st_shown_cached (step_of out ?d)"; cases r1; cases r2)
      (auto simp: start_vertex_def r Let_def)
qed

lemma end_vertex_ok:
  assumes "rendering_ok t r"
  shows "\<exists>r'. end_vertex lossy v r = Ok r' \<and> rendering_ok t r'"
proof -
  let ?d = "vx_digest v" let ?f = "\<lambda>s. s\<lparr>st_shown_error := True\<rparr>"
  obtain out ls where r1: "(if vx_completed v \<or> vx_error v \<noteq> [] then flush_step lossy ?d r else Ok r) = Ok (out, ls)"
    "rendering_ok t (out, ls)" using flush_step_ok[OF assms, of lossy ?d] assms
    by (cases "vx_completed v \<or> vx_error v \<noteq> []"; cases r) auto
  have ok: "rendering_ok t (change_step ?d ?f out, ls)"
    using r1(2) by (rule change_other_field) simp_all
  from show_step_ok[OF ok, of ?d] obtain r2 where r2: "show_step ?d (change_step ?d ?f out, ls) = Ok r2" "rendering_ok t r2"
    "number_of (fst r2) ?d \<noteq> None" by auto
  from emit_ok[OF r2(2,3), of "''ERROR: '' @ vx_error v"] obtain r3 where
    r3: "emit ?d (''ERROR: '' @ vx_error v) r2 = Ok r3" "rendering_ok t r3" by blast
  have "end_vertex lossy v r = Ok (if vx_error v = [] then (out, ls)
      else if st_shown_error (step_of out ?d) then (change_step ?d ?f out, ls) else r3)"
    using r1(1) r2(1) r3(1) by (simp add: end_vertex_def Let_def)
  with r1(2) ok r3(2) show ?thesis by simp
qed

lemma fold_rendering_ok:
  assumes "rendering_ok t r" and "\<And>x r. rendering_ok t r \<Longrightarrow> \<exists>r'. f x r = Ok r' \<and> rendering_ok t r'"
  shows "\<exists>r'. fold_res f xs r = Ok r' \<and> rendering_ok t r'"
  using assms(1)
proof (induction xs arbitrary: r)
  case (Cons x xs)
  from assms(2)[OF Cons.prems, of x] obtain r1 where "f x r = Ok r1" "rendering_ok t r1" by blast
  with Cons.IH show ?case by simp
qed simp

lemma buildkit_push_ok:
  assumes "steps_ok out"
  shows "\<exists>r. buildkit_push lossy out status = Ok r \<and> rendering_ok out r"
proof -
  let ?t = out
  have named: "rendering_ok ?t (fold name_vertex vs out, [])" for vs
  proof (induction vs rule: rev_induct)
    case Nil
    then show ?case using assms by (simp add: rendering_ok_def numbers_kept_def labelled_def)
  next
    case (snoc v vs)
    have "rendering_ok ?t (name_vertex v (fold name_vertex vs out), [])"
      unfolding name_vertex_def[of v] by (rule change_other_field[OF snoc]) simp_all
    then show ?case by simp
  qed
  from fold_rendering_ok[OF named, of start_vertex] start_vertex_ok obtain r1 where
    r1: "fold_res start_vertex (display_order (filter (\<lambda>v. vx_started v \<and> \<not> st_started
        (step_of (fold name_vertex (sr_vertexes status) out) (vx_digest v))) (sr_vertexes status)))
        (fold name_vertex (sr_vertexes status) out, []) = Ok r1" "rendering_ok ?t r1" by blast
  from fold_rendering_ok[OF r1(2), of "log_output lossy"] log_output_ok obtain r2 where
    r2: "fold_res (log_output lossy) (sr_logs status) r1 = Ok r2" "rendering_ok ?t r2" by blast
  from fold_rendering_ok[OF r2(2), of "end_vertex lossy"] end_vertex_ok obtain r3 where
    r3: "fold_res (end_vertex lossy) (sr_vertexes status) r2 = Ok r3" "rendering_ok ?t r3" by blast
  from r1(1) r2(1) r3 show ?thesis by (simp add: buildkit_push_def Let_def)
qed

text \<open>A whole build: its updates in order, then the end of the stream.\<close>

fun render_all :: "(string \<Rightarrow> string) \<Rightarrow> buildkit_output \<Rightarrow> status_response list \<Rightarrow> (build_output_bug, rendering) result" where
  "render_all lossy out [] = buildkit_finish lossy out"
| "render_all lossy out (s # ss) = rbind (buildkit_push lossy out s) (\<lambda>(out', ls).
     rbind (render_all lossy out' ss) (\<lambda>(out'', ls'). Ok (out'', ls @ ls')))"


definition example_batch :: "vertex list" where
  "example_batch =
     [\<lparr>vx_digest = ''sha256:2'', vx_inputs = [''sha256:1''], vx_name = ''RUN make'', vx_cached = False,
        vx_started = True, vx_completed = False, vx_error = []\<rparr>,
      \<lparr>vx_digest = ''sha256:1'', vx_inputs = [], vx_name = ''FROM alpine'', vx_cached = True,
        vx_started = True, vx_completed = True, vx_error = []\<rparr>]"


end
