(* ===== verification/User_Files.thy ===== *)
theory User_Files
  imports Container_Spec
begin

text \<open>
  The identity files of a container (\<open>src/ratect-core/src/user.rs\<close>): reading and editing \<open>/etc/passwd\<close> and
  \<open>/etc/group\<close> byte for byte, and the files made anew for \<open>run_as_current_user\<close>. The files are whatever an
  image shipped, so they are strings of bytes. The abstract view of a file is the list of its entries;
  every edit is shown to be one on that list.
\<close>

section \<open>Lines and entries\<close>

text \<open>\<open>slice::split_inclusive\<close>: each part keeps the separator that ends it.\<close>

fun split_inclusive :: "char \<Rightarrow> string \<Rightarrow> string list" where
  "split_inclusive d [] = []"
| "split_inclusive d (c # cs) =
     (if c = d then [d] # split_inclusive d cs
      else (case split_inclusive d cs of [] \<Rightarrow> [[c]]
            | l # ls \<Rightarrow> (c # l) # ls))"

definition is_ascii_whitespace :: "char \<Rightarrow> bool" where
  "is_ascii_whitespace c \<longleftrightarrow> c \<in> {CHR '' '', CHR 9, CHR 10, CHR 12, CHR 13}"

definition parse_u32 :: "string \<Rightarrow> u32 option" where
  "parse_u32 s = map_option of_nat (parse_unsigned 4294967295 s)"

record directory_owner =
  do_uid :: u32
  do_gid :: u32

record passwd_edit =
  ed_contents :: string
  ed_home_owner :: "directory_owner option"

record passwd_entry =
  pe_name :: string
  pe_uid :: "u32 option"
  pe_gid :: "u32 option"
  pe_home_start :: nat
  pe_home_end :: nat
  pe_separators_needed :: nat

definition PASSWD_HOME_FIELD :: nat where
  "PASSWD_HOME_FIELD = 5"

definition entry_range :: "string \<Rightarrow> (nat \<times> nat) option" where
  "entry_range line =
     (let start = length (takeWhile is_ascii_whitespace line);
          stop = length line - length (takeWhile is_ascii_whitespace (rev line))
      in if list_all is_ascii_whitespace line then None
         else if line ! start \<noteq> CHR ''#'' then Some (start, stop) else None)"

definition nth_opt :: "'a list \<Rightarrow> nat \<Rightarrow> 'a option" where
  "nth_opt xs i = (if i < length xs then Some (xs ! i) else None)"

definition parse_id :: "string option \<Rightarrow> u32 option" where
  "parse_id field = Option.bind field parse_u32"

definition parse_passwd_entry :: "string \<Rightarrow> passwd_entry option" where
  "parse_passwd_entry line = (case entry_range line of
       None \<Rightarrow> None
     | Some (start, stop) \<Rightarrow>
         (let fields = splitn 7 (CHR '':'') (take (stop - start) (drop start line));
              (home_start, home_end, separators) = (case nth_opt fields PASSWD_HOME_FIELD of
                  Some home \<Rightarrow> (let before = sum_list (map (\<lambda>field. length field + 1) (take PASSWD_HOME_FIELD fields))
                     in (start + before, start + before + length home, 0))
                | None \<Rightarrow> (stop, stop, PASSWD_HOME_FIELD + 1 - length fields))
          in Some \<lparr>pe_name = fields ! 0, pe_uid = parse_id (nth_opt fields 2), pe_gid = parse_id (nth_opt fields 3),
                pe_home_start = home_start, pe_home_end = home_end, pe_separators_needed = separators\<rparr>))"

text \<open>The lines before the first entry that is selected, and the entry; its position is their length.\<close>

fun first_entry_from :: "(passwd_entry \<Rightarrow> bool) \<Rightarrow> nat \<Rightarrow> string list \<Rightarrow> (nat \<times> passwd_entry) option" where
  "first_entry_from selected position [] = None"
| "first_entry_from selected position (line # lines) = (case parse_passwd_entry line of
       Some entry \<Rightarrow> if selected entry then Some (position, entry)
         else first_entry_from selected (position + length line) lines
     | None \<Rightarrow> first_entry_from selected (position + length line) lines)"

definition first_passwd_entry :: "string \<Rightarrow> (passwd_entry \<Rightarrow> bool) \<Rightarrow> (nat \<times> passwd_entry) option" where
  "first_passwd_entry passwd selected = first_entry_from selected 0 (split_inclusive (CHR 10) passwd)"

section \<open>Edits\<close>

definition with_passwd_home :: "string \<Rightarrow> nat \<Rightarrow> passwd_entry \<Rightarrow> string \<Rightarrow> string" where
  "with_passwd_home passwd position entry home =
     take (position + pe_home_start entry) passwd @ replicate (pe_separators_needed entry) (CHR '':'') @
     home @ drop (position + pe_home_end entry) passwd"

definition with_line_appended :: "string \<Rightarrow> string \<Rightarrow> string" where
  "with_line_appended file line =
     (if file \<noteq> [] \<and> last file \<noteq> CHR 10 then file @ [CHR 10] else file) @ line @ [CHR 10]"

definition with_passwd_entry_appended :: "string \<Rightarrow> string \<Rightarrow> u32 \<Rightarrow> u32 \<Rightarrow> string \<Rightarrow> string" where
  "with_passwd_entry_appended passwd name uid gid home =
     with_line_appended passwd (name @ '':*:'' @ show_u32 uid @ '':'' @ show_u32 gid @ ''::'' @ home @ '':/bin/sh'')"

definition split_configured_user :: "string \<Rightarrow> string \<times> string" where
  "split_configured_user configured_user =
     (case split_once (CHR '':'') configured_user of Some p \<Rightarrow> p | None \<Rightarrow> (configured_user, []))"

definition configured_uid :: "string \<Rightarrow> u32 option" where
  "configured_uid who = (if who = [] then Some 0 else parse_u32 who)"

definition is_root_user :: "string \<Rightarrow> bool" where
  "is_root_user who = (let who = fst (split_configured_user who) in who = ''root'' \<or> configured_uid who = Some 0)"

definition edit_passwd_home :: "string \<Rightarrow> string \<Rightarrow> string \<Rightarrow> passwd_edit" where
  "edit_passwd_home passwd configured_user home =
     (let (who, grp) = split_configured_user configured_user;
          uid = configured_uid who;
          grp = parse_u32 grp
      in case first_passwd_entry passwd (\<lambda>entry. case uid of Some uid \<Rightarrow> pe_uid entry = Some uid | None \<Rightarrow> pe_name entry = who) of
           Some (position, entry) \<Rightarrow>
             \<lparr>ed_contents = with_passwd_home passwd position entry home,
              ed_home_owner = Some \<lparr>do_uid = (case pe_uid entry of Some u \<Rightarrow> u | None \<Rightarrow> 0),
                do_gid = (case opt_or grp (pe_gid entry) of Some g \<Rightarrow> g | None \<Rightarrow> 0)\<rparr>\<rparr>
         | None \<Rightarrow> (case uid of
             None \<Rightarrow> \<lparr>ed_contents = passwd, ed_home_owner = None\<rparr>
           | Some uid \<Rightarrow>
               (let gid = (case grp of Some g \<Rightarrow> g | None \<Rightarrow> 0);
                    name = (if uid = 0 then ''root'' else show_u32 uid)
                in \<lparr>ed_contents = with_passwd_entry_appended passwd name uid gid home,
                    ed_home_owner = Some \<lparr>do_uid = uid, do_gid = gid\<rparr>\<rparr>)))"

definition edit_passwd_for_host_user :: "string \<Rightarrow> current_user \<Rightarrow> string \<Rightarrow> string" where
  "edit_passwd_for_host_user passwd who home =
     (case first_passwd_entry passwd (\<lambda>entry. pe_uid entry = Some (cu_uid who)) of
        Some (position, entry) \<Rightarrow> with_passwd_home passwd position entry home
      | None \<Rightarrow>
          (let name_taken = first_passwd_entry passwd (\<lambda>entry. pe_name entry = cu_username who) \<noteq> None;
               name = (if name_taken then show_u32 (cu_uid who) else cu_username who)
           in with_passwd_entry_appended passwd name (cu_uid who) (cu_gid who) home))"

definition group_entry_taken :: "string \<Rightarrow> string \<Rightarrow> u32 \<Rightarrow> bool" where
  "group_entry_taken grp name gid = list_ex (\<lambda>line. case entry_range line of
       None \<Rightarrow> False
     | Some (start, stop) \<Rightarrow>
         (let fields = split (CHR '':'') (take (stop - start) (drop start line))
          in fields ! 0 = name \<or> parse_id (nth_opt fields 2) = Some gid)) (split_inclusive (CHR 10) grp)"

definition group_line :: "string \<Rightarrow> u32 \<Rightarrow> string" where
  "group_line name gid = name @ '':x:'' @ show_u32 gid @ '':''"

definition edit_group_for_host_user :: "string \<Rightarrow> current_user \<Rightarrow> string option" where
  "edit_group_for_host_user grp who =
     (if group_entry_taken grp (cu_groupname who) (cu_gid who) then None
      else Some (with_line_appended grp (group_line (cu_groupname who) (cu_gid who))))"

datatype user_error =
    Uid_Taken string u32 string
  | Name_Taken string

fun add_users :: "string \<Rightarrow> additional_user list \<Rightarrow> string \<Rightarrow> (user_error, string) result" where
  "add_users passwd [] contents = Ok contents"
| "add_users passwd (u # us) contents =
     (case first_passwd_entry passwd (\<lambda>entry. pe_uid entry = Some (au_uid u)) of
        Some (_, entry) \<Rightarrow> Err (Uid_Taken (au_name u) (au_uid u) (pe_name entry))
      | None \<Rightarrow>
          if first_passwd_entry passwd (\<lambda>entry. pe_name entry = au_name u) \<noteq> None then Err (Name_Taken (au_name u))
          else add_users passwd us (with_passwd_entry_appended contents (au_name u) (au_uid u) (au_gid u) ''/nonexistent''))"

definition with_additional_users :: "string \<Rightarrow> additional_user list \<Rightarrow> (user_error, string) result" where
  "with_additional_users passwd users = add_users passwd users passwd"

definition with_additional_groups :: "string \<Rightarrow> additional_user list \<Rightarrow> string" where
  "with_additional_groups grp users = fold (\<lambda>u contents.
     if group_entry_taken contents (au_name u) (au_gid u) then contents
     else with_line_appended contents (group_line (au_name u) (au_gid u))) users grp"

section \<open>Files made anew\<close>

definition generate_passwd_file :: "current_user \<Rightarrow> string \<Rightarrow> string" where
  "generate_passwd_file who home_directory =
     (if cu_uid who = 0 then ''root:x:0:0:root:'' @ home_directory @ '':/bin/sh''
      else ''root:x:0:0:root:/root:/bin/sh'' @ [CHR 10] @ cu_username who @ '':x:'' @ show_u32 (cu_uid who) @ '':'' @
        show_u32 (cu_gid who) @ '':'' @ cu_username who @ '':'' @ home_directory @ '':/bin/sh'')"

definition generate_shadow_file :: "current_user \<Rightarrow> string" where
  "generate_shadow_file who =
     (if cu_uid who = 0 then ''root:*:19500:0:99999:7:::''
      else ''root:*:19500:0:99999:7:::'' @ [CHR 10] @ cu_username who @ '':*:19500:0:99999:7:::'')"

definition generate_group_file :: "current_user \<Rightarrow> string" where
  "generate_group_file who =
     (if cu_gid who = 0 then ''root:x:0:root''
      else ''root:x:0:root'' @ [CHR 10] @ cu_groupname who @ '':x:'' @ show_u32 (cu_gid who) @ '':'' @ cu_username who)"

section \<open>Lines\<close>

text \<open>A line is a text without a line feed, ended by one unless it is the last.\<close>

definition is_line :: "string \<Rightarrow> string \<Rightarrow> bool" where
  "is_line body ending \<longleftrightarrow> CHR 10 \<notin> set body \<and> (ending = [CHR 10] \<or> ending = [] \<and> body \<noteq> [])"

lemma concat_split_inclusive [simp]: "concat (split_inclusive d s) = s"
  by (induction d s rule: split_inclusive.induct) (auto split: list.splits)

lemma split_inclusive_terminated: "d \<notin> set b \<Longrightarrow> split_inclusive d (b @ d # s) = (b @ [d]) # split_inclusive d s"
  by (induction b) auto

lemma split_inclusive_single: "d \<notin> set b \<Longrightarrow> b \<noteq> [] \<Longrightarrow> split_inclusive d b = [b]"
proof (induction b)
  case (Cons c b)
  then show ?case by (cases "b = []") auto
qed simp

lemma split_inclusive_cases:
  assumes "split_inclusive (CHR 10) s = l # ls"
  shows "\<exists>b e s'. is_line b e \<and> l = b @ e \<and> s = l @ s' \<and> ls = split_inclusive (CHR 10) s' \<and> (e = [] \<longrightarrow> s' = [])"
proof (cases "split_once (CHR 10) s")
  case None
  moreover have "s \<noteq> []" using assms by auto
  ultimately have "split_inclusive (CHR 10) s = [s]" by (intro split_inclusive_single) simp_all
  with assms None \<open>s \<noteq> []\<close> show ?thesis by (intro exI[of _ s] exI[of _ "[]"]) (auto simp: is_line_def)
next
  case (Some p)
  obtain b r where "p = (b, r)" by (cases p)
  with Some have "s = b @ CHR 10 # r" "CHR 10 \<notin> set b" by auto
  with assms show ?thesis
    by (intro exI[of _ b] exI[of _ "[CHR 10]"] exI[of _ r]) (auto simp: is_line_def split_inclusive_terminated)
qed

lemma split_inclusive_is_line:
  "is_line b e \<Longrightarrow> (e = [] \<Longrightarrow> s = []) \<Longrightarrow> split_inclusive (CHR 10) (b @ e @ s) = (b @ e) # split_inclusive (CHR 10) s"
  by (auto simp: is_line_def split_inclusive_terminated split_inclusive_single)

text \<open>Changing the text of one line leaves the other lines as they are.\<close>

lemma split_inclusive_replace:
  assumes "split_inclusive (CHR 10) s = ls1 @ l # ls2"
  shows "\<exists>b e. is_line b e \<and> l = b @ e \<and>
    (\<forall>b'. is_line b' e \<longrightarrow> split_inclusive (CHR 10) (concat ls1 @ (b' @ e) @ concat ls2) = ls1 @ (b' @ e) # ls2)"
  using assms
proof (induction ls1 arbitrary: s)
  case Nil
  then obtain b e s' where s: "is_line b e" "l = b @ e" "ls2 = split_inclusive (CHR 10) s'" "e = [] \<longrightarrow> s' = []"
    using split_inclusive_cases[of s l ls2] by auto
  have "split_inclusive (CHR 10) ((b' @ e) @ s') = (b' @ e) # ls2" if "is_line b' e" for b'
    using split_inclusive_is_line[OF that, of s'] s(3,4) by simp
  with s show ?case by (intro exI[of _ b] exI[of _ e]) simp
next
  case (Cons l0 ls1)
  from split_inclusive_cases[of s l0 "ls1 @ l # ls2"] Cons.prems obtain b0 e0 s' where
    s: "is_line b0 e0" "l0 = b0 @ e0" "ls1 @ l # ls2 = split_inclusive (CHR 10) s'" "e0 = [] \<longrightarrow> s' = []" by auto
  then have "e0 \<noteq> []" by auto
  from Cons.IH[OF s(3)[symmetric]] obtain b e where be: "is_line b e" "l = b @ e"
    "\<And>b'. is_line b' e \<Longrightarrow> split_inclusive (CHR 10) (concat ls1 @ (b' @ e) @ concat ls2) = ls1 @ (b' @ e) # ls2" by blast
  have "split_inclusive (CHR 10) (concat (l0 # ls1) @ (b' @ e) @ concat ls2) = (l0 # ls1) @ (b' @ e) # ls2" if "is_line b' e" for b'
    using split_inclusive_is_line[OF s(1), of "concat ls1 @ (b' @ e) @ concat ls2"] \<open>e0 \<noteq> []\<close> be(3)[OF that] s(2) by simp
  with be(1,2) show ?case by blast
qed

lemma split_inclusive_snoc:
  assumes "CHR 10 \<notin> set line"
  shows "\<exists>ls. split_inclusive (CHR 10) (with_line_appended f line) = ls @ [line @ [CHR 10]] \<and>
    (ls = split_inclusive (CHR 10) f \<or>
     (\<exists>init l. split_inclusive (CHR 10) f = init @ [l] \<and> ls = init @ [l @ [CHR 10]]))"
proof (induction "length f" arbitrary: f rule: less_induct)
  case less
  have one: "split_inclusive (CHR 10) (line @ [CHR 10]) = [line @ [CHR 10]]"
    using split_inclusive_terminated[OF assms, of "[]"] by simp
  show ?case
  proof (cases "split_inclusive (CHR 10) f")
    case Nil
    then have "f = []" using concat_split_inclusive[of "CHR 10" f] by simp
    with one show ?thesis by (simp add: with_line_appended_def)
  next
    case (Cons l ls)
    from split_inclusive_cases[OF this] obtain b e s where
      s: "is_line b e" "l = b @ e" "f = l @ s" "ls = split_inclusive (CHR 10) s" "e = [] \<longrightarrow> s = []" by auto
    show ?thesis
    proof (cases "s = []")
      case True
      with s show ?thesis using Cons one split_inclusive_terminated[of "CHR 10" b "line @ [CHR 10]"] assms
        by (auto simp: is_line_def with_line_appended_def dest: last_in_set)
    next
      case False
      with s(5) have e: "e = [CHR 10]" using s(1) by (simp add: is_line_def)
      have app: "with_line_appended f line = (b @ [CHR 10]) @ with_line_appended s line"
        using False by (simp add: with_line_appended_def s(2,3) e)
      have "length s < length f" by (simp add: s(2,3) e)
      from less.hyps[OF this] obtain ls' where ls': "split_inclusive (CHR 10) (with_line_appended s line) = ls' @ [line @ [CHR 10]]"
        "ls' = split_inclusive (CHR 10) s \<or> (\<exists>init l. split_inclusive (CHR 10) s = init @ [l] \<and> ls' = init @ [l @ [CHR 10]])" by blast
      have "split_inclusive (CHR 10) (with_line_appended f line) = (l # ls') @ [line @ [CHR 10]]"
        using split_inclusive_terminated[of "CHR 10" b "with_line_appended s line"] s(1) ls'(1)
        by (simp add: app is_line_def s(2) e)
      with ls'(2) Cons s(4) show ?thesis by (metis append_Cons)
    qed
  qed
qed

section \<open>Entries\<close>

text \<open>A line that holds an entry is the entry with white space around it.\<close>

definition entry_text :: "string \<Rightarrow> bool" where
  "entry_text t \<longleftrightarrow> t \<noteq> [] \<and> hd t \<noteq> CHR ''#'' \<and> \<not> is_ascii_whitespace (hd t) \<and> \<not> is_ascii_whitespace (last t)"

lemma entry_range_text:
  assumes "list_all is_ascii_whitespace w1" and "list_all is_ascii_whitespace w2" and "entry_text t"
  shows "entry_range (w1 @ t @ w2) = Some (length w1, length w1 + length t)"
proof -
  from assms(3) obtain c t' where t: "t = c # t'" "\<not> is_ascii_whitespace c" "c \<noteq> CHR ''#''" by (cases t) (auto simp: entry_text_def)
  from assms(3) obtain d t'' where r: "rev t = d # t''" "\<not> is_ascii_whitespace d"
    by (cases "rev t") (auto simp: entry_text_def hd_rev[symmetric])
  have "takeWhile is_ascii_whitespace (w1 @ t @ w2) = w1" using assms(1) t by (simp add: list_all_iff)
  moreover have "takeWhile is_ascii_whitespace (rev (w1 @ t @ w2)) = rev w2"
    using assms(2) r by (simp add: list_all_iff takeWhile_append)
  ultimately show ?thesis using t by (simp add: entry_range_def nth_append Let_def)
qed

lemma entry_range_cases:
  assumes "entry_range line = Some (i, j)"
  shows "\<exists>w1 t w2. line = w1 @ t @ w2 \<and> list_all is_ascii_whitespace w1 \<and> list_all is_ascii_whitespace w2 \<and>
    entry_text t \<and> i = length w1 \<and> j = length w1 + length t"
proof -
  let ?ws = is_ascii_whitespace
  define w1 where "w1 = takeWhile ?ws line"
  define r where "r = dropWhile ?ws line"
  define w2 where "w2 = rev (takeWhile ?ws (rev r))"
  define t where "t = rev (dropWhile ?ws (rev r))"
  have r: "line = w1 @ r" "r = t @ w2" by (simp_all add: w1_def r_def t_def w2_def flip: rev_append)
  have some: "\<not> list_all ?ws line" using assms by (auto simp: entry_range_def Let_def)
  then have "r \<noteq> []" by (auto simp: r_def list_all_iff)
  then have "\<not> ?ws (hd r)" using hd_dropWhile[of ?ws line] by (simp add: r_def)
  then have "dropWhile ?ws (rev r) \<noteq> []" using \<open>r \<noteq> []\<close> by auto
  then have "\<not> ?ws (last t)" "t \<noteq> []" using hd_dropWhile[of ?ws "rev r"] by (simp_all add: t_def last_rev)
  have w: "list_all ?ws w1" "list_all ?ws w2" by (auto simp: w1_def w2_def list_all_iff dest: set_takeWhileD)
  have "line ! length w1 = hd t" using \<open>t \<noteq> []\<close> by (simp add: r nth_append hd_conv_nth)
  moreover have "hd t = hd r" using \<open>t \<noteq> []\<close> by (simp add: r(2))
  ultimately have "entry_text t" using assms some \<open>t \<noteq> []\<close> \<open>\<not> ?ws (last t)\<close> \<open>\<not> ?ws (hd r)\<close>
    by (auto simp: entry_text_def entry_range_def Let_def w1_def split: if_splits)
  with entry_range_text[OF w this] assms have "i = length w1" "j = length w1 + length t" by (simp_all add: r)
  with r w \<open>entry_text t\<close> show ?thesis by auto
qed

text \<open>The fields before one that is split off.\<close>

definition fields_before :: "char \<Rightarrow> string list \<Rightarrow> string" where
  "fields_before d ps = concat (map (\<lambda>p. p @ [d]) ps)"

lemma splitn_fields_before:
  "(\<And>p. p \<in> set ps \<Longrightarrow> d \<notin> set p) \<Longrightarrow> splitn (length ps + Suc k) d (fields_before d ps @ s) = ps @ splitn (Suc k) d s"
  by (induction ps) (simp_all add: fields_before_def)

lemma splitn_cases:
  assumes "splitn n d s = ps @ q # qs"
  shows "\<exists>r. s = fields_before d ps @ r \<and> (\<forall>p \<in> set ps. d \<notin> set p) \<and> splitn (n - length ps) d r = q # qs"
  using assms
proof (induction ps arbitrary: n s)
  case (Cons p ps)
  then obtain m where n: "n = Suc (Suc m)" by (cases "(n, d, s)" rule: splitn.cases) auto
  with Cons.prems obtain r where s: "split_once d s = Some (p, r)" "splitn (Suc m) d r = ps @ q # qs"
    by (cases "split_once d s") auto
  from Cons.IH[OF s(2)] s(1) n show ?case by (auto simp: fields_before_def)
qed (simp add: fields_before_def)

lemma splitn_no_sep: "length (splitn n d s) < n \<Longrightarrow> p \<in> set (splitn n d s) \<Longrightarrow> d \<notin> set p"
proof (induction n arbitrary: s)
  case (Suc n)
  then show ?case by (cases n; cases "split_once d s") auto
qed simp

lemma fields_before_splitn: "splitn (Suc n) d s \<noteq> [] \<and> fields_before d (splitn (Suc n) d s) = s @ [d]"
proof (induction n arbitrary: s)
  case (Suc n)
  show ?case
  proof (cases "split_once d s")
    case (Some p)
    with Suc show ?thesis by (cases p) (simp add: fields_before_def)
  qed (simp add: fields_before_def)
qed (simp add: fields_before_def)

section \<open>The entries of a file\<close>

record entry_view =
  ev_name :: string
  ev_uid :: "u32 option"
  ev_gid :: "u32 option"
  ev_home :: string

definition fields_view :: "string list \<Rightarrow> entry_view" where
  "fields_view fs = \<lparr>ev_name = fs ! 0, ev_uid = parse_id (nth_opt fs 2), ev_gid = parse_id (nth_opt fs 3),
     ev_home = (case nth_opt fs PASSWD_HOME_FIELD of Some home \<Rightarrow> home | None \<Rightarrow> [])\<rparr>"

definition entry_view_of :: "string \<Rightarrow> passwd_entry \<Rightarrow> entry_view" where
  "entry_view_of line e = \<lparr>ev_name = pe_name e, ev_uid = pe_uid e, ev_gid = pe_gid e,
     ev_home = take (pe_home_end e - pe_home_start e) (drop (pe_home_start e) line)\<rparr>"

definition line_view :: "string \<Rightarrow> entry_view option" where
  "line_view line = map_option (entry_view_of line) (parse_passwd_entry line)"

definition passwd_view :: "string \<Rightarrow> entry_view list" where
  "passwd_view passwd = List.map_filter line_view (split_inclusive (CHR 10) passwd)"

text \<open>A home that cannot shift a field or start a line, and that no reader's trimming shortens.\<close>

definition home_fits :: "string \<Rightarrow> bool" where
  "home_fits home \<longleftrightarrow> home \<noteq> [] \<and> CHR '':'' \<notin> set home \<and> CHR 10 \<notin> set home \<and> \<not> is_ascii_whitespace (last home)"

definition new_text :: "string \<Rightarrow> string \<Rightarrow> string" where
  "new_text t home = (let fields = splitn 7 (CHR '':'') t; before = fields_before (CHR '':'') (take PASSWD_HOME_FIELD fields)
     in if PASSWD_HOME_FIELD < length fields then before @ home @ drop (length before + length (fields ! PASSWD_HOME_FIELD)) t
        else t @ replicate (PASSWD_HOME_FIELD + 1 - length fields) (CHR '':'') @ home)"

lemma length_fields_before: "length (fields_before d ps) = sum_list (map (\<lambda>p. length p + 1) ps)"
  by (induction ps) (simp_all add: fields_before_def)

lemma splitn_home:
  assumes "5 < length (splitn 7 d t)"
  shows "\<exists>rest. t = fields_before d (take 5 (splitn 7 d t)) @ splitn 7 d t ! 5 @ rest \<and>
    (\<forall>p \<in> set (take 5 (splitn 7 d t)). d \<notin> set p) \<and>
    (\<forall>home. d \<notin> set home \<longrightarrow> splitn 7 d (fields_before d (take 5 (splitn 7 d t)) @ home @ rest) = (splitn 7 d t)[5 := home])"
proof -
  let ?fs = "splitn 7 d t"
  have fs: "?fs = take 5 ?fs @ ?fs ! 5 # drop 6 ?fs" using id_take_nth_drop[OF assms] by simp
  from splitn_cases[OF this] obtain r where r: "t = fields_before d (take 5 ?fs) @ r" "\<forall>p \<in> set (take 5 ?fs). d \<notin> set p"
    "splitn (7 - length (take 5 ?fs)) d r = ?fs ! 5 # drop 6 ?fs" by blast
  have five: "length (take 5 ?fs) = 5" using assms by simp
  then have two: "splitn 2 d r = ?fs ! 5 # drop 6 ?fs" using r(3) by (simp del: length_take)
  then obtain rest where rest: "r = ?fs ! 5 @ rest" "\<And>home. d \<notin> set home \<Longrightarrow> splitn 2 d (home @ rest) = home # drop 6 ?fs"
    by (cases "split_once d r") (auto simp: numeral_2_eq_2)
  have "splitn 7 d (fields_before d (take 5 ?fs) @ home @ rest) = ?fs[5 := home]" if "d \<notin> set home" for home
  proof -
    have "splitn (length (take 5 ?fs) + Suc 1) d (fields_before d (take 5 ?fs) @ home @ rest) = take 5 ?fs @ splitn (Suc 1) d (home @ rest)"
      using r(2) by (intro splitn_fields_before) blast
    also have "\<dots> = take 5 ?fs @ home # drop 6 ?fs" using rest(2)[OF that] by (simp add: numeral_2_eq_2)
    also have "\<dots> = ?fs[5 := home]" using assms by (simp add: upd_conv_take_nth_drop)
    finally show ?thesis using five by (simp del: length_take)
  qed
  with r(1,2) rest(1) show ?thesis by (intro exI[of _ rest]) simp
qed

lemma new_text_long:
  assumes "5 < length (splitn 7 (CHR '':'') t)"
  shows "\<exists>before h rest. t = before @ h @ rest \<and> new_text t home = before @ home @ rest \<and> before \<noteq> [] \<and>
    length before = sum_list (map (\<lambda>p. length p + 1) (take 5 (splitn 7 (CHR '':'') t))) \<and> h = splitn 7 (CHR '':'') t ! 5 \<and>
    (CHR '':'' \<notin> set home \<longrightarrow> splitn 7 (CHR '':'') (before @ home @ rest) = (splitn 7 (CHR '':'') t)[5 := home])"
proof -
  define b where "b = fields_before (CHR '':'') (take 5 (splitn 7 (CHR '':'') t))"
  define h where "h = splitn 7 (CHR '':'') t ! 5"
  from splitn_home[OF assms] obtain rest where
    t: "t = b @ h @ rest" and
    new: "\<forall>home. CHR '':'' \<notin> set home \<longrightarrow> splitn 7 (CHR '':'') (b @ home @ rest) = (splitn 7 (CHR '':'') t)[5 := home]"
    unfolding b_def h_def by blast
  have "drop (length b + length h) t = rest" unfolding t by simp
  then have "new_text t home = b @ home @ rest"
    using assms by (simp add: new_text_def PASSWD_HOME_FIELD_def Let_def b_def[symmetric] h_def[symmetric])
  moreover have "b \<noteq> []" using assms by (cases "splitn 7 (CHR '':'') t") (simp_all add: b_def fields_before_def)
  moreover have "length b = sum_list (map (\<lambda>p. length p + 1) (take 5 (splitn 7 (CHR '':'') t)))"
    by (simp add: b_def length_fields_before)
  ultimately show ?thesis using t new h_def by blast
qed

lemma fields_new_text:
  assumes "CHR '':'' \<notin> set home"
  shows "splitn 7 (CHR '':'') (new_text t home) = (let fs = splitn 7 (CHR '':'') t in
    if 5 < length fs then fs[5 := home] else fs @ replicate (5 - length fs) [] @ [home])"
proof (cases "5 < length (splitn 7 (CHR '':'') t)")
  case True
  with new_text_long[OF this, of home] assms show ?thesis by auto
next
  case False
  let ?fs = "splitn 7 (CHR '':'') t"
  let ?ps = "?fs @ replicate (5 - length ?fs) []"
  from fields_before_splitn[of 6 "CHR '':''" t] have ne: "?fs \<noteq> []" "fields_before (CHR '':'') ?fs = t @ '':''" by simp_all
  have len: "length ?ps = 5" using False by simp
  have rep: "fields_before (CHR '':'') (replicate n []) = replicate n (CHR '':'')" for n
    by (induction n) (simp_all add: fields_before_def)
  have "6 - length ?fs = Suc (5 - length ?fs)" using False by simp
  then have "new_text t home = fields_before (CHR '':'') ?ps @ home"
    using False ne(2) rep by (simp add: new_text_def PASSWD_HOME_FIELD_def fields_before_def)
  moreover have "CHR '':'' \<notin> set p" if "p \<in> set ?ps" for p
    using that splitn_no_sep[of 7 "CHR '':''" t p] False by auto
  then have "splitn (length ?ps + Suc 1) (CHR '':'') (fields_before (CHR '':'') ?ps @ home) = ?ps @ splitn (Suc 1) (CHR '':'') home"
    by (intro splitn_fields_before)
  ultimately show ?thesis using False assms unfolding len by (simp add: Let_def)
qed

lemma fields_view_new_text:
  assumes "CHR '':'' \<notin> set home"
  shows "fields_view (splitn 7 (CHR '':'') (new_text t home)) = (fields_view (splitn 7 (CHR '':'') t))\<lparr>ev_home := home\<rparr>"
proof -
  have "splitn 7 (CHR '':'') t \<noteq> []" using fields_before_splitn[of 6 "CHR '':''" t] by simp
  moreover have "parse_id (Some []) = None" by (simp add: parse_id_def parse_u32_def parse_unsigned_def)
  ultimately show ?thesis unfolding fields_new_text[OF assms]
    by (auto simp: fields_view_def nth_opt_def PASSWD_HOME_FIELD_def Let_def nth_append parse_id_def)
qed

lemma entry_new_text:
  assumes "entry_text t" and "home_fits home"
  shows "entry_text (new_text t home)"
proof (cases "5 < length (splitn 7 (CHR '':'') t)")
  case True
  from new_text_long[OF this, of home] obtain before h rest where
    "t = before @ h @ rest" "new_text t home = before @ home @ rest" "before \<noteq> []" by blast
  with assms show ?thesis by (cases "rest = []") (auto simp: entry_text_def home_fits_def)
next
  case False
  with assms show ?thesis by (auto simp: entry_text_def home_fits_def new_text_def PASSWD_HOME_FIELD_def Let_def)
qed

text \<open>Reading a line with an entry, and giving it a home.\<close>

lemma parse_entry_text:
  assumes "list_all is_ascii_whitespace w1" and "list_all is_ascii_whitespace w2" and "entry_text t"
  shows "\<exists>e. parse_passwd_entry (w1 @ t @ w2) = Some e \<and> entry_view_of (w1 @ t @ w2) e = fields_view (splitn 7 (CHR '':'') t) \<and>
    take (pe_home_start e) (w1 @ t @ w2) @ replicate (pe_separators_needed e) (CHR '':'') @ home @ drop (pe_home_end e) (w1 @ t @ w2) =
      w1 @ new_text t home @ w2"
proof (cases "5 < length (splitn 7 (CHR '':'') t)")
  case True
  from new_text_long[OF this, of home] obtain before h rest where
    t: "t = before @ h @ rest" "new_text t home = before @ home @ rest"
    "length before = sum_list (map (\<lambda>p. length p + 1) (take 5 (splitn 7 (CHR '':'') t)))" "h = splitn 7 (CHR '':'') t ! 5" by blast
  let ?i = "length w1 + length before"
  have "parse_passwd_entry (w1 @ t @ w2) = Some \<lparr>pe_name = splitn 7 (CHR '':'') t ! 0, pe_uid = parse_id (nth_opt (splitn 7 (CHR '':'') t) 2),
      pe_gid = parse_id (nth_opt (splitn 7 (CHR '':'') t) 3), pe_home_start = ?i, pe_home_end = ?i + length h, pe_separators_needed = 0\<rparr>"
    using True t(3,4) by (simp add: parse_passwd_entry_def entry_range_text[OF assms] nth_opt_def PASSWD_HOME_FIELD_def Let_def)
  moreover have "take ?i (w1 @ t @ w2) = w1 @ before" "drop (?i + length h) (w1 @ t @ w2) = rest @ w2"
    "take (length h) (drop ?i (w1 @ t @ w2)) = h" unfolding t(1) by simp_all
  ultimately show ?thesis using True t(2,4) by (simp add: entry_view_of_def fields_view_def nth_opt_def PASSWD_HOME_FIELD_def)
next
  case False
  then show ?thesis
    by (simp add: parse_passwd_entry_def entry_range_text[OF assms] nth_opt_def PASSWD_HOME_FIELD_def Let_def
        entry_view_of_def fields_view_def new_text_def)
qed

lemma parse_entry_cases:
  assumes "parse_passwd_entry line = Some e"
  shows "\<exists>w1 t w2. line = w1 @ t @ w2 \<and> list_all is_ascii_whitespace w1 \<and> list_all is_ascii_whitespace w2 \<and> entry_text t"
  using assms entry_range_cases by (auto simp: parse_passwd_entry_def split: option.splits) blast

lemma home_in_line:
  assumes "parse_passwd_entry line = Some e"
  shows "pe_home_start e \<le> pe_home_end e" and "pe_home_end e \<le> length line"
proof -
  from parse_entry_cases[OF assms] obtain w1 t w2 where
    l: "line = w1 @ t @ w2" "list_all is_ascii_whitespace w1" "list_all is_ascii_whitespace w2" "entry_text t" by blast
  have "pe_home_start e \<le> pe_home_end e \<and> pe_home_end e \<le> length line"
  proof (cases "5 < length (splitn 7 (CHR '':'') t)")
    case True
    from new_text_long[OF this, of "[]"] obtain before h rest where t: "t = before @ h @ rest"
      "length before = sum_list (map (\<lambda>p. length p + 1) (take 5 (splitn 7 (CHR '':'') t)))" "h = splitn 7 (CHR '':'') t ! 5" by blast
    have "length t = length before + length h + length rest" using arg_cong[OF t(1), of length] by simp
    with t(2,3) show ?thesis using assms True
      by (auto simp: l(1) parse_passwd_entry_def entry_range_text[OF l(2-4)] nth_opt_def PASSWD_HOME_FIELD_def Let_def)
  next
    case False
    with assms show ?thesis
      by (auto simp: l(1) parse_passwd_entry_def entry_range_text[OF l(2-4)] nth_opt_def PASSWD_HOME_FIELD_def Let_def)
  qed
  then show "pe_home_start e \<le> pe_home_end e" and "pe_home_end e \<le> length line" by simp_all
qed

lemma home_given_to_line:
  assumes "parse_passwd_entry line = Some e" and "home_fits home" and "is_line b ending" and "line = b @ ending"
  shows "\<exists>b'. is_line b' ending \<and>
    take (pe_home_start e) line @ replicate (pe_separators_needed e) (CHR '':'') @ home @ drop (pe_home_end e) line = b' @ ending \<and>
    line_view (b' @ ending) = Some ((entry_view_of line e)\<lparr>ev_home := home\<rparr>)"
proof -
  from parse_entry_cases[OF assms(1)] obtain w1 t w2 where
    l: "line = w1 @ t @ w2" "list_all is_ascii_whitespace w1" "list_all is_ascii_whitespace w2" "entry_text t" by blast
  let ?new = "w1 @ new_text t home @ w2"
  have given: "take (pe_home_start e) line @ replicate (pe_separators_needed e) (CHR '':'') @ home @ drop (pe_home_end e) line = ?new"
    and old: "entry_view_of line e = fields_view (splitn 7 (CHR '':'') t)"
    using parse_entry_text[OF l(2-4), of home] assms(1) by (auto simp: l(1))
  have "entry_text (new_text t home)" using l(4) assms(2) by (rule entry_new_text)
  from parse_entry_text[OF l(2,3) this] have view: "line_view ?new = Some ((entry_view_of line e)\<lparr>ev_home := home\<rparr>)"
    using fields_view_new_text[of home t] assms(2) old by (auto simp: line_view_def home_fits_def)
  have "last t \<noteq> CHR 10" using l(4) by (auto simp: entry_text_def is_ascii_whitespace_def)
  moreover have "last line = CHR 10" if "ending = [CHR 10]" using assms(4) that by simp
  ultimately have "ending = [CHR 10] \<Longrightarrow> w2 \<noteq> [] \<and> last w2 = CHR 10"
    using l(1,4) by (cases "w2 = []") (auto simp: entry_text_def)
  then obtain w2' where w2: "w2 = w2' @ ending" using assms(3) by (metis append_Nil2 append_butlast_last_id is_line_def)
  have "CHR 10 \<notin> set (w1 @ t @ w2')" using assms(3,4) l(1) w2 by (simp add: is_line_def)
  moreover have "set (new_text t home) \<subseteq> set t \<union> set home \<union> {CHR '':''}"
  proof (cases "5 < length (splitn 7 (CHR '':'') t)")
    case True
    from new_text_long[OF this, of home] obtain before h rest where t: "t = before @ h @ rest" "new_text t home = before @ home @ rest" by blast
    from arg_cong[OF t(1), of set] show ?thesis unfolding t(2) by auto
  qed (auto simp: new_text_def PASSWD_HOME_FIELD_def Let_def)
  ultimately have "is_line (w1 @ new_text t home @ w2') ending"
    using assms(2,3) \<open>entry_text (new_text t home)\<close> by (auto simp: is_line_def home_fits_def entry_text_def)
  with given view w2 show ?thesis by (intro exI[of _ "w1 @ new_text t home @ w2'"]) simp
qed

section \<open>The edits, on the entries\<close>

fun replace_first :: "('a \<Rightarrow> bool) \<Rightarrow> ('a \<Rightarrow> 'a) \<Rightarrow> 'a list \<Rightarrow> 'a list" where
  "replace_first P f [] = []"
| "replace_first P f (x # xs) = (if P x then f x # xs else x # replace_first P f xs)"

text \<open>A selection of the code's that looks only at an entry's name and ids.\<close>

definition selects :: "(passwd_entry \<Rightarrow> bool) \<Rightarrow> (entry_view \<Rightarrow> bool) \<Rightarrow> bool" where
  "selects p q \<longleftrightarrow> (\<forall>line e. p e \<longleftrightarrow> q (entry_view_of line e))"

lemma first_entry_from_None:
  "selects p q \<Longrightarrow> first_entry_from p i ls = None \<longleftrightarrow> (\<forall>v \<in> set (List.map_filter line_view ls). \<not> q v)"
proof (induction ls arbitrary: i)
  case (Cons line ls)
  then show ?case by (cases "parse_passwd_entry line") (auto simp: line_view_def selects_def)
qed simp

lemma first_passwd_entry_None:
  "selects p q \<Longrightarrow> first_passwd_entry passwd p = None \<longleftrightarrow> (\<forall>v \<in> set (passwd_view passwd). \<not> q v)"
  by (simp add: first_passwd_entry_def passwd_view_def first_entry_from_None)

lemma first_entry_from_Some:
  assumes "first_entry_from p i ls = Some (j, e)" and "selects p q"
  shows "\<exists>ls1 line ls2. ls = ls1 @ line # ls2 \<and> j = i + length (concat ls1) \<and>
    parse_passwd_entry line = Some e \<and> q (entry_view_of line e) \<and> (\<forall>v \<in> set (List.map_filter line_view ls1). \<not> q v)"
  using assms(1)
proof (induction ls arbitrary: i)
  case (Cons line ls)
  show ?case
  proof (cases "\<exists>e. parse_passwd_entry line = Some e \<and> p e")
    case True
    with Cons.prems assms(2) have "j = i \<and> parse_passwd_entry line = Some e \<and> q (entry_view_of line e)" by (auto simp: selects_def)
    then show ?thesis by (intro exI[of _ "[]"] exI[of _ line] exI[of _ ls]) simp
  next
    case False
    with Cons.prems have "first_entry_from p (i + length line) ls = Some (j, e)" by (auto split: option.splits if_splits)
    from Cons.IH[OF this] obtain ls1 l ls2 where
      ls: "ls = ls1 @ l # ls2" "j = i + length line + length (concat ls1)" "parse_passwd_entry l = Some e" "q (entry_view_of l e)"
      "\<forall>v \<in> set (List.map_filter line_view ls1). \<not> q v" by blast
    moreover have "\<forall>v \<in> set (List.map_filter line_view (line # ls1)). \<not> q v"
      using False assms(2) ls(5) by (cases "parse_passwd_entry line") (auto simp: line_view_def selects_def)
    ultimately show ?thesis by (intro exI[of _ "line # ls1"] exI[of _ l] exI[of _ ls2]) simp
  qed
qed simp

definition one_line_changed :: "string \<Rightarrow> string \<Rightarrow> bool" where
  "one_line_changed f g \<longleftrightarrow> (\<exists>ls1 l l' ls2. split_inclusive (CHR 10) f = ls1 @ l # ls2 \<and> split_inclusive (CHR 10) g = ls1 @ l' # ls2)"

lemma passwd_view_home:
  assumes "first_passwd_entry passwd p = Some (i, e)" and "selects p q" and "home_fits home"
    and "\<And>v. q (v\<lparr>ev_home := home\<rparr>) = q v"
  shows "passwd_view (with_passwd_home passwd i e home) = replace_first q (\<lambda>v. v\<lparr>ev_home := home\<rparr>) (passwd_view passwd)"
    and "\<exists>v \<in> set (passwd_view passwd). q v"
    and "\<exists>line. List.find q (passwd_view passwd) = Some (entry_view_of line e)"
    and "one_line_changed passwd (with_passwd_home passwd i e home)"
proof -
  from first_entry_from_Some[OF assms(1)[unfolded first_passwd_entry_def] assms(2)] obtain ls1 line ls2 where
    ls: "split_inclusive (CHR 10) passwd = ls1 @ line # ls2" "i = length (concat ls1)" "parse_passwd_entry line = Some e"
      "q (entry_view_of line e)" "\<forall>v \<in> set (List.map_filter line_view ls1). \<not> q v" by auto
  from split_inclusive_replace[OF ls(1)] obtain b ending where
    b: "is_line b ending" "line = b @ ending" "\<And>b'. is_line b' ending \<Longrightarrow>
      split_inclusive (CHR 10) (concat ls1 @ (b' @ ending) @ concat ls2) = ls1 @ (b' @ ending) # ls2" by blast
  from home_given_to_line[OF ls(3) assms(3) b(1,2)] obtain b' where
    b': "is_line b' ending" "take (pe_home_start e) line @ replicate (pe_separators_needed e) (CHR '':'') @ home @ drop (pe_home_end e) line = b' @ ending"
      "line_view (b' @ ending) = Some ((entry_view_of line e)\<lparr>ev_home := home\<rparr>)" by blast
  have passwd: "passwd = concat ls1 @ line @ concat ls2" using concat_split_inclusive[of "CHR 10" passwd] by (simp add: ls(1))
  have le: "pe_home_start e \<le> length line" "pe_home_end e \<le> length line" using home_in_line[OF ls(3)] by simp_all
  have "with_passwd_home passwd i e home = concat ls1 @ (b' @ ending) @ concat ls2"
    unfolding b'(2)[symmetric] using le by (simp add: with_passwd_home_def passwd ls(2))
  with b(3)[OF b'(1)] have lines: "split_inclusive (CHR 10) (with_passwd_home passwd i e home) = ls1 @ (b' @ ending) # ls2" by simp
  with ls(1) show "one_line_changed passwd (with_passwd_home passwd i e home)" by (auto simp: one_line_changed_def)
  from lines have "passwd_view (with_passwd_home passwd i e home) =
      List.map_filter line_view ls1 @ (entry_view_of line e)\<lparr>ev_home := home\<rparr> # List.map_filter line_view ls2"
    by (simp add: passwd_view_def map_filter_def b'(3))
  moreover have view: "passwd_view passwd = List.map_filter line_view ls1 @ entry_view_of line e # List.map_filter line_view ls2"
    by (simp add: passwd_view_def ls(1) map_filter_def) (simp add: line_view_def ls(3))
  moreover have "replace_first q f (vs @ v # ws) = vs @ f v # ws" if "\<forall>v \<in> set vs. \<not> q v" "q v" for f v and vs ws :: "entry_view list"
    using that by (induction vs) auto
  ultimately show "passwd_view (with_passwd_home passwd i e home) = replace_first q (\<lambda>v. v\<lparr>ev_home := home\<rparr>) (passwd_view passwd)"
    using ls(4,5) by simp
  show "\<exists>v \<in> set (passwd_view passwd). q v" using ls(4) by (auto simp: view)
  have "List.find q (vs @ v # ws) = Some v" if "\<forall>v \<in> set vs. \<not> q v" "q v" for v and vs ws :: "entry_view list"
    using that by (induction vs) auto
  with ls(4,5) show "\<exists>line. List.find q (passwd_view passwd) = Some (entry_view_of line e)" unfolding view by blast
qed

lemma entry_range_newline: "entry_range (line @ [CHR 10]) = entry_range line"
proof (cases "entry_range line")
  case (Some p)
  obtain i j where "p = (i, j)" by (cases p)
  with Some entry_range_cases obtain w1 t w2 where
    l: "line = w1 @ t @ w2" "list_all is_ascii_whitespace w1" "list_all is_ascii_whitespace w2" "entry_text t" by blast
  then have "list_all is_ascii_whitespace (w2 @ [CHR 10])" by (simp add: is_ascii_whitespace_def)
  from entry_range_text[OF l(2) this l(4)] entry_range_text[OF l(2-4)] show ?thesis by (simp add: l(1))
next
  case None
  show ?thesis
  proof (rule ccontr)
    assume "entry_range (line @ [CHR 10]) \<noteq> entry_range line"
    with None obtain i j where "entry_range (line @ [CHR 10]) = Some (i, j)" by auto
    from entry_range_cases[OF this] obtain w1 t w2 where
      l: "line @ [CHR 10] = w1 @ t @ w2" "list_all is_ascii_whitespace w1" "list_all is_ascii_whitespace w2" "entry_text t" by blast
    have "w2 \<noteq> []" using l(4) arg_cong[OF l(1), of last] by (auto simp: entry_text_def is_ascii_whitespace_def)
    then obtain w2' c where w2: "w2 = w2' @ [c]" by (cases w2 rule: rev_cases) auto
    have "line @ [CHR 10] = (w1 @ t @ w2') @ [c]" using l(1) by (simp only: w2 append_assoc)
    then have "line = w1 @ t @ w2'" by (simp only: append1_eq_conv)
    moreover have "list_all is_ascii_whitespace w2'" using l(3) by (simp only: w2 list_all_append)
    ultimately show False using entry_range_text[OF l(2) _ l(4)] None by simp
  qed
qed

lemma line_view_newline: "line_view (line @ [CHR 10]) = line_view line"
proof -
  have "parse_passwd_entry (line @ [CHR 10]) = parse_passwd_entry line"
    using entry_range_cases by (fastforce simp: parse_passwd_entry_def entry_range_newline split: option.splits)
  moreover have "entry_view_of (line @ [CHR 10]) e = entry_view_of line e" if "parse_passwd_entry line = Some e" for e
    using home_in_line[OF that] by (simp add: entry_view_of_def)
  ultimately show ?thesis by (cases "parse_passwd_entry line") (simp_all add: line_view_def)
qed

lemma passwd_view_appended:
  assumes "CHR 10 \<notin> set line" and "line_view line = Some v"
  shows "passwd_view (with_line_appended f line) = passwd_view f @ [v]"
  using split_inclusive_snoc[OF assms(1), of f] assms(2)
  by (auto simp: passwd_view_def line_view_newline map_filter_def)

definition name_fits :: "string \<Rightarrow> bool" where
  "name_fits name \<longleftrightarrow> name \<noteq> [] \<and> CHR '':'' \<notin> set name \<and> CHR 10 \<notin> set name \<and> hd name \<noteq> CHR ''#'' \<and> \<not> is_ascii_whitespace (hd name)"

lemma parse_show_u32 [simp]: "parse_u32 (show_u32 w) = Some w"
proof -
  have "unat w < 2 ^ 32" using unsigned_less[of w] by simp
  then have "unat w \<le> 4294967295" by simp
  then show ?thesis by (simp add: parse_u32_def show_u32_def)
qed

lemma show_u32_chars: "c \<in> set (show_u32 w) \<Longrightarrow> is_ascii_digit c"
  by (simp add: show_u32_def show_nat_chars)

lemma show_u32_fits: "name_fits (show_u32 w)"
proof -
  have "is_ascii_digit (hd (show_u32 w))" using show_u32_chars[of "hd (show_u32 w)" w] by (simp add: show_u32_def)
  moreover have "CHR '':'' \<notin> set (show_u32 w)" "CHR 10 \<notin> set (show_u32 w)"
    using show_u32_chars[of _ w] by (force simp: char_class_defs)+
  ultimately show ?thesis by (auto simp: name_fits_def show_u32_def char_class_defs is_ascii_whitespace_def)
qed

lemma passwd_view_entry_appended:
  assumes "name_fits name" and "CHR '':'' \<notin> set home" and "CHR 10 \<notin> set home"
  shows "passwd_view (with_passwd_entry_appended passwd name uid gid home) =
    passwd_view passwd @ [\<lparr>ev_name = name, ev_uid = Some uid, ev_gid = Some gid, ev_home = home\<rparr>]"
proof -
  let ?t = "name @ '':*:'' @ show_u32 uid @ '':'' @ show_u32 gid @ ''::'' @ home @ '':/bin/sh''"
  let ?ps = "[name, ''*'', show_u32 uid, show_u32 gid, [], home]"
  have digits: "CHR '':'' \<notin> set (show_u32 w)" "CHR 10 \<notin> set (show_u32 w)" for w using show_u32_fits by (simp_all add: name_fits_def)
  have "\<And>p. p \<in> set ?ps \<Longrightarrow> CHR '':'' \<notin> set p" using assms digits by (auto simp: name_fits_def)
  from splitn_fields_before[of ?ps "CHR '':''" 0 "''/bin/sh''", OF this]
  have raw: "splitn (length ?ps + Suc 0) (CHR '':'') ?t = ?ps @ [''/bin/sh'']" by (simp only: fields_before_def) simp
  have seven: "length ?ps + Suc 0 = 7" by simp
  from raw have fs: "splitn 7 (CHR '':'') ?t = ?ps @ [''/bin/sh'']" unfolding seven .
  have "entry_text ?t" using assms(1) by (simp add: entry_text_def name_fits_def is_ascii_whitespace_def)
  from parse_entry_text[of "[]" "[]", OF _ _ this] have "line_view ?t = Some (fields_view (splitn 7 (CHR '':'') ?t))"
    by (auto simp: line_view_def)
  also have "fields_view (splitn 7 (CHR '':'') ?t) = \<lparr>ev_name = name, ev_uid = Some uid, ev_gid = Some gid, ev_home = home\<rparr>"
    unfolding fs by (simp add: fields_view_def nth_opt_def PASSWD_HOME_FIELD_def parse_id_def)
  finally show ?thesis unfolding with_passwd_entry_appended_def
    using assms digits by (intro passwd_view_appended) (auto simp: name_fits_def)
qed

section \<open>What the edits promise\<close>

text \<open>The same edits, on a list of entries.\<close>

definition home_entry_spec :: "(entry_view \<Rightarrow> bool) \<Rightarrow> entry_view \<Rightarrow> entry_view list \<Rightarrow> entry_view list" where
  "home_entry_spec chosen v vs =
     (if list_ex chosen vs then replace_first chosen (\<lambda>w. w\<lparr>ev_home := ev_home v\<rparr>) vs else vs @ [v])"

definition configured_choice :: "string \<Rightarrow> entry_view \<Rightarrow> bool" where
  "configured_choice configured_user v =
     (let (who, _) = split_configured_user configured_user
      in case configured_uid who of Some uid \<Rightarrow> ev_uid v = Some uid | None \<Rightarrow> ev_name v = who)"

definition edit_home_spec :: "entry_view list \<Rightarrow> string \<Rightarrow> string \<Rightarrow> entry_view list \<times> directory_owner option" where
  "edit_home_spec vs configured_user home =
     (let (who, grp) = split_configured_user configured_user; chosen = configured_choice configured_user in
      case (List.find chosen vs, configured_uid who) of
        (None, None) \<Rightarrow> (vs, None)
      | (Some v, _) \<Rightarrow> (replace_first chosen (\<lambda>w. w\<lparr>ev_home := home\<rparr>) vs,
          Some \<lparr>do_uid = (case ev_uid v of Some u \<Rightarrow> u | None \<Rightarrow> 0),
                do_gid = (case opt_or (parse_u32 grp) (ev_gid v) of Some g \<Rightarrow> g | None \<Rightarrow> 0)\<rparr>)
      | (None, Some uid) \<Rightarrow>
          (let gid = (case parse_u32 grp of Some g \<Rightarrow> g | None \<Rightarrow> 0)
           in (vs @ [\<lparr>ev_name = (if uid = 0 then ''root'' else show_u32 uid), ev_uid = Some uid, ev_gid = Some gid, ev_home = home\<rparr>],
               Some \<lparr>do_uid = uid, do_gid = gid\<rparr>)))"

definition host_user_spec :: "entry_view list \<Rightarrow> current_user \<Rightarrow> string \<Rightarrow> entry_view list" where
  "host_user_spec vs who home = home_entry_spec (\<lambda>v. ev_uid v = Some (cu_uid who))
     \<lparr>ev_name = (if cu_username who \<in> ev_name ` set vs then show_u32 (cu_uid who) else cu_username who),
      ev_uid = Some (cu_uid who), ev_gid = Some (cu_gid who), ev_home = home\<rparr> vs"

definition user_view :: "additional_user \<Rightarrow> entry_view" where
  "user_view u = \<lparr>ev_name = au_name u, ev_uid = Some (au_uid u), ev_gid = Some (au_gid u), ev_home = ''/nonexistent''\<rparr>"

lemma selects_uid: "selects (\<lambda>e. pe_uid e = Some uid) (\<lambda>v. ev_uid v = Some uid)"
  and selects_name: "selects (\<lambda>e. pe_name e = name) (\<lambda>v. ev_name v = name)"
  by (simp_all add: selects_def entry_view_of_def)

lemma name_taken_iff: "first_passwd_entry passwd (\<lambda>e. pe_name e = name) \<noteq> None \<longleftrightarrow> name \<in> ev_name ` set (passwd_view passwd)"
  by (auto simp: first_passwd_entry_None[OF selects_name] simp del: not_None_eq)

lemma uid_taken_iff: "first_passwd_entry passwd (\<lambda>e. pe_uid e = Some uid) \<noteq> None \<longleftrightarrow> Some uid \<in> ev_uid ` set (passwd_view passwd)"
  by (force simp: first_passwd_entry_None[OF selects_uid] simp del: not_None_eq)

lemma find_eq_None: "List.find P xs = None \<longleftrightarrow> (\<forall>x \<in> set xs. \<not> P x)"
  by (induction xs) auto

lemma edit_passwd_home_view:
  assumes "home_fits home"
  shows "(passwd_view (ed_contents (edit_passwd_home passwd configured_user home)),
      ed_home_owner (edit_passwd_home passwd configured_user home)) = edit_home_spec (passwd_view passwd) configured_user home"
proof -
  obtain who grp where u: "split_configured_user configured_user = (who, grp)" by (cases "split_configured_user configured_user")
  let ?p = "\<lambda>e. case configured_uid who of Some uid \<Rightarrow> pe_uid e = Some uid | None \<Rightarrow> pe_name e = who"
  let ?q = "configured_choice configured_user"
  have sel: "selects ?p ?q" by (simp add: selects_def entry_view_of_def configured_choice_def u split: option.split)
  have keeps: "?q (v\<lparr>ev_home := home\<rparr>) = ?q v" for v by (simp add: configured_choice_def u split: option.split)
  show ?thesis
  proof (cases "first_passwd_entry passwd ?p")
    case None
    then have "List.find ?q (passwd_view passwd) = None" using first_passwd_entry_None[OF sel, of passwd] by (simp add: find_eq_None)
    moreover have "name_fits (if uid = 0 then ''root'' else show_u32 uid)" for uid
      using show_u32_fits by (simp add: name_fits_def is_ascii_whitespace_def)
    ultimately show ?thesis using None assms
      by (auto simp: edit_passwd_home_def edit_home_spec_def u Let_def passwd_view_entry_appended home_fits_def split: option.split)
  next
    case (Some r)
    obtain i e where r: "first_passwd_entry passwd ?p = Some (i, e)" using Some by (cases r) simp
    from passwd_view_home(3)[OF r sel assms keeps] obtain line where "List.find ?q (passwd_view passwd) = Some (entry_view_of line e)" by blast
    with r passwd_view_home(1)[OF r sel assms keeps] show ?thesis
      by (simp add: edit_passwd_home_def edit_home_spec_def u Let_def entry_view_of_def)
  qed
qed

lemma edit_passwd_for_host_user_view:
  assumes "home_fits home" and "name_fits (cu_username who)"
  shows "passwd_view (edit_passwd_for_host_user passwd who home) = host_user_spec (passwd_view passwd) who home"
proof (cases "first_passwd_entry passwd (\<lambda>e. pe_uid e = Some (cu_uid who))")
  case None
  then have "\<not> list_ex (\<lambda>v. ev_uid v = Some (cu_uid who)) (passwd_view passwd)"
    using first_passwd_entry_None[OF selects_uid, of passwd "cu_uid who"] by (simp add: list_ex_iff)
  then show ?thesis using None assms name_taken_iff[of passwd "cu_username who"] show_u32_fits
    by (auto simp: edit_passwd_for_host_user_def host_user_spec_def home_entry_spec_def Let_def passwd_view_entry_appended home_fits_def)
next
  case (Some r)
  then obtain i e where r: "first_passwd_entry passwd (\<lambda>e. pe_uid e = Some (cu_uid who)) = Some (i, e)" by (cases r) simp
  note view = passwd_view_home[OF r selects_uid assms(1)]
  from view(2) have "list_ex (\<lambda>v. ev_uid v = Some (cu_uid who)) (passwd_view passwd)" by (auto simp: list_ex_iff)
  with view(1) r show ?thesis by (simp add: edit_passwd_for_host_user_def host_user_spec_def home_entry_spec_def)
qed

lemma is_user_name_fits: "is_user_name name \<Longrightarrow> name_fits name"
  by (cases name) (auto simp: is_user_name_def name_fits_def list_all_iff char_class_defs is_ascii_whitespace_def)

lemma add_users_view:
  assumes "\<forall>u \<in> set us. is_user_name (au_name u)"
  shows "case add_users passwd us contents of
      Ok contents' \<Rightarrow> passwd_view contents' = passwd_view contents @ map user_view us \<and>
        (\<forall>u \<in> set us. au_name u \<notin> ev_name ` set (passwd_view passwd) \<and> Some (au_uid u) \<notin> ev_uid ` set (passwd_view passwd))
    | Err _ \<Rightarrow> \<exists>u \<in> set us. au_name u \<in> ev_name ` set (passwd_view passwd) \<or> Some (au_uid u) \<in> ev_uid ` set (passwd_view passwd)"
  using assms
proof (induction us arbitrary: contents)
  case (Cons u us)
  show ?case
  proof (cases "first_passwd_entry passwd (\<lambda>e. pe_uid e = Some (au_uid u)) \<noteq> None \<or> first_passwd_entry passwd (\<lambda>e. pe_name e = au_name u) \<noteq> None")
    case True
    then have "au_name u \<in> ev_name ` set (passwd_view passwd) \<or> Some (au_uid u) \<in> ev_uid ` set (passwd_view passwd)"
      unfolding name_taken_iff uid_taken_iff by blast
    with True show ?thesis by (auto split: option.splits sum.splits)
  next
    case False
    then have free: "au_name u \<notin> ev_name ` set (passwd_view passwd)" "Some (au_uid u) \<notin> ev_uid ` set (passwd_view passwd)"
      unfolding name_taken_iff uid_taken_iff by blast+
    let ?c = "with_passwd_entry_appended contents (au_name u) (au_uid u) (au_gid u) ''/nonexistent''"
    have "passwd_view ?c = passwd_view contents @ [user_view u]"
      using Cons.prems is_user_name_fits[of "au_name u"] by (simp add: user_view_def passwd_view_entry_appended)
    moreover have "add_users passwd (u # us) contents = add_users passwd us ?c" using False by (auto split: option.split)
    ultimately show ?thesis using Cons.IH[of ?c] Cons.prems free by (cases "add_users passwd us ?c") auto
  qed
qed simp

text \<open>
  C31 (passwd_edits_refine): editing \<open>/etc/passwd\<close> is the abstract edit of its entries, whatever bytes the image shipped. The
  running user's home moves by changing its own line alone or by adding one line, with the owner the runtime
  will see; the host user gets the home in its uid's first entry or in a new one; and additional users are
  refused exactly when a name or uid is taken, else appended in order.
\<close>

theorem passwd_edits_refine:
  assumes "home_fits home" and "name_fits (cu_username who)" and "users_sound us"
  shows "(passwd_view (ed_contents (edit_passwd_home passwd configured_user home)),
      ed_home_owner (edit_passwd_home passwd configured_user home)) = edit_home_spec (passwd_view passwd) configured_user home \<and>
    (one_line_changed passwd (ed_contents (edit_passwd_home passwd configured_user home)) \<or>
     (\<exists>added. ed_contents (edit_passwd_home passwd configured_user home) = passwd @ added)) \<and>
    passwd_view (edit_passwd_for_host_user passwd who home) = host_user_spec (passwd_view passwd) who home \<and>
    (case with_additional_users passwd us of
       Ok contents \<Rightarrow> passwd_view contents = passwd_view passwd @ map user_view us \<and>
         (\<forall>u \<in> set us. au_name u \<notin> ev_name ` set (passwd_view passwd) \<and> Some (au_uid u) \<notin> ev_uid ` set (passwd_view passwd))
     | Err _ \<Rightarrow> \<exists>u \<in> set us. au_name u \<in> ev_name ` set (passwd_view passwd) \<or> Some (au_uid u) \<in> ev_uid ` set (passwd_view passwd))"
  (is "?view \<and> ?bytes \<and> ?host \<and> ?users")
proof (intro conjI)
  show ?view by (rule edit_passwd_home_view[OF assms(1)])
  show ?host by (rule edit_passwd_for_host_user_view[OF assms(1,2)])
  show ?users unfolding with_additional_users_def by (rule add_users_view) (use assms(3) in \<open>simp add: users_sound_def\<close>)
  obtain user_name grp where u: "split_configured_user configured_user = (user_name, grp)" by (cases "split_configured_user configured_user")
  let ?p = "\<lambda>e. case configured_uid user_name of Some uid \<Rightarrow> pe_uid e = Some uid | None \<Rightarrow> pe_name e = user_name"
  have sel: "selects ?p (configured_choice configured_user)"
    by (simp add: selects_def entry_view_of_def configured_choice_def u split: option.split)
  show ?bytes
  proof (cases "first_passwd_entry passwd ?p")
    case None
    then show ?thesis by (auto simp: edit_passwd_home_def u Let_def with_passwd_entry_appended_def with_line_appended_def split: option.split)
  next
    case (Some r)
    then obtain i e where r: "first_passwd_entry passwd ?p = Some (i, e)" by (cases r) simp
    have "one_line_changed passwd (with_passwd_home passwd i e home)"
      by (rule passwd_view_home(4)[OF r sel assms(1)]) (simp add: configured_choice_def u split: option.split)
    with r show ?thesis by (simp add: edit_passwd_home_def u Let_def)
  qed
qed

definition example_passwd :: string where
  "example_passwd = ''root:x:0:0:root:/root:/bin/sh'' @ [CHR 10] @ ''app:x:1000''"

theorem passwd_edits_refine_witness:
  "passwd_view example_passwd =
     [\<lparr>ev_name = ''root'', ev_uid = Some 0, ev_gid = Some 0, ev_home = ''/root''\<rparr>,
      \<lparr>ev_name = ''app'', ev_uid = Some 1000, ev_gid = None, ev_home = []\<rparr>] \<and>
   passwd_view (edit_passwd_for_host_user example_passwd \<lparr>cu_uid = 1000, cu_gid = 100, cu_username = ''dev'', cu_groupname = ''users''\<rparr> ''/home/dev'') =
     [\<lparr>ev_name = ''root'', ev_uid = Some 0, ev_gid = Some 0, ev_home = ''/root''\<rparr>,
      \<lparr>ev_name = ''app'', ev_uid = Some 1000, ev_gid = None, ev_home = ''/home/dev''\<rparr>]"
proof -
  let ?who = "\<lparr>cu_uid = 1000, cu_gid = 100, cu_username = ''dev'', cu_groupname = ''users''\<rparr>"
  have lines: "split_inclusive (CHR 10) example_passwd = [''root:x:0:0:root:/root:/bin/sh'' @ [CHR 10], ''app:x:1000'']"
    by (simp add: example_passwd_def)
  have ws: "list_all is_ascii_whitespace []" "list_all is_ascii_whitespace [CHR 10]" "entry_text ''app:x:1000''" "entry_text ''root:x:0:0:root:/root:/bin/sh''"
    by (simp_all add: entry_text_def is_ascii_whitespace_def)
  have fields: "splitn 7 (CHR '':'') ''app:x:1000'' = [''app'', ''x'', ''1000'']"
    "splitn 7 (CHR '':'') ''root:x:0:0:root:/root:/bin/sh'' = [''root'', ''x'', ''0'', ''0'', ''root'', ''/root'', ''/bin/sh'']"
    by code_simp+
  have ids: "parse_u32 ''1000'' = Some 1000" "parse_u32 ''0'' = Some 0"
    by (simp_all add: parse_u32_def parse_unsigned_def digits_value_def digit_value_def char_class_defs)
  from parse_entry_text[OF ws(1,2,4), of "[]"] parse_entry_text[OF ws(1,1,3), of "[]"]
  have view: "passwd_view example_passwd =
     [\<lparr>ev_name = ''root'', ev_uid = Some 0, ev_gid = Some 0, ev_home = ''/root''\<rparr>,
      \<lparr>ev_name = ''app'', ev_uid = Some 1000, ev_gid = None, ev_home = []\<rparr>]"
    by (auto simp: passwd_view_def lines line_view_def fields_view_def nth_opt_def PASSWD_HOME_FIELD_def parse_id_def ids fields)
  have "home_fits ''/home/dev''" "name_fits (cu_username ?who)" "users_sound []"
    by (simp_all add: home_fits_def name_fits_def is_ascii_whitespace_def users_sound_def)
  from passwd_edits_refine[OF this, of example_passwd] have
    "passwd_view (edit_passwd_for_host_user example_passwd ?who ''/home/dev'') = host_user_spec (passwd_view example_passwd) ?who ''/home/dev''" by blast
  then show ?thesis by (simp add: view host_user_spec_def home_entry_spec_def)
qed

end
