(* ===== verification/Paths.thy ===== *)
theory Paths
  imports Rust_Std "HOL-Library.Product_Lexorder" "HOL-Library.Sublist"
begin

text \<open>
  Paths as the code's language has them on Unix (\<open>std::path::Path\<close>): a path is a text, compared by its components.
  Repeated separators and \<open>.\<close> after the first component are not components; \<open>..\<close> is one.
\<close>

section \<open>Components\<close>

datatype path_component = Root_Dir | Cur_Dir | Parent_Dir | Normal string

fun component_key :: "path_component \<Rightarrow> nat \<times> string" where
  "component_key Root_Dir = (0, [])"
| "component_key Cur_Dir = (1, [])"
| "component_key Parent_Dir = (2, [])"
| "component_key (Normal s) = (3, s)"

lemma component_key_inj: "component_key a = component_key b \<Longrightarrow> a = b"
  by (cases a; cases b) simp_all

instantiation path_component :: linorder
begin

definition less_eq_path_component :: "path_component \<Rightarrow> path_component \<Rightarrow> bool" where
  "less_eq_path_component a b \<longleftrightarrow> component_key a \<le> component_key b"

definition less_path_component :: "path_component \<Rightarrow> path_component \<Rightarrow> bool" where
  "less_path_component a b \<longleftrightarrow> component_key a < component_key b"

instance
  by standard (auto simp: less_eq_path_component_def less_path_component_def dest: component_key_inj antisym)

end

text \<open>A piece between separators that is no component, except that a leading one counts.\<close>

definition droppable :: "string \<Rightarrow> bool" where
  "droppable p \<longleftrightarrow> p = [] \<or> p = ''.''"

definition component_of :: "string \<Rightarrow> path_component" where
  "component_of p = (if p = ''..'' then Parent_Dir else Normal p)"

definition leading_component :: "string \<Rightarrow> string \<Rightarrow> path_component list" where
  "leading_component s p = (if s = [] then [] else if p = [] then [Root_Dir] else if p = ''.'' then [Cur_Dir] else [component_of p])"

definition body_components :: "string list \<Rightarrow> path_component list" where
  "body_components ps = map component_of (filter (\<lambda>p. \<not> droppable p) ps)"

definition components :: "string \<Rightarrow> path_component list" where
  "components s = (case split (CHR ''/'') s of p # ps \<Rightarrow> leading_component s p @ body_components ps | [] \<Rightarrow> [])"

definition path_starts_with :: "string \<Rightarrow> string \<Rightarrow> bool" where
  "path_starts_with s base \<longleftrightarrow> prefix (components base) (components s)"

definition path_eq :: "string \<Rightarrow> string \<Rightarrow> bool" where
  "path_eq a b \<longleftrightarrow> components a = components b"

definition file_name :: "string \<Rightarrow> string option" where
  "file_name s = (case rev (components s) of Normal p # _ \<Rightarrow> Some p | _ \<Rightarrow> None)"

definition is_absolute :: "string \<Rightarrow> bool" where
  "is_absolute s \<longleftrightarrow> (case s of c # _ \<Rightarrow> c = CHR ''/'' | [] \<Rightarrow> False)"

section \<open>Parents and prefixes\<close>

definition trim_pieces :: "string list \<Rightarrow> string list" where
  "trim_pieces ps = rev (dropWhile droppable (rev ps))"

definition path_text :: "string \<Rightarrow> string list \<Rightarrow> string" where
  "path_text p ps = (if p = [] \<and> ps = [] then ''/'' else join ''/'' (p # ps))"

text \<open>\<open>Path::parent\<close>: the text up to the last component, without trailing separators.\<close>

definition parent :: "string \<Rightarrow> string option" where
  "parent s = (case split (CHR ''/'') s of [] \<Rightarrow> None
     | p # ps \<Rightarrow> (case trim_pieces ps of
           [] \<Rightarrow> if p = [] then None else Some []
         | qs \<Rightarrow> Some (path_text p (trim_pieces (butlast qs)))))"

fun ancestors_from :: "nat \<Rightarrow> string \<Rightarrow> string list" where
  "ancestors_from 0 s = [s]"
| "ancestors_from (Suc n) s = s # (case parent s of None \<Rightarrow> [] | Some p \<Rightarrow> ancestors_from n p)"

text \<open>\<open>Path::ancestors\<close>: each parent has one component less, so there are no more than the path has.\<close>

definition ancestors :: "string \<Rightarrow> string list" where
  "ancestors s = ancestors_from (length (components s)) s"

fun skip_components :: "nat \<Rightarrow> string list \<Rightarrow> string list" where
  "skip_components 0 ps = dropWhile droppable ps"
| "skip_components (Suc n) ps = (case dropWhile droppable ps of [] \<Rightarrow> [] | _ # qs \<Rightarrow> skip_components n qs)"

text \<open>\<open>Path::strip_prefix\<close>: the text after a prefix's components.\<close>

definition strip_prefix_path :: "string \<Rightarrow> string \<Rightarrow> string option" where
  "strip_prefix_path s base =
     (let n = length (components base) in
      if \<not> path_starts_with s base then None
      else case split (CHR ''/'') s of [] \<Rightarrow> None
      | p # ps \<Rightarrow>
          Some (if n = 0 then (if s = [] then [] else path_text p (trim_pieces ps))
            else if p = [] \<or> p = ''.'' then join ''/'' (trim_pieces (skip_components (n - 1) ps))
            else join ''/'' (trim_pieces (skip_components n (p # ps)))))"

section \<open>What they promise\<close>

lemma body_components_trim [simp]: "body_components (trim_pieces ps) = body_components ps"
proof -
  have "filter (\<lambda>p. \<not> droppable p) (rev (dropWhile droppable xs)) = filter (\<lambda>p. \<not> droppable p) (rev xs)" for xs :: "string list"
    by (induction xs) auto
  from this[of "rev ps"] show ?thesis by (simp add: body_components_def trim_pieces_def)
qed

lemma trim_pieces_last: "trim_pieces ps \<noteq> [] \<Longrightarrow> \<not> droppable (last (trim_pieces ps))"
  using hd_dropWhile[of droppable "rev ps"] by (simp add: trim_pieces_def last_rev)

lemma trim_pieces_set: "set (trim_pieces ps) \<subseteq> set ps"
  by (auto simp: trim_pieces_def dest: set_dropWhileD)

lemma components_path_text:
  assumes "CHR ''/'' \<notin> set p" and "\<forall>q \<in> set qs. CHR ''/'' \<notin> set q"
  shows "components (path_text p qs) = (if p = [] then [Root_Dir] else leading_component p p) @ body_components qs"
proof (cases "p = [] \<and> qs = []")
  case True
  then show ?thesis by (simp add: path_text_def components_def leading_component_def body_components_def droppable_def)
next
  case False
  then have "split (CHR ''/'') (join ''/'' (p # qs)) = p # qs" using assms by (intro split_join) auto
  moreover have "join ''/'' (p # qs) \<noteq> []" using False by (cases qs) auto
  ultimately show ?thesis using False by (auto simp: path_text_def components_def leading_component_def)
qed

lemma components_parent:
  assumes "parent s = Some t"
  shows "components s \<noteq> [] \<and> components t = butlast (components s)"
proof -
  obtain p ps where s: "split (CHR ''/'') s = p # ps" by (cases "split (CHR ''/'') s") auto
  have sep: "CHR ''/'' \<notin> set p" "\<forall>q \<in> set ps. CHR ''/'' \<notin> set q" using split_no_sep[of _ "CHR ''/''" s] s by auto
  have ne: "s \<noteq> [] \<or> p = [] \<and> ps = []" using s by (cases s) auto
  show ?thesis
  proof (cases "trim_pieces ps")
    case Nil
    then have "body_components ps = []" by (metis body_components_trim body_components_def filter.simps(1) list.map(1))
    with assms s Nil ne show ?thesis by (auto simp: parent_def components_def leading_component_def body_components_def split: if_splits)
  next
    case (Cons q qs)
    then have t: "t = path_text p (trim_pieces (butlast (trim_pieces ps)))" using assms s by (simp add: parent_def)
    have last: "\<not> droppable (last (trim_pieces ps))" using Cons by (intro trim_pieces_last) simp
    have "butlast (trim_pieces ps) @ [last (trim_pieces ps)] = trim_pieces ps" using Cons by (intro append_butlast_last_id) simp
    then have "body_components ps = body_components (butlast (trim_pieces ps) @ [last (trim_pieces ps)])" by (simp only: body_components_trim)
    then have body: "body_components ps = body_components (butlast (trim_pieces ps)) @ [component_of (last (trim_pieces ps))]"
      using last unfolding body_components_def by simp
    have "\<forall>q \<in> set (trim_pieces (butlast (trim_pieces ps))). CHR ''/'' \<notin> set q"
      using sep(2) trim_pieces_set[of ps] trim_pieces_set[of "butlast (trim_pieces ps)"] by (meson in_set_butlastD subsetD)
    then have "components t = (if p = [] then [Root_Dir] else leading_component p p) @ body_components (butlast (trim_pieces ps))"
      unfolding t using sep(1) components_path_text[of p] by simp
    moreover have "s \<noteq> []" using ne Cons by (auto simp: trim_pieces_def)
    ultimately show ?thesis using s body by (simp add: components_def leading_component_def butlast_append)
  qed
qed

lemma parent_None: "parent s = None \<longleftrightarrow> components s = [] \<or> components s = [Root_Dir]"
proof -
  obtain p ps where s: "split (CHR ''/'') s = p # ps" by (cases "split (CHR ''/'') s") auto
  have ne: "s \<noteq> [] \<or> p = [] \<and> ps = []" using s by (cases s) auto
  show ?thesis
  proof (cases "trim_pieces ps")
    case Nil
    then have "body_components ps = []" by (metis body_components_trim body_components_def filter.simps(1) list.map(1))
    with s Nil ne show ?thesis by (auto simp: parent_def components_def leading_component_def component_of_def)
  next
    case (Cons q qs)
    then have "last (trim_pieces ps) \<in> set ps" "\<not> droppable (last (trim_pieces ps))"
      using trim_pieces_last[of ps] trim_pieces_set[of ps] last_in_set[of "trim_pieces ps"] by auto
    then have "body_components ps \<noteq> []" by (auto simp: body_components_def filter_empty_conv)
    moreover have "s \<noteq> []" using ne Cons by (auto simp: trim_pieces_def)
    ultimately show ?thesis using s Cons by (auto simp: parent_def components_def leading_component_def)
  qed
qed

lemma ancestors_from_prefix: "t \<in> set (ancestors_from n s) \<Longrightarrow> prefix (components t) (components s)"
proof (induction n arbitrary: s)
  case (Suc n)
  show ?case
  proof (cases "parent s")
    case (Some u)
    from components_parent[OF this] have "prefix (components u) (components s)" by (metis append_butlast_last_id prefixI)
    with Suc Some show ?thesis by (auto intro: prefix_order.trans)
  qed (use Suc in simp)
qed simp

lemma ancestors_prefix: "t \<in> set (ancestors s) \<Longrightarrow> path_starts_with s t"
  by (auto simp: ancestors_def path_starts_with_def dest: ancestors_from_prefix)

lemma absolute_components: "is_absolute s \<longleftrightarrow> (\<exists>cs. components s = Root_Dir # cs)"
proof -
  obtain p ps where s: "split (CHR ''/'') s = p # ps" by (cases "split (CHR ''/'') s") auto
  have "is_absolute s \<longleftrightarrow> s \<noteq> [] \<and> p = []"
    using s by (cases s) (auto simp: is_absolute_def split: list.splits if_splits)
  then show ?thesis using s
    by (auto simp: components_def leading_component_def body_components_def component_of_def Cons_eq_append_conv split: if_splits)
qed

text \<open>The ancestors of an absolute path are it and each shorter prefix, down to the root.\<close>

lemma last_ancestors_from:
  "components s = Root_Dir # cs \<Longrightarrow> length cs \<le> n \<Longrightarrow> path_eq (last (ancestors_from n s)) ''/'' \<and> length (ancestors_from n s) = Suc (length cs)"
proof (induction n arbitrary: s cs)
  case 0
  then show ?case by (simp add: path_eq_def components_def leading_component_def body_components_def droppable_def)
next
  case (Suc n)
  show ?case
  proof (cases cs rule: rev_cases)
    case Nil
    with Suc.prems have "parent s = None" by (simp add: parent_None)
    with Nil Suc.prems show ?thesis
      by (simp add: path_eq_def components_def[of "''/''"] leading_component_def body_components_def droppable_def)
  next
    case (snoc ds c)
    with Suc.prems have "parent s \<noteq> None" by (simp add: parent_None)
    then obtain u where u: "parent s = Some u" by blast
    with components_parent[OF u] Suc.prems snoc have "components u = Root_Dir # ds" by simp
    from Suc.IH[OF this] snoc Suc.prems u show ?thesis by (cases n) auto
  qed
qed

lemma strip_prefix_path_Some: "path_starts_with s base \<Longrightarrow> \<exists>r. strip_prefix_path s base = Some r"
  by (cases "split (CHR ''/'') s") (simp_all add: strip_prefix_path_def Let_def)

end
