(* ===== verification/Identity.thy ===== *)
theory Identity
  imports User_Files Paths Daemon
begin

text \<open>
  What a container's \<open>identity\<close> does to the container once it exists (\<open>src/ratect-core/src/identity.rs\<close>). The
  runtime's calls are the parameter: their answers may depend on every call before. A run of the code is
  its result and the trace of its calls with their answers. \<open>path_clean::clean\<close> is a parameter too.
\<close>

section \<open>The runtime\<close>

record created_container_facts =
  ct_user :: string
  ct_mount_destinations :: "string list"
  ct_tmpfs_destinations :: "string list"

datatype path_kind = Directory | Regular_File | Symbolic_Link | Other_Kind

record path_stat =
  ps_kind :: path_kind
  ps_size :: nat

record container_file =
  fl_contents :: string
  fl_mode :: u32
  fl_uid :: "64 word"
  fl_gid :: "64 word"

record directory_ownership =
  dw_uid :: "64 word"
  dw_mode :: u32

datatype event =
    Facts_Asked created_container_facts
  | Class_Asked daemon_class
  | Warned "string \<times> string \<times> daemon_class"
  | Statted string "path_stat option"
  | File_Read string container_file
  | File_Written string container_file
  | Ownership_Read string directory_ownership
  | Ownership_Set string directory_owner u32
  | Directories_Created string string directory_owner
  | Call_Failed

record 'e runtime =
  rt_facts :: "event list \<Rightarrow> ('e, created_container_facts) result"
  rt_class :: "event list \<Rightarrow> ('e, daemon_class) result"
  rt_stat :: "event list \<Rightarrow> string \<Rightarrow> ('e, path_stat option) result"
  rt_read :: "event list \<Rightarrow> string \<Rightarrow> ('e, container_file) result"
  rt_write :: "event list \<Rightarrow> string \<Rightarrow> container_file \<Rightarrow> ('e, unit) result"
  rt_ownership :: "event list \<Rightarrow> string \<Rightarrow> ('e, directory_ownership) result"
  rt_set_ownership :: "event list \<Rightarrow> string \<Rightarrow> directory_owner \<Rightarrow> u32 \<Rightarrow> ('e, unit) result"
  rt_create_directories :: "event list \<Rightarrow> string \<Rightarrow> string \<Rightarrow> directory_owner \<Rightarrow> ('e, unit) result"

datatype 'e identity_error =
    Runtime 'e
  | Users user_error
  | Mounted string string
  | Is_A_Symbolic_Link string
  | Not_A_Regular_File string
  | Over_1_MiB string
  | Not_A_Directory string string
  | Hidden_By_Tmpfs string string
  | Not_An_Ancestor
  | No_Host_User
  | Failed_To_Apply string "'e identity_error"

type_synonym ('e, 'a) act = "event list \<Rightarrow> ('e identity_error, 'a) result \<times> event list"

definition give :: "'a \<Rightarrow> ('e, 'a) act" where
  "give a tr = (Ok a, tr)"

definition refuse :: "'e identity_error \<Rightarrow> ('e, 'a) act" where
  "refuse e tr = (Err e, tr)"

definition and_then :: "('e, 'a) act \<Rightarrow> ('a \<Rightarrow> ('e, 'b) act) \<Rightarrow> ('e, 'b) act" where
  "and_then m f tr = (case m tr of (Err e, tr') \<Rightarrow> (Err e, tr') | (Ok a, tr') \<Rightarrow> f a tr')"

definition perform :: "(event list \<Rightarrow> ('e, 'a) result) \<Rightarrow> ('a \<Rightarrow> event) \<Rightarrow> ('e, 'a) act" where
  "perform answer ev tr = (case answer tr of Err e \<Rightarrow> (Err (Runtime e), tr @ [Call_Failed]) | Ok a \<Rightarrow> (Ok a, tr @ [ev a]))"

fun each_act :: "('a \<Rightarrow> ('e, unit) act) \<Rightarrow> 'a list \<Rightarrow> ('e, unit) act" where
  "each_act f [] = give ()"
| "each_act f (x # xs) = and_then (f x) (\<lambda>_. each_act f xs)"

definition stat_container_path :: "'e runtime \<Rightarrow> string \<Rightarrow> ('e, path_stat option) act" where
  "stat_container_path rt path = perform (\<lambda>tr. rt_stat rt tr path) (Statted path)"

definition read_container_file :: "'e runtime \<Rightarrow> string \<Rightarrow> ('e, container_file) act" where
  "read_container_file rt path = perform (\<lambda>tr. rt_read rt tr path) (File_Read path)"

definition write_container_file :: "'e runtime \<Rightarrow> string \<Rightarrow> container_file \<Rightarrow> ('e, unit) act" where
  "write_container_file rt path f = perform (\<lambda>tr. rt_write rt tr path f) (\<lambda>_. File_Written path f)"

definition container_directory_ownership :: "'e runtime \<Rightarrow> string \<Rightarrow> ('e, directory_ownership) act" where
  "container_directory_ownership rt path = perform (\<lambda>tr. rt_ownership rt tr path) (Ownership_Read path)"

definition set_container_directory_ownership :: "'e runtime \<Rightarrow> string \<Rightarrow> directory_owner \<Rightarrow> u32 \<Rightarrow> ('e, unit) act" where
  "set_container_directory_ownership rt path owner mode =
     perform (\<lambda>tr. rt_set_ownership rt tr path owner mode) (\<lambda>_. Ownership_Set path owner mode)"

definition create_container_directories :: "'e runtime \<Rightarrow> string \<Rightarrow> string \<Rightarrow> directory_owner \<Rightarrow> ('e, unit) act" where
  "create_container_directories rt into relative owner =
     perform (\<lambda>tr. rt_create_directories rt tr into relative owner) (\<lambda>_. Directories_Created into relative owner)"

section \<open>Applying an identity\<close>

definition PASSWD_PATH :: string where
  "PASSWD_PATH = ''/etc/passwd''"

definition GROUP_PATH :: string where
  "GROUP_PATH = ''/etc/group''"

definition MAX_IDENTITY_FILE_SIZE :: nat where
  "MAX_IDENTITY_FILE_SIZE = 1024 * 1024"

text \<open>The warning's text is fixed; what it names is the container, the image's user and the daemon's class.\<close>

definition image_user_warning :: "string \<Rightarrow> string \<Rightarrow> daemon_class \<Rightarrow> (string \<times> string \<times> daemon_class) option" where
  "image_user_warning name image_user daemon =
     (if is_remapped daemon \<and> \<not> is_root_user image_user then Some (name, image_user, daemon) else None)"

definition failed_to_apply :: "string \<Rightarrow> ('e, 'a) act \<Rightarrow> ('e, 'a) act" where
  "failed_to_apply name m tr = (case m tr of (Err e, tr') \<Rightarrow> (Err (Failed_To_Apply name e), tr') | (Ok a, tr') \<Rightarrow> (Ok a, tr'))"

text \<open>The host's user is looked up by the \<open>nix\<close> crate, so it is an argument; \<open>None\<close> is a failed lookup.\<close>

definition host_user :: "'e runtime \<Rightarrow> current_user option \<Rightarrow> string \<Rightarrow> ('e, current_user option) act" where
  "host_user rt current name =
     failed_to_apply name (and_then (perform (rt_class rt) Class_Asked) (\<lambda>daemon.
       if daemon \<noteq> Rootful_Linux then give None
       else case current of Some u \<Rightarrow> give (Some u) | None \<Rightarrow> refuse No_Host_User))"

definition read_identity_file :: "(string \<Rightarrow> string) \<Rightarrow> 'e runtime \<Rightarrow> created_container_facts \<Rightarrow> string \<Rightarrow> ('e, container_file) act" where
  "read_identity_file clean rt facts path =
     (case List.find (\<lambda>destination. path_eq (clean destination) path \<or> path_eq (clean destination) ''/etc'')
         (ct_mount_destinations facts @ ct_tmpfs_destinations facts) of
        Some mount \<Rightarrow> refuse (Mounted path mount)
      | None \<Rightarrow> and_then (stat_container_path rt path) (\<lambda>stat. case stat of
            None \<Rightarrow> give \<lparr>fl_contents = [], fl_mode = 420, fl_uid = 0, fl_gid = 0\<rparr>
          | Some stat \<Rightarrow>
              if ps_kind stat = Symbolic_Link then refuse (Is_A_Symbolic_Link path)
              else if ps_kind stat \<noteq> Regular_File then refuse (Not_A_Regular_File path)
              else if \<not> ps_size stat \<le> MAX_IDENTITY_FILE_SIZE then refuse (Over_1_MiB path)
              else read_container_file rt path))"

definition write_group_if_changed :: "'e runtime \<Rightarrow> container_file \<Rightarrow> string \<Rightarrow> ('e, unit) act" where
  "write_group_if_changed rt grp contents =
     (if contents = fl_contents grp then give () else write_container_file rt GROUP_PATH (grp\<lparr>fl_contents := contents\<rparr>))"

text \<open>Handing a directory over if its owner is root, keeping its mode.\<close>

definition take_over_if_roots :: "'e runtime \<Rightarrow> directory_owner \<Rightarrow> string \<Rightarrow> ('e, unit) act" where
  "take_over_if_roots rt owner path =
     and_then (container_directory_ownership rt path) (\<lambda>ownership.
       if dw_uid ownership = 0 then set_container_directory_ownership rt path owner (dw_mode ownership) else give ())"

definition claim_caches :: "(string \<Rightarrow> string) \<Rightarrow> 'e runtime \<Rightarrow> bind_mount list option \<Rightarrow> directory_owner \<Rightarrow> ('e, unit) act" where
  "claim_caches clean rt mounts owner =
     (if do_uid owner = 0 then give ()
      else each_act (\<lambda>mount.
        if (case bm_source mount of Named_Volume _ \<Rightarrow> False | Host_Path _ \<Rightarrow> True) \<or> is_read_only (bm_options mount) then give ()
        else take_over_if_roots rt owner (clean (bm_container mount))) (or_empty mounts))"

text \<open>A \<open>BTreeSet\<close> of paths: sorted by components, the last of those that are equal.\<close>

fun last_of_equal :: "string list \<Rightarrow> string list" where
  "last_of_equal (a # b # ps) = (if components a = components b then last_of_equal (b # ps) else a # last_of_equal (b # ps))"
| "last_of_equal ps = ps"

definition path_set :: "string list \<Rightarrow> string list" where
  "path_set ps = last_of_equal (sort_key components ps)"

definition hand_over_directories_made_for_mounts ::
  "(string \<Rightarrow> string) \<Rightarrow> 'e runtime \<Rightarrow> string \<Rightarrow> directory_owner \<Rightarrow> created_container_facts \<Rightarrow> ('e, unit) act" where
  "hand_over_directories_made_for_mounts clean rt home owner facts =
     (if do_uid owner = 0 then give ()
      else each_act (\<lambda>directory.
          if list_ex (\<lambda>mount. path_starts_with directory (clean mount)) (ct_mount_destinations facts @ ct_tmpfs_destinations facts) then give ()
          else and_then (stat_container_path rt directory) (\<lambda>stat.
            if \<not> (case stat of Some s \<Rightarrow> ps_kind s = Directory | None \<Rightarrow> False) then give ()
            else take_over_if_roots rt owner directory))
        (path_set (filter (\<lambda>directory. path_starts_with directory home)
           (concat (map (\<lambda>mount. drop 1 (ancestors mount)) (ct_mount_destinations facts))))))"

text \<open>
  The walk down to the home: \<open>Home_Is\<close> when something is there, else the deepest ancestor found.
\<close>

datatype descent = Home_Is path_kind | Found_Down_To string

fun descend :: "'e runtime \<Rightarrow> string \<Rightarrow> string \<Rightarrow> string list \<Rightarrow> ('e, descent) act" where
  "descend rt home into [] = give (Found_Down_To into)"
| "descend rt home into (path # paths) =
     and_then (stat_container_path rt path) (\<lambda>stat. case stat of
         None \<Rightarrow> give (Found_Down_To into)
       | Some stat \<Rightarrow>
           if \<not> (ps_kind stat = Directory \<or> ps_kind stat = Symbolic_Link) then refuse (Not_A_Directory home path)
           else if path_eq path home then give (Home_Is (ps_kind stat))
           else descend rt home path paths)"

text \<open>\<open>Iterator::max_by_key\<close>, which takes the last of equal ones.\<close>

definition max_by_key :: "('a \<Rightarrow> nat) \<Rightarrow> 'a list \<Rightarrow> 'a option" where
  "max_by_key key xs = fold (\<lambda>x best. case best of None \<Rightarrow> Some x | Some b \<Rightarrow> if key x \<ge> key b then Some x else Some b) xs None"

definition create_home :: "'e runtime \<Rightarrow> string \<Rightarrow> string \<Rightarrow> directory_owner \<Rightarrow> ('e, unit) act" where
  "create_home rt home into owner = (case strip_prefix_path home into of
       None \<Rightarrow> refuse Not_An_Ancestor
     | Some relative \<Rightarrow> create_container_directories rt into relative owner)"

definition prepare_home :: "(string \<Rightarrow> string) \<Rightarrow> 'e runtime \<Rightarrow> string \<Rightarrow> directory_owner \<Rightarrow> created_container_facts \<Rightarrow> ('e, unit) act" where
  "prepare_home clean rt home owner facts =
     and_then (descend rt home ''/'' (drop 1 (rev (ancestors home)))) (\<lambda>found. case found of
         Home_Is kind \<Rightarrow> if kind = Directory then hand_over_directories_made_for_mounts clean rt home owner facts else give ()
       | Found_Down_To into \<Rightarrow>
           (case max_by_key (\<lambda>tmpfs. length (components (clean tmpfs)))
               (filter (\<lambda>tmpfs. path_starts_with home (clean tmpfs)) (ct_tmpfs_destinations facts)) of
              Some tmpfs \<Rightarrow>
                if \<not> (path_eq (clean tmpfs) home \<or>
                    list_ex (\<lambda>mount. path_starts_with home mount \<and> path_starts_with mount (clean tmpfs)) (ct_mount_destinations facts))
                then refuse (Hidden_By_Tmpfs home tmpfs)
                else create_home rt home into owner
            | None \<Rightarrow> create_home rt home into owner))"

definition adopt_host_user ::
  "(string \<Rightarrow> string) \<Rightarrow> 'e runtime \<Rightarrow> bind_mount list option \<Rightarrow> identity_plan \<Rightarrow> current_user \<Rightarrow> created_container_facts \<Rightarrow> container_file \<Rightarrow> ('e, unit) act" where
  "adopt_host_user clean rt mounts plan who facts passwd =
     and_then (read_identity_file clean rt facts GROUP_PATH) (\<lambda>grp.
       case with_additional_users (edit_passwd_for_host_user (fl_contents passwd) who (ip_home plan)) (ip_additional_users plan) of
         Err e \<Rightarrow> refuse (Users e)
       | Ok contents \<Rightarrow>
           and_then (write_container_file rt PASSWD_PATH (passwd\<lparr>fl_contents := contents\<rparr>)) (\<lambda>_.
             let contents = with_additional_groups
                   (case edit_group_for_host_user (fl_contents grp) who of Some g \<Rightarrow> g | None \<Rightarrow> fl_contents grp) (ip_additional_users plan);
                 owner = \<lparr>do_uid = cu_uid who, do_gid = cu_gid who\<rparr>
             in and_then (write_group_if_changed rt grp contents) (\<lambda>_.
                and_then (prepare_home clean rt (ip_home plan) owner facts) (\<lambda>_.
                  claim_caches clean rt mounts owner))))"

definition keep_image_user ::
  "(string \<Rightarrow> string) \<Rightarrow> 'e runtime \<Rightarrow> identity_plan \<Rightarrow> created_container_facts \<Rightarrow> container_file \<Rightarrow> ('e, unit) act" where
  "keep_image_user clean rt plan facts passwd =
     (let edit = edit_passwd_home (fl_contents passwd) (ct_user facts) (ip_home plan) in
      case ed_home_owner edit of
        None \<Rightarrow> give ()
      | Some owner \<Rightarrow> (case with_additional_users (ed_contents edit) (ip_additional_users plan) of
          Err e \<Rightarrow> refuse (Users e)
        | Ok contents \<Rightarrow>
            and_then (if ip_additional_users plan = [] then give None
                      else and_then (read_identity_file clean rt facts GROUP_PATH) (\<lambda>g. give (Some g))) (\<lambda>grp.
            and_then (write_container_file rt PASSWD_PATH (passwd\<lparr>fl_contents := contents\<rparr>)) (\<lambda>_.
            and_then (case grp of None \<Rightarrow> give ()
                      | Some g \<Rightarrow> write_group_if_changed rt g (with_additional_groups (fl_contents g) (ip_additional_users plan))) (\<lambda>_.
              prepare_home clean rt (ip_home plan) owner facts)))))"

definition warn :: "(string \<times> string \<times> daemon_class) option \<Rightarrow> ('e, unit) act" where
  "warn w = (case w of None \<Rightarrow> give () | Some w \<Rightarrow> perform (\<lambda>_. Ok ()) (\<lambda>_. Warned w))"

definition apply_plan :: "(string \<Rightarrow> string) \<Rightarrow> 'e runtime \<Rightarrow> string \<Rightarrow> bind_mount list option \<Rightarrow> identity_plan \<Rightarrow> ('e, unit) act" where
  "apply_plan clean rt name mounts plan =
     and_then (perform (rt_facts rt) Facts_Asked) (\<lambda>facts.
     and_then (if ip_host_user plan = None
               then and_then (perform (rt_class rt) Class_Asked) (\<lambda>daemon. warn (image_user_warning name (ct_user facts) daemon))
               else give ()) (\<lambda>_.
     and_then (read_identity_file clean rt facts PASSWD_PATH) (\<lambda>passwd.
       case ip_host_user plan of
         Some who \<Rightarrow> adopt_host_user clean rt mounts plan who facts passwd
       | None \<Rightarrow> keep_image_user clean rt plan facts passwd)))"

definition apply_identity :: "(string \<Rightarrow> string) \<Rightarrow> 'e runtime \<Rightarrow> container_spec \<Rightarrow> ('e, unit) act" where
  "apply_identity clean rt spec = (case sc_identity (cs_shared spec) of
       None \<Rightarrow> give ()
     | Some plan \<Rightarrow> failed_to_apply (sc_name (cs_shared spec))
         (apply_plan clean rt (sc_name (cs_shared spec)) (sc_volumes (cs_shared spec)) plan))"

section \<open>Homes a configuration may name\<close>

datatype home_error =
    Not_Absolute string string
  | Corrupts_Passwd string string
  | No_Directory_Name string string
  | Has_Parent_Component string

definition check_home_directory :: "string \<Rightarrow> string \<Rightarrow> (home_error, unit) result" where
  "check_home_directory field home_directory =
     (if \<not> starts_with home_directory ''/'' then Err (Not_Absolute field home_directory)
      else if CHR '':'' \<in> set home_directory \<or> list_ex is_control home_directory then Err (Corrupts_Passwd field home_directory)
      else if file_name home_directory = None then Err (No_Directory_Name field home_directory)
      else Ok ())"

definition identity_home_has_a_parent_component :: "string \<Rightarrow> bool" where
  "identity_home_has_a_parent_component home = list_ex (\<lambda>c. c = Parent_Dir) (components home)"

definition check_identity_home :: "string \<Rightarrow> (home_error, unit) result" where
  "check_identity_home home =
     rbind (check_home_directory ''identity.home'' home) (\<lambda>_.
       if identity_home_has_a_parent_component home then Err (Has_Parent_Component home) else Ok ())"

section \<open>Reasoning about traces\<close>

text \<open>A trace is good when every event was allowed after the events before it.\<close>

definition good :: "(event list \<Rightarrow> event \<Rightarrow> bool) \<Rightarrow> event list \<Rightarrow> bool" where
  "good allowed tr \<longleftrightarrow> (\<forall>before ev after. tr = before @ ev # after \<longrightarrow> allowed before ev)"

lemma good_Nil [simp]: "good allowed []"
  by (simp add: good_def)

lemma good_snoc [simp]: "good allowed (tr @ [ev]) \<longleftrightarrow> good allowed tr \<and> allowed tr ev"
proof
  assume g: "good allowed (tr @ [ev])"
  then have "good allowed tr" unfolding good_def by (metis append_Cons append_assoc)
  moreover have "allowed tr ev" using g unfolding good_def by blast
  ultimately show "good allowed tr \<and> allowed tr ev" ..
next
  assume g: "good allowed tr \<and> allowed tr ev"
  show "good allowed (tr @ [ev])" unfolding good_def
  proof (intro allI impI)
    fix before e after
    assume "tr @ [ev] = before @ e # after"
    then show "allowed before e" using g by (cases after rule: rev_cases) (auto simp: good_def simp flip: append_assoc append_Cons)
  qed
qed

text \<open>
  From a good trace with \<open>P\<close>, an action gives a good trace that only grew, and \<open>Q\<close> of its result; it never fails
  by the code's own panic.
\<close>

definition triple :: "(event list \<Rightarrow> event \<Rightarrow> bool) \<Rightarrow> (event list \<Rightarrow> bool) \<Rightarrow> ('e, 'a) act \<Rightarrow> ('a \<Rightarrow> event list \<Rightarrow> bool) \<Rightarrow> bool" where
  "triple allowed P m Q \<longleftrightarrow> (\<forall>tr. good allowed tr \<longrightarrow> P tr \<longrightarrow>
     (case m tr of (r, tr') \<Rightarrow> good allowed tr' \<and> set tr \<subseteq> set tr' \<and> (case r of Ok a \<Rightarrow> Q a tr' | Err e \<Rightarrow> e \<noteq> Not_An_Ancestor)))"

definition stable :: "(event list \<Rightarrow> bool) \<Rightarrow> bool" where
  "stable P \<longleftrightarrow> (\<forall>tr tr'. P tr \<longrightarrow> set tr \<subseteq> set tr' \<longrightarrow> P tr')"

definition outcome_ok :: "('a \<Rightarrow> event list \<Rightarrow> bool) \<Rightarrow> ('e identity_error, 'a) result \<Rightarrow> event list \<Rightarrow> bool" where
  "outcome_ok Q r tr \<longleftrightarrow> (case r of Ok a \<Rightarrow> Q a tr | Err e \<Rightarrow> e \<noteq> Not_An_Ancestor)"

lemma outcome_ok_simps [simp]: "outcome_ok Q (Ok a) tr = Q a tr" "outcome_ok Q (Err e) tr = (e \<noteq> Not_An_Ancestor)"
  by (simp_all add: outcome_ok_def)

lemma triple_iff:
  "triple allowed P m Q \<longleftrightarrow> (\<forall>tr r tr'. good allowed tr \<longrightarrow> P tr \<longrightarrow> m tr = (r, tr') \<longrightarrow>
     good allowed tr' \<and> set tr \<subseteq> set tr' \<and> outcome_ok Q r tr')"
  unfolding triple_def outcome_ok_def by (simp split: prod.split) blast

lemma triple_give: "(\<And>tr. P tr \<Longrightarrow> Q a tr) \<Longrightarrow> triple allowed P (give a) Q"
  by (simp add: triple_def give_def)

lemma triple_refuse: "e \<noteq> Not_An_Ancestor \<Longrightarrow> triple allowed P (refuse e) Q"
  by (simp add: triple_def refuse_def)

lemma triple_bind:
  assumes "triple allowed P m R" and "\<And>a. triple allowed (R a) (f a) Q"
  shows "triple allowed P (and_then m f) Q"
  unfolding triple_iff
proof (intro allI impI)
  fix tr r tr'
  assume tr: "good allowed tr" "P tr" and run: "and_then m f tr = (r, tr')"
  obtain r1 tr1 where m: "m tr = (r1, tr1)" by (cases "m tr")
  from assms(1)[unfolded triple_iff, rule_format, OF tr m] have r1: "good allowed tr1" "set tr \<subseteq> set tr1" "outcome_ok R r1 tr1" by simp_all
  show "good allowed tr' \<and> set tr \<subseteq> set tr' \<and> outcome_ok Q r tr'"
  proof (cases r1)
    case (Inl e)
    with r1 m run show ?thesis by (auto simp: and_then_def)
  next
    case (Inr a)
    with m run have "f a tr1 = (r, tr')" by (simp add: and_then_def)
    with assms(2)[of a, unfolded triple_iff, rule_format, OF r1(1)] r1 Inr show ?thesis by auto
  qed
qed

lemma triple_perform:
  assumes "\<And>tr. allowed tr Call_Failed" and "\<And>tr a. P tr \<Longrightarrow> allowed tr (ev a)" and "\<And>tr a. P tr \<Longrightarrow> Q a (tr @ [ev a])"
  shows "triple allowed P (perform answer ev) Q"
  using assms by (auto simp: triple_def perform_def split: sum.splits prod.splits)

lemma triple_keep:
  assumes "triple allowed P m Q" and "stable P"
  shows "triple allowed P m (\<lambda>a tr. Q a tr \<and> P tr)"
  unfolding triple_iff
proof (intro allI impI)
  fix tr r tr'
  assume tr: "good allowed tr" "P tr" and run: "m tr = (r, tr')"
  from assms(1)[unfolded triple_iff, rule_format, OF tr run] have r: "good allowed tr'" "set tr \<subseteq> set tr'" "outcome_ok Q r tr'" by simp_all
  then have "P tr'" using assms(2) tr(2) by (auto simp: stable_def)
  with r show "good allowed tr' \<and> set tr \<subseteq> set tr' \<and> outcome_ok (\<lambda>a tr. Q a tr \<and> P tr) r tr'" by (cases r) simp_all
qed

lemma triple_weaken:
  assumes "triple allowed P m Q" and "\<And>tr. P' tr \<Longrightarrow> P tr" and "\<And>a tr. Q a tr \<Longrightarrow> Q' a tr"
  shows "triple allowed P' m Q'"
  unfolding triple_iff
proof (intro allI impI)
  fix tr r tr'
  assume "good allowed tr" "P' tr" "m tr = (r, tr')"
  with assms(1)[unfolded triple_iff, rule_format, of tr r tr'] assms(2,3) show "good allowed tr' \<and> set tr \<subseteq> set tr' \<and> outcome_ok Q' r tr'"
    by (cases r) auto
qed

lemma triple_each:
  "(\<And>x. x \<in> set xs \<Longrightarrow> triple allowed P (f x) (\<lambda>_. P)) \<Longrightarrow> triple allowed P (each_act f xs) (\<lambda>_. P)"
  by (induction xs) (auto intro: triple_give triple_bind)

section \<open>What an identity may do\<close>

text \<open>The file at a path, read only after it was found to be a plausible identity file of the container's own layer.\<close>

definition plain_file_read :: "(string \<Rightarrow> string) \<Rightarrow> event list \<Rightarrow> created_container_facts \<Rightarrow> string \<Rightarrow> container_file \<Rightarrow> bool" where
  "plain_file_read clean tr facts path f \<longleftrightarrow> Facts_Asked facts \<in> set tr \<and>
     (\<forall>d \<in> set (ct_mount_destinations facts @ ct_tmpfs_destinations facts). \<not> path_eq (clean d) path \<and> \<not> path_eq (clean d) ''/etc'') \<and>
     (Statted path None \<in> set tr \<and> f = \<lparr>fl_contents = [], fl_mode = 420, fl_uid = 0, fl_gid = 0\<rparr> \<or>
      (\<exists>s. Statted path (Some s) \<in> set tr \<and> ps_kind s = Regular_File \<and> ps_size s \<le> 1048576) \<and> File_Read path f \<in> set tr)"

definition needs_group :: "identity_plan \<Rightarrow> bool" where
  "needs_group plan \<longleftrightarrow> ip_host_user plan \<noteq> None \<or> ip_additional_users plan \<noteq> []"

definition expected_entries :: "identity_plan \<Rightarrow> created_container_facts \<Rightarrow> entry_view list \<Rightarrow> entry_view list" where
  "expected_entries plan facts vs =
     (case ip_host_user plan of Some who \<Rightarrow> host_user_spec vs who (ip_home plan)
      | None \<Rightarrow> fst (edit_home_spec vs (ct_user facts) (ip_home plan))) @ map user_view (ip_additional_users plan)"

definition runs_as :: "(string \<Rightarrow> string) \<Rightarrow> identity_plan \<Rightarrow> event list \<Rightarrow> created_container_facts \<Rightarrow> directory_owner \<Rightarrow> bool" where
  "runs_as clean plan tr facts owner \<longleftrightarrow> (\<exists>f f0. File_Written PASSWD_PATH f \<in> set tr \<and> plain_file_read clean tr facts PASSWD_PATH f0 \<and>
     (case ip_host_user plan of Some who \<Rightarrow> owner = \<lparr>do_uid = cu_uid who, do_gid = cu_gid who\<rparr>
      | None \<Rightarrow> snd (edit_home_spec (passwd_view (fl_contents f0)) (ct_user facts) (ip_home plan)) = Some owner))"

definition same_ownership :: "container_file \<Rightarrow> container_file \<Rightarrow> bool" where
  "same_ownership f g \<longleftrightarrow> fl_mode f = fl_mode g \<and> fl_uid f = fl_uid g \<and> fl_gid f = fl_gid g"

fun identity_allows :: "(string \<Rightarrow> string) \<Rightarrow> bind_mount list option \<Rightarrow> identity_plan \<Rightarrow> event list \<Rightarrow> event \<Rightarrow> bool" where
  "identity_allows clean mounts plan tr (File_Written path f) \<longleftrightarrow> (\<exists>facts f0. plain_file_read clean tr facts path f0 \<and> same_ownership f f0 \<and>
     (path = PASSWD_PATH \<and> (needs_group plan \<longrightarrow> (\<exists>g. plain_file_read clean tr facts GROUP_PATH g)) \<and>
        passwd_view (fl_contents f) = expected_entries plan facts (passwd_view (fl_contents f0)) \<or>
      path = GROUP_PATH \<and> (\<exists>w. File_Written PASSWD_PATH w \<in> set tr) \<and> prefix (fl_contents f0) (fl_contents f)))"
| "identity_allows clean mounts plan tr (Ownership_Set path owner mode) \<longleftrightarrow>
     do_uid owner \<noteq> 0 \<and> Ownership_Read path \<lparr>dw_uid = 0, dw_mode = mode\<rparr> \<in> set tr \<and> (\<exists>facts. runs_as clean plan tr facts owner \<and>
     ((\<exists>m \<in> set (or_empty mounts). (\<exists>v. bm_source m = Named_Volume v) \<and> \<not> is_read_only (bm_options m) \<and> path = clean (bm_container m)) \<or>
      path_starts_with path (ip_home plan) \<and> (\<exists>s. Statted path (Some s) \<in> set tr \<and> ps_kind s = Directory) \<and>
      (\<forall>d \<in> set (ct_mount_destinations facts @ ct_tmpfs_destinations facts). \<not> path_starts_with path (clean d))))"
| "identity_allows clean mounts plan tr (Directories_Created into relative owner) \<longleftrightarrow>
     (\<exists>facts. runs_as clean plan tr facts owner) \<and> path_starts_with (ip_home plan) into \<and>
     (\<exists>p. Statted p None \<in> set tr \<and> path_starts_with (ip_home plan) p) \<and>
     (into = ''/'' \<or> (\<exists>s. Statted into (Some s) \<in> set tr \<and> ps_kind s \<in> {Directory, Symbolic_Link}))"
| "identity_allows clean mounts plan tr _ \<longleftrightarrow> True"

lemma stable_read: "stable (\<lambda>tr. plain_file_read clean tr facts path f)"
  unfolding stable_def plain_file_read_def by blast

lemma stable_runs_as: "stable (\<lambda>tr. runs_as clean plan tr facts owner)"
  unfolding stable_def
proof (intro allI impI)
  fix tr tr' :: "event list"
  assume r: "runs_as clean plan tr facts owner" and sub: "set tr \<subseteq> set tr'"
  have "plain_file_read clean tr facts PASSWD_PATH f \<Longrightarrow> plain_file_read clean tr' facts PASSWD_PATH f" for f
    using stable_read[of clean facts PASSWD_PATH f] sub by (simp add: stable_def)
  with r sub show "runs_as clean plan tr' facts owner" unfolding runs_as_def by blast
qed

lemma stable_facts: "stable (\<lambda>tr. Facts_Asked facts \<in> set tr)"
  unfolding stable_def by blast

lemma stable_written: "stable (\<lambda>tr. \<exists>f. File_Written path f \<in> set tr)"
  unfolding stable_def by blast

lemma stable_conj: "stable P \<Longrightarrow> stable Q \<Longrightarrow> stable (\<lambda>tr. P tr \<and> Q tr)"
  unfolding stable_def by blast

lemmas stable_intros = stable_read stable_runs_as stable_facts stable_written stable_conj

lemma triple_stat: "triple (identity_allows clean mounts plan) P (stat_container_path rt path) (\<lambda>s tr. Statted path s \<in> set tr)"
  unfolding stat_container_path_def by (rule triple_perform) simp_all

text \<open>The calls, with what is known after them.\<close>

lemma triple_read_identity_file:
  "triple (identity_allows clean mounts plan) (\<lambda>tr. Facts_Asked facts \<in> set tr) (read_identity_file clean rt facts path)
     (\<lambda>f tr. plain_file_read clean tr facts path f)"
proof (cases "List.find (\<lambda>destination. path_eq (clean destination) path \<or> path_eq (clean destination) ''/etc'')
    (ct_mount_destinations facts @ ct_tmpfs_destinations facts)")
  case None
  then have free: "\<forall>d \<in> set (ct_mount_destinations facts @ ct_tmpfs_destinations facts). \<not> path_eq (clean d) path \<and> \<not> path_eq (clean d) ''/etc''"
    by (auto simp: find_None_iff)
  show ?thesis unfolding read_identity_file_def None option.case
  proof (rule triple_bind[OF triple_keep[OF triple_stat stable_facts]])
    fix stat
    show "triple (identity_allows clean mounts plan) (\<lambda>tr. Statted path stat \<in> set tr \<and> Facts_Asked facts \<in> set tr)
        (case stat of None \<Rightarrow> give \<lparr>fl_contents = [], fl_mode = 420, fl_uid = 0, fl_gid = 0\<rparr>
          | Some stat \<Rightarrow>
              if ps_kind stat = Symbolic_Link then refuse (Is_A_Symbolic_Link path)
              else if ps_kind stat \<noteq> Regular_File then refuse (Not_A_Regular_File path)
              else if \<not> ps_size stat \<le> MAX_IDENTITY_FILE_SIZE then refuse (Over_1_MiB path)
              else read_container_file rt path) (\<lambda>f tr. plain_file_read clean tr facts path f)"
    proof (cases stat)
      case None
      with free show ?thesis by (auto intro!: triple_give simp: plain_file_read_def)
    next
      case (Some s)
      with free show ?thesis
        by (auto intro!: triple_refuse triple_perform simp: read_container_file_def plain_file_read_def MAX_IDENTITY_FILE_SIZE_def)
    qed
  qed
qed (auto intro: triple_refuse simp: read_identity_file_def)

lemma triple_take_over:
  assumes "do_uid owner \<noteq> 0" and "stable P"
    and "\<And>tr. P tr \<Longrightarrow> \<exists>facts. runs_as clean plan tr facts owner \<and>
     ((\<exists>m \<in> set (or_empty mounts). (\<exists>v. bm_source m = Named_Volume v) \<and> \<not> is_read_only (bm_options m) \<and> path = clean (bm_container m)) \<or>
      path_starts_with path (ip_home plan) \<and> (\<exists>s. Statted path (Some s) \<in> set tr \<and> ps_kind s = Directory) \<and>
      (\<forall>d \<in> set (ct_mount_destinations facts @ ct_tmpfs_destinations facts). \<not> path_starts_with path (clean d)))"
  shows "triple (identity_allows clean mounts plan) P (take_over_if_roots rt owner path) (\<lambda>_. P)"
proof -
  have "triple (identity_allows clean mounts plan) P (container_directory_ownership rt path) (\<lambda>w tr. Ownership_Read path w \<in> set tr)"
    unfolding container_directory_ownership_def by (rule triple_perform) simp_all
  note read = triple_keep[OF this assms(2)]
  have "triple (identity_allows clean mounts plan) (\<lambda>tr. Ownership_Read path w \<in> set tr \<and> P tr)
      (if dw_uid w = 0 then set_container_directory_ownership rt path owner (dw_mode w) else give ()) (\<lambda>_. P)" for w
  proof (cases "dw_uid w = 0")
    case True
    then obtain mode where w: "w = \<lparr>dw_uid = 0, dw_mode = mode\<rparr>" by (cases w) simp
    have kept: "P (tr @ [ev])" if "P tr" for tr ev using assms(2) that unfolding stable_def by (metis set_append sup_ge1)
    show ?thesis unfolding set_container_directory_ownership_def w
      by (simp, rule triple_perform) (use assms(1,3) kept in auto)
  qed (auto intro: triple_give)
  then show ?thesis unfolding take_over_if_roots_def by (rule triple_bind[OF read])
qed

lemma ancestors_Cons: "\<exists>ps. ancestors s = s # ps"
  unfolding ancestors_def by (cases "length (components s)") auto

lemma components_root: "components ''/'' = [Root_Dir]"
  by (simp add: components_def leading_component_def body_components_def droppable_def)

definition found_ok :: "string \<Rightarrow> string \<Rightarrow> event list \<Rightarrow> bool" where
  "found_ok home into tr \<longleftrightarrow> path_starts_with home into \<and> (\<exists>p. Statted p None \<in> set tr \<and> path_starts_with home p) \<and>
     (into = ''/'' \<or> (\<exists>s. Statted into (Some s) \<in> set tr \<and> ps_kind s \<in> {Directory, Symbolic_Link}))"

lemma triple_descend:
  assumes "path_starts_with home into" and "\<forall>p \<in> set paths. path_starts_with home p" and "paths \<noteq> []" and "path_eq (last paths) home"
    and "stable P"
    and "\<And>tr. P tr \<Longrightarrow> into = ''/'' \<or> (\<exists>s. Statted into (Some s) \<in> set tr \<and> ps_kind s \<in> {Directory, Symbolic_Link})"
  shows "triple (identity_allows clean mounts plan) P (descend rt home into paths) (\<lambda>found tr. P tr \<and> (case found of
      Home_Is _ \<Rightarrow> True
    | Found_Down_To into \<Rightarrow> found_ok home into tr))"
  using assms
proof (induction paths arbitrary: into P)
  case (Cons path paths)
  let ?Q = "\<lambda>found tr. P tr \<and> (case found of
      Home_Is _ \<Rightarrow> True
    | Found_Down_To into \<Rightarrow> found_ok home into tr)"
  have "triple (identity_allows clean mounts plan) (\<lambda>tr. Statted path stat \<in> set tr \<and> P tr)
      (case stat of None \<Rightarrow> give (Found_Down_To into)
       | Some stat \<Rightarrow>
           if \<not> (ps_kind stat = Directory \<or> ps_kind stat = Symbolic_Link) then refuse (Not_A_Directory home path)
           else if path_eq path home then give (Home_Is (ps_kind stat))
           else descend rt home path paths) ?Q" for stat
  proof (cases stat)
    case None
    with Cons.prems(1,2,6) show ?thesis by (auto intro!: triple_give simp: found_ok_def)
  next
    case (Some s)
    show ?thesis
    proof (cases "(ps_kind s = Directory \<or> ps_kind s = Symbolic_Link) \<and> \<not> path_eq path home")
      case True
      with Cons.prems(4) have "paths \<noteq> []" by (auto simp: path_eq_def)
      have "stable (\<lambda>tr. Statted path (Some s) \<in> set tr \<and> P tr)" using Cons.prems(5) unfolding stable_def by blast
      from Cons.IH[OF _ _ \<open>paths \<noteq> []\<close> _ this] Cons.prems(2,4) True \<open>paths \<noteq> []\<close>
      have "triple (identity_allows clean mounts plan) (\<lambda>tr. Statted path (Some s) \<in> set tr \<and> P tr) (descend rt home path paths)
          (\<lambda>found tr. (Statted path (Some s) \<in> set tr \<and> P tr) \<and> (case found of
            Home_Is _ \<Rightarrow> True
          | Found_Down_To into \<Rightarrow> found_ok home into tr))" by auto
      then have "triple (identity_allows clean mounts plan) (\<lambda>tr. Statted path (Some s) \<in> set tr \<and> P tr) (descend rt home path paths) ?Q"
        by (rule triple_weaken) blast+
      with True Some show ?thesis by auto
    qed (auto simp: Some intro!: triple_refuse triple_give)
  qed
  then show ?case unfolding descend.simps by (rule triple_bind[OF triple_keep[OF triple_stat Cons.prems(5)]])
qed simp

lemma triple_hand_over:
  "triple (identity_allows clean mounts plan) (\<lambda>tr. runs_as clean plan tr facts owner)
     (hand_over_directories_made_for_mounts clean rt (ip_home plan) owner facts) (\<lambda>_ tr. runs_as clean plan tr facts owner)"
proof (cases "do_uid owner = 0")
  case False
  let ?P = "\<lambda>tr. runs_as clean plan tr facts owner"
  let ?mounts = "ct_mount_destinations facts @ ct_tmpfs_destinations facts"
  have step: "triple (identity_allows clean mounts plan) ?P
      (if list_ex (\<lambda>mount. path_starts_with directory (clean mount)) ?mounts then give ()
       else and_then (stat_container_path rt directory) (\<lambda>stat.
         if \<not> (case stat of Some s \<Rightarrow> ps_kind s = Directory | None \<Rightarrow> False) then give ()
         else take_over_if_roots rt owner directory)) (\<lambda>_. ?P)" if "path_starts_with directory (ip_home plan)" for directory
  proof (cases "list_ex (\<lambda>mount. path_starts_with directory (clean mount)) ?mounts")
    case outside: False
    have "triple (identity_allows clean mounts plan) (\<lambda>tr. Statted directory stat \<in> set tr \<and> ?P tr)
        (if \<not> (case stat of Some s \<Rightarrow> ps_kind s = Directory | None \<Rightarrow> False) then give () else take_over_if_roots rt owner directory) (\<lambda>_. ?P)" for stat
    proof (cases "\<exists>s. stat = Some s \<and> ps_kind s = Directory")
      case True
      then obtain s where s: "stat = Some s" "ps_kind s = Directory" by blast
      have "triple (identity_allows clean mounts plan) (\<lambda>tr. Statted directory (Some s) \<in> set tr \<and> ?P tr)
          (take_over_if_roots rt owner directory) (\<lambda>_ tr. Statted directory (Some s) \<in> set tr \<and> ?P tr)"
      proof (rule triple_take_over[OF False])
        show "stable (\<lambda>tr. Statted directory (Some s) \<in> set tr \<and> ?P tr)"
          by (rule stable_conj[OF _ stable_runs_as]) (auto simp: stable_def)
      qed (use s(2) outside that in \<open>auto simp: list_ex_iff\<close>)
      then have "triple (identity_allows clean mounts plan) (\<lambda>tr. Statted directory (Some s) \<in> set tr \<and> ?P tr) (take_over_if_roots rt owner directory) (\<lambda>_. ?P)"
        by (rule triple_weaken) blast+
      with s show ?thesis by simp
    qed (auto intro!: triple_give split: option.split)
    from triple_bind[OF triple_keep[OF triple_stat stable_runs_as] this] outside show ?thesis by simp
  qed (auto intro: triple_give)
  have at_home: "path_starts_with directory (ip_home plan)" if "directory \<in> set (path_set (filter (\<lambda>directory. path_starts_with directory (ip_home plan)) ds))" for directory ds
  proof -
    have "set (last_of_equal xs) \<subseteq> set xs" for xs by (induction xs rule: last_of_equal.induct) auto
    with that show ?thesis unfolding path_set_def by fastforce
  qed
  show ?thesis unfolding hand_over_directories_made_for_mounts_def if_not_P[OF False]
    by (rule triple_each, rule step, rule at_home)
qed (auto simp: hand_over_directories_made_for_mounts_def intro: triple_give)

lemma triple_prepare_home:
  assumes "is_absolute (ip_home plan)" and "\<not> path_eq (ip_home plan) ''/''"
  shows "triple (identity_allows clean mounts plan) (\<lambda>tr. runs_as clean plan tr facts owner)
    (prepare_home clean rt (ip_home plan) owner facts) (\<lambda>_ tr. runs_as clean plan tr facts owner)"
proof -
  let ?home = "ip_home plan" and ?P = "\<lambda>tr. runs_as clean plan tr facts owner"
  let ?paths = "drop 1 (rev (ancestors ?home))"
  from assms(1) obtain cs where cs: "components ?home = Root_Dir # cs" by (auto simp: absolute_components)
  then have "cs \<noteq> []" using assms(2) by (simp add: path_eq_def components_root)
  moreover have "length (ancestors ?home) = Suc (length cs)" using last_ancestors_from[OF cs, of "Suc (length cs)"] by (simp add: ancestors_def cs)
  ultimately have ne: "?paths \<noteq> []" by simp
  obtain ps where "ancestors ?home = ?home # ps" using ancestors_Cons by blast
  moreover have "last ?paths = last (rev (ancestors ?home))" using ne by (intro last_drop) simp
  ultimately have last: "last ?paths = ?home" by simp
  have pre: "\<forall>p \<in> set ?paths. path_starts_with ?home p" using ancestors_prefix by (auto dest: in_set_dropD)
  have root: "path_starts_with ?home ''/''" by (simp add: path_starts_with_def cs components_root)
  note down = triple_descend[OF root pre ne _ stable_runs_as]
  have create: "triple (identity_allows clean mounts plan) (\<lambda>tr. ?P tr \<and> found_ok ?home into tr)
      (create_home rt ?home into owner) (\<lambda>_. ?P)" if "path_starts_with ?home into" for into
  proof -
    from strip_prefix_path_Some[OF that] obtain relative where rel: "strip_prefix_path ?home into = Some relative" by blast
    have kept: "?P (tr @ [ev])" if "?P tr" for tr ev using stable_runs_as that unfolding stable_def by (metis set_append sup_ge1)
    show ?thesis unfolding create_home_def rel option.case create_container_directories_def
      by (rule triple_perform, simp, unfold identity_allows.simps found_ok_def, blast) (blast intro: kept)
  qed
  show ?thesis unfolding prepare_home_def
  proof (rule triple_bind[OF down])
    fix found
    let ?Q = "\<lambda>tr. ?P tr \<and> (case found of Home_Is _ \<Rightarrow> True
      | Found_Down_To into \<Rightarrow> found_ok ?home into tr)"
    show "triple (identity_allows clean mounts plan) ?Q (case found of
         Home_Is kind \<Rightarrow> if kind = Directory then hand_over_directories_made_for_mounts clean rt ?home owner facts else give ()
       | Found_Down_To into \<Rightarrow>
           (case max_by_key (\<lambda>tmpfs. length (components (clean tmpfs)))
               (filter (\<lambda>tmpfs. path_starts_with ?home (clean tmpfs)) (ct_tmpfs_destinations facts)) of
              Some tmpfs \<Rightarrow>
                if \<not> (path_eq (clean tmpfs) ?home \<or>
                    list_ex (\<lambda>mount. path_starts_with ?home mount \<and> path_starts_with mount (clean tmpfs)) (ct_mount_destinations facts))
                then refuse (Hidden_By_Tmpfs ?home tmpfs)
                else create_home rt ?home into owner
            | None \<Rightarrow> create_home rt ?home into owner)) (\<lambda>_. ?P)"
    proof (cases found)
      case (Home_Is kind)
      show ?thesis unfolding Home_Is descent.case
        by (cases "kind = Directory") (auto intro: triple_weaken[OF triple_hand_over] triple_give)
    next
      case (Found_Down_To into)
      show ?thesis
      proof (cases "path_starts_with ?home into")
        case True
        then show ?thesis unfolding Found_Down_To descent.case
          by (auto intro!: create triple_refuse split: option.split)
      next
        case False
        then show ?thesis unfolding Found_Down_To by (auto simp: triple_def found_ok_def)
      qed
    qed
  qed (use last in \<open>simp_all add: path_eq_def\<close>)
qed

lemma triple_claim_caches:
  "triple (identity_allows clean mounts plan) (\<lambda>tr. runs_as clean plan tr facts owner) (claim_caches clean rt mounts owner)
     (\<lambda>_ tr. runs_as clean plan tr facts owner)"
proof (cases "do_uid owner = 0")
  case False
  have "triple (identity_allows clean mounts plan) (\<lambda>tr. runs_as clean plan tr facts owner)
      (if (case bm_source mount of Named_Volume _ \<Rightarrow> False | Host_Path _ \<Rightarrow> True) \<or> is_read_only (bm_options mount) then give ()
       else take_over_if_roots rt owner (clean (bm_container mount))) (\<lambda>_ tr. runs_as clean plan tr facts owner)"
    if "mount \<in> set (or_empty mounts)" for mount
  proof (cases "(case bm_source mount of Named_Volume _ \<Rightarrow> False | Host_Path _ \<Rightarrow> True) \<or> is_read_only (bm_options mount)")
    case volume: False
    then have "\<exists>v. bm_source mount = Named_Volume v" "\<not> is_read_only (bm_options mount)" by (cases "bm_source mount"; simp)+
    with that show ?thesis unfolding if_not_P[OF volume] by (intro triple_take_over[OF False stable_runs_as]) blast
  qed (auto intro: triple_give)
  from triple_each[OF this] False show ?thesis unfolding claim_caches_def by simp
qed (auto simp: claim_caches_def intro: triple_give)

lemma prefix_line_appended: "prefix f (with_line_appended f line)"
  by (simp add: with_line_appended_def)

lemma prefix_additional_groups: "prefix grp (with_additional_groups grp us)"
proof (induction us arbitrary: grp)
  case (Cons u us)
  let ?g = "if group_entry_taken grp (au_name u) (au_gid u) then grp else with_line_appended grp (group_line (au_name u) (au_gid u))"
  have "prefix grp ?g" by (simp add: prefix_line_appended)
  also have "prefix ?g (with_additional_groups ?g us)" by (rule Cons.IH)
  finally show ?case unfolding with_additional_groups_def fold_simps .
qed (simp add: with_additional_groups_def)

lemma triple_write_group:
  assumes "prefix (fl_contents g) contents" and "stable P"
    and "\<And>tr. P tr \<Longrightarrow> plain_file_read clean tr facts GROUP_PATH g \<and> (\<exists>w. File_Written PASSWD_PATH w \<in> set tr)"
  shows "triple (identity_allows clean mounts plan) P (write_group_if_changed rt g contents) (\<lambda>_. P)"
proof (cases "contents = fl_contents g")
  case False
  have kept: "P (tr @ [ev])" if "P tr" for tr ev using assms(2) that unfolding stable_def by (metis set_append sup_ge1)
  have "same_ownership (g\<lparr>fl_contents := contents\<rparr>) g" by (simp add: same_ownership_def)
  with assms(1,3) have "identity_allows clean mounts plan tr (File_Written GROUP_PATH (g\<lparr>fl_contents := contents\<rparr>))" if "P tr" for tr
    unfolding identity_allows.simps by (intro exI[of _ facts] exI[of _ g]) (use that in simp)
  with kept show ?thesis unfolding write_group_if_changed_def write_container_file_def if_not_P[OF False]
    by (intro triple_perform) simp_all
qed (auto simp: write_group_if_changed_def intro: triple_give)

lemma triple_write_passwd:
  assumes "\<And>tr. P tr \<Longrightarrow> plain_file_read clean tr facts PASSWD_PATH f0" and "stable P"
    and "\<And>tr. P tr \<Longrightarrow> needs_group plan \<Longrightarrow> \<exists>g. plain_file_read clean tr facts GROUP_PATH g"
    and "passwd_view contents = expected_entries plan facts (passwd_view (fl_contents f0))"
  shows "triple (identity_allows clean mounts plan) P (write_container_file rt PASSWD_PATH (f0\<lparr>fl_contents := contents\<rparr>))
    (\<lambda>_ tr. (\<exists>f. File_Written PASSWD_PATH f \<in> set tr) \<and> P tr)"
proof -
  have kept: "P (tr @ [ev])" if "P tr" for tr ev using assms(2) that unfolding stable_def by (metis set_append sup_ge1)
  have "same_ownership (f0\<lparr>fl_contents := contents\<rparr>) f0" by (simp add: same_ownership_def)
  with assms(1,3,4) have "identity_allows clean mounts plan tr (File_Written PASSWD_PATH (f0\<lparr>fl_contents := contents\<rparr>))" if "P tr" for tr
    unfolding identity_allows.simps by (intro exI[of _ facts] exI[of _ f0]) (use that in simp)
  with kept show ?thesis unfolding write_container_file_def by (intro triple_perform) auto
qed

text \<open>A plan a configuration check let through, with a host user whose name fits a passwd line.\<close>

definition plan_ok :: "identity_plan \<Rightarrow> bool" where
  "plan_ok plan \<longleftrightarrow> check_identity_home (ip_home plan) = Ok () \<and> last (ip_home plan) \<noteq> CHR '' '' \<and>
     users_sound (ip_additional_users plan) \<and> (\<forall>who. ip_host_user plan = Some who \<longrightarrow> name_fits (cu_username who))"

lemma plan_ok_home:
  assumes "plan_ok plan"
  shows "home_fits (ip_home plan)" and "is_absolute (ip_home plan)" and "\<not> path_eq (ip_home plan) ''/''"
    and "\<forall>u \<in> set (ip_additional_users plan). is_user_name (au_name u)"
proof -
  let ?h = "ip_home plan"
  from assms have h: "starts_with ?h ''/''" "CHR '':'' \<notin> set ?h" "\<not> list_ex is_control ?h" "file_name ?h \<noteq> None" "last ?h \<noteq> CHR '' ''"
    by (auto simp: plan_ok_def check_identity_home_def check_home_directory_def split: if_splits)
  then show "is_absolute ?h" by (auto simp: starts_with_iff is_absolute_def)
  from h(1) have "?h \<noteq> []" by (auto simp: starts_with_iff)
  moreover have "\<not> is_control (last ?h)" using h(3) \<open>?h \<noteq> []\<close> by (simp add: list_ex_iff)
  moreover have "CHR 10 \<notin> set ?h" using h(3) by (auto simp: list_ex_iff char_class_defs)
  ultimately show "home_fits ?h" using h(2,5) by (auto simp: home_fits_def is_ascii_whitespace_def char_class_defs)
  show "\<not> path_eq ?h ''/''" using h(4) by (auto simp: path_eq_def components_root file_name_def)
  show "\<forall>u \<in> set (ip_additional_users plan). is_user_name (au_name u)" using assms by (simp add: plan_ok_def users_sound_def)
qed

definition done_or_no_such_user :: "(string \<Rightarrow> string) \<Rightarrow> identity_plan \<Rightarrow> event list \<Rightarrow> bool" where
  "done_or_no_such_user clean plan tr \<longleftrightarrow> (\<exists>f. File_Written PASSWD_PATH f \<in> set tr) \<or>
     ip_host_user plan = None \<and> (\<exists>facts f0. plain_file_read clean tr facts PASSWD_PATH f0 \<and>
       snd (edit_home_spec (passwd_view (fl_contents f0)) (ct_user facts) (ip_home plan)) = None)"

lemma users_added_view:
  assumes "with_additional_users passwd us = Ok contents" and "\<forall>u \<in> set us. is_user_name (au_name u)"
  shows "passwd_view contents = passwd_view passwd @ map user_view us"
  using add_users_view[OF assms(2), of passwd passwd] assms(1) by (simp add: with_additional_users_def)

lemma triple_adopt_host_user:
  assumes "plan_ok plan" and "ip_host_user plan = Some who"
  shows "triple (identity_allows clean mounts plan) (\<lambda>tr. plain_file_read clean tr facts PASSWD_PATH passwd)
    (adopt_host_user clean rt mounts plan who facts passwd) (\<lambda>_ tr. done_or_no_such_user clean plan tr)"
proof -
  let ?A = "identity_allows clean mounts plan" and ?owner = "\<lparr>do_uid = cu_uid who, do_gid = cu_gid who\<rparr>"
  let ?P = "\<lambda>g tr. plain_file_read clean tr facts GROUP_PATH g \<and> plain_file_read clean tr facts PASSWD_PATH passwd"
  have read: "triple ?A (\<lambda>tr. plain_file_read clean tr facts PASSWD_PATH passwd) (read_identity_file clean rt facts GROUP_PATH) ?P"
    by (rule triple_keep[OF triple_weaken[OF triple_read_identity_file] stable_read]) (auto simp: plain_file_read_def)
  have entries: "passwd_view contents = expected_entries plan facts (passwd_view (fl_contents passwd))"
    if "with_additional_users (edit_passwd_for_host_user (fl_contents passwd) who (ip_home plan)) (ip_additional_users plan) = Ok contents" for contents
    using users_added_view[OF that plan_ok_home(4)[OF assms(1)]] edit_passwd_for_host_user_view[OF plan_ok_home(1)[OF assms(1)], of who] assms
    by (simp add: expected_entries_def plan_ok_def)
  have wrote: "triple ?A (?P g) (write_container_file rt PASSWD_PATH (passwd\<lparr>fl_contents := contents\<rparr>))
      (\<lambda>_ tr. (\<exists>f. File_Written PASSWD_PATH f \<in> set tr) \<and> ?P g tr)"
    if "passwd_view contents = expected_entries plan facts (passwd_view (fl_contents passwd))" for g contents
    by (rule triple_write_passwd[OF _ stable_conj[OF stable_read stable_read] _ that]) auto
  have more: "prefix (fl_contents g) (with_additional_groups (case edit_group_for_host_user (fl_contents g) who of Some g \<Rightarrow> g | None \<Rightarrow> fl_contents g)
      (ip_additional_users plan))" for g
    by (rule prefix_order.trans[OF _ prefix_additional_groups]) (simp add: edit_group_for_host_user_def prefix_line_appended)
  have wgrp: "triple ?A (\<lambda>tr. (\<exists>f. File_Written PASSWD_PATH f \<in> set tr) \<and> ?P g tr) (write_group_if_changed rt g contents)
      (\<lambda>_ tr. (\<exists>f. File_Written PASSWD_PATH f \<in> set tr) \<and> ?P g tr)" if "prefix (fl_contents g) contents" for g contents
    by (rule triple_write_group[OF that stable_conj[OF stable_written stable_conj[OF stable_read stable_read]], where facts = facts]) auto
  have rest: "triple ?A (\<lambda>tr. (\<exists>f. File_Written PASSWD_PATH f \<in> set tr) \<and> ?P g tr)
      (and_then (prepare_home clean rt (ip_home plan) ?owner facts) (\<lambda>_. claim_caches clean rt mounts ?owner))
      (\<lambda>_ tr. done_or_no_such_user clean plan tr)" for g
    by (rule triple_weaken[OF triple_bind[OF triple_prepare_home[where facts = facts, OF plan_ok_home(2,3)[OF assms(1)]] triple_claim_caches]])
      (auto simp: runs_as_def assms(2) done_or_no_such_user_def)
  show ?thesis unfolding adopt_host_user_def
  proof (rule triple_bind[OF read])
    fix g
    show "triple ?A (?P g) (case with_additional_users (edit_passwd_for_host_user (fl_contents passwd) who (ip_home plan)) (ip_additional_users plan) of
         Err e \<Rightarrow> refuse (Users e)
       | Ok contents \<Rightarrow>
           and_then (write_container_file rt PASSWD_PATH (passwd\<lparr>fl_contents := contents\<rparr>)) (\<lambda>_.
             let contents = with_additional_groups
                   (case edit_group_for_host_user (fl_contents g) who of Some g \<Rightarrow> g | None \<Rightarrow> fl_contents g) (ip_additional_users plan);
                 owner = ?owner
             in and_then (write_group_if_changed rt g contents) (\<lambda>_.
                and_then (prepare_home clean rt (ip_home plan) owner facts) (\<lambda>_.
                  claim_caches clean rt mounts owner)))) (\<lambda>_ tr. done_or_no_such_user clean plan tr)"
      unfolding Let_def
      by (auto split: sum.split intro!: triple_refuse triple_bind[OF wrote[OF entries] triple_bind[OF wgrp[OF more] rest]])
  qed
qed

lemma triple_keep_image_user:
  assumes "plan_ok plan" and "ip_host_user plan = None"
  shows "triple (identity_allows clean mounts plan) (\<lambda>tr. plain_file_read clean tr facts PASSWD_PATH passwd)
    (keep_image_user clean rt plan facts passwd) (\<lambda>_ tr. done_or_no_such_user clean plan tr)"
proof -
  let ?A = "identity_allows clean mounts plan" and ?edit = "edit_passwd_home (fl_contents passwd) (ct_user facts) (ip_home plan)"
  let ?R = "\<lambda>tr. plain_file_read clean tr facts PASSWD_PATH passwd"
  let ?G = "\<lambda>grp tr. (case grp of None \<Rightarrow> ip_additional_users plan = [] | Some g \<Rightarrow> plain_file_read clean tr facts GROUP_PATH g)"
  let ?W = "\<lambda>tr. \<exists>f. File_Written PASSWD_PATH f \<in> set tr"
  note view = edit_passwd_home_view[OF plan_ok_home(1)[OF assms(1)], of "fl_contents passwd" "ct_user facts"]
  have stable_G: "stable (?G grp)" for grp by (cases grp) (simp_all add: stable_read stable_def[of "\<lambda>_. _"])
  note stable_P = stable_conj[OF stable_G stable_read]
  have read: "triple ?A ?R (if ip_additional_users plan = [] then give None
      else and_then (read_identity_file clean rt facts GROUP_PATH) (\<lambda>g. give (Some g))) (\<lambda>grp tr. ?G grp tr \<and> ?R tr)"
  proof (cases "ip_additional_users plan = []")
    case False
    have "triple ?A ?R (read_identity_file clean rt facts GROUP_PATH) (\<lambda>g tr. plain_file_read clean tr facts GROUP_PATH g \<and> ?R tr)"
      by (rule triple_keep[OF triple_weaken[OF triple_read_identity_file] stable_read]) (auto simp: plain_file_read_def)
    with False show ?thesis by (auto intro!: triple_bind triple_give)
  qed (auto intro: triple_give)
  show ?thesis
  proof (cases "ed_home_owner ?edit")
    case None
    with view have "snd (edit_home_spec (passwd_view (fl_contents passwd)) (ct_user facts) (ip_home plan)) = None" by (metis snd_conv)
    then show ?thesis unfolding keep_image_user_def Let_def None option.case
      by (intro triple_give) (use assms(2) in \<open>unfold done_or_no_such_user_def, blast\<close>)
  next
    case (Some owner)
    have entries: "passwd_view contents = expected_entries plan facts (passwd_view (fl_contents passwd))"
      if "with_additional_users (ed_contents ?edit) (ip_additional_users plan) = Ok contents" for contents
      using users_added_view[OF that plan_ok_home(4)[OF assms(1)]] view by (simp add: expected_entries_def assms(2) prod_eq_iff)
    have wrote: "triple ?A (\<lambda>tr. ?G grp tr \<and> ?R tr) (write_container_file rt PASSWD_PATH (passwd\<lparr>fl_contents := contents\<rparr>))
        (\<lambda>_ tr. ?W tr \<and> ?G grp tr \<and> ?R tr)"
      if "passwd_view contents = expected_entries plan facts (passwd_view (fl_contents passwd))" for grp contents
      by (rule triple_write_passwd[OF _ stable_P _ that]) (auto simp: needs_group_def assms(2) split: option.splits)
    have wgrp: "triple ?A (\<lambda>tr. ?W tr \<and> ?G grp tr \<and> ?R tr) (case grp of None \<Rightarrow> give ()
        | Some g \<Rightarrow> write_group_if_changed rt g (with_additional_groups (fl_contents g) (ip_additional_users plan))) (\<lambda>_ tr. ?W tr \<and> ?G grp tr \<and> ?R tr)" for grp
    proof (cases grp)
      case (Some g)
      show ?thesis unfolding Some option.case
        by (rule triple_write_group[OF prefix_additional_groups stable_conj[OF stable_written stable_conj[OF stable_read stable_read]], where facts = facts]) auto
    qed (auto intro: triple_give)
    have home: "triple ?A (\<lambda>tr. ?W tr \<and> ?G grp tr \<and> ?R tr) (prepare_home clean rt (ip_home plan) owner facts)
        (\<lambda>_ tr. done_or_no_such_user clean plan tr)" for grp
      by (rule triple_weaken[OF triple_prepare_home[where facts = facts, OF plan_ok_home(2,3)[OF assms(1)]]])
        (use view Some in \<open>auto simp: runs_as_def assms(2) done_or_no_such_user_def prod_eq_iff\<close>)
    show ?thesis
    proof (cases "with_additional_users (ed_contents ?edit) (ip_additional_users plan)")
      case (Inl e)
      show ?thesis unfolding keep_image_user_def Let_def Some option.case Inl sum.case by (rule triple_refuse) simp
    next
      case (Inr contents)
      show ?thesis unfolding keep_image_user_def Let_def Some option.case Inr sum.case
        by (rule triple_bind[OF read triple_bind[OF wrote[OF entries[OF Inr]] triple_bind[OF wgrp home]]])
    qed
  qed
qed

lemma triple_apply_plan:
  assumes "plan_ok plan"
  shows "triple (identity_allows clean mounts plan) (\<lambda>_. True) (apply_plan clean rt name mounts plan) (\<lambda>_ tr. done_or_no_such_user clean plan tr)"
proof -
  let ?A = "identity_allows clean mounts plan"
  have facts: "triple ?A (\<lambda>_. True) (perform (rt_facts rt) Facts_Asked) (\<lambda>facts tr. Facts_Asked facts \<in> set tr)"
    by (rule triple_perform) simp_all
  have daemon: "triple ?A (\<lambda>tr. Facts_Asked facts \<in> set tr) (perform (rt_class rt) Class_Asked) (\<lambda>_ tr. Facts_Asked facts \<in> set tr)" for facts
    by (rule triple_perform) simp_all
  have warned: "triple ?A (\<lambda>tr. Facts_Asked facts \<in> set tr) (warn w) (\<lambda>_ tr. Facts_Asked facts \<in> set tr)" for facts w
    unfolding warn_def by (cases w) (auto intro: triple_give triple_perform)
  have warning: "triple ?A (\<lambda>tr. Facts_Asked facts \<in> set tr) (if ip_host_user plan = None
      then and_then (perform (rt_class rt) Class_Asked) (\<lambda>daemon. warn (image_user_warning name (ct_user facts) daemon)) else give ())
      (\<lambda>_ tr. Facts_Asked facts \<in> set tr)" for facts
    using triple_bind[OF daemon warned] by (auto intro: triple_give)
  show ?thesis unfolding apply_plan_def
    by (rule triple_bind[OF facts], rule triple_bind[OF warning], rule triple_bind[OF triple_read_identity_file])
      (auto split: option.split intro: triple_adopt_host_user[OF assms] triple_keep_image_user[OF assms])
qed


definition example_scratch_runtime :: "unit runtime" where
  "example_scratch_runtime = \<lparr>rt_facts = (\<lambda>_. Ok \<lparr>ct_user = [], ct_mount_destinations = [], ct_tmpfs_destinations = []\<rparr>),
     rt_class = (\<lambda>_. Ok Rootful_Linux), rt_stat = (\<lambda>_ _. Ok None), rt_read = (\<lambda>_ _. Err ()), rt_write = (\<lambda>_ _ _. Ok ()),
     rt_ownership = (\<lambda>_ _. Err ()), rt_set_ownership = (\<lambda>_ _ _ _. Err ()), rt_create_directories = (\<lambda>_ _ _ _. Ok ())\<rparr>"

definition example_plan :: identity_plan where
  "example_plan = \<lparr>ip_home = ''/home/dev'', ip_host_user = Some \<lparr>cu_uid = 1000, cu_gid = 100, cu_username = ''dev'', cu_groupname = ''users''\<rparr>,
     ip_additional_users = []\<rparr>"


end
