(* ===== verification/Build_Context.thy ===== *)
theory Build_Context
  imports Rust_Std "HOL-Library.Sublist"
begin

text \<open>
  Which files a build sends (\<open>src/dockerignore\<close>, and \<open>build_context_tar\<close> of \<open>src/ratect-core/src/docker.rs\<close>): reading
  \<open>.dockerignore\<close>, compiling its patterns, matching paths, and walking the build directory. Parameters are
  \<open>path_clean::clean\<close>, the \<open>regex\<close> crate, and the directory as a tree of what \<open>read_dir\<close> lists.
\<close>

section \<open>Reading an ignore file\<close>

text \<open>
  The lines as \<open>BufRead::lines\<close> gives them, one of which may fail. \<open>strip_bom\<close> takes U+FEFF off the first, which the
  texts here cannot hold.
\<close>

fun ignore_line :: "(string \<Rightarrow> string) \<Rightarrow> string \<Rightarrow> string option" where
  "ignore_line clean line =
     (if starts_with line ''#'' then None
      else let pattern = trim line in
        if pattern = [] then None
        else let invert = starts_with pattern ''!'';
                 pattern = (if invert then trim (drop 1 pattern) else pattern);
                 pattern = (if pattern \<noteq> [] then
                    (let cleaned = clean pattern in if length cleaned > 1 \<and> starts_with cleaned ''/'' then drop 1 cleaned else cleaned)
                   else pattern)
             in Some (if invert then ''!'' @ pattern else pattern))"

fun read_ignore_lines :: "(string \<Rightarrow> string) \<Rightarrow> ('e, string) result list \<Rightarrow> ('e, string list) result" where
  "read_ignore_lines clean [] = Ok []"
| "read_ignore_lines clean (Err e # ls) = Err e"
| "read_ignore_lines clean (Ok line # ls) = rbind (read_ignore_lines clean ls) (\<lambda>ps.
     Ok (case ignore_line clean line of None \<Rightarrow> ps | Some p \<Rightarrow> p # ps))"

definition read_ignore_file :: "(string \<Rightarrow> string) \<Rightarrow> (string \<Rightarrow> string) \<Rightarrow> ('e, string) result list \<Rightarrow> ('e, string list) result" where
  "read_ignore_file strip_bom clean ls =
     read_ignore_lines clean (case ls of Ok line # rest \<Rightarrow> Ok (strip_bom line) # rest | _ \<Rightarrow> ls)"

section \<open>Compiling patterns\<close>

datatype ignore_error = Invalid_Pattern string | Empty_Exclusion

datatype match_type = Match_Exact | Match_Prefix | Match_Suffix | Match_Regexp "string \<Rightarrow> bool"

datatype pattern_kind = Kind_Exact | Kind_Prefix | Kind_Suffix | Kind_Regexp

record ignore_pattern =
  cleaned_pattern :: string
  exclusion :: bool
  match_type :: match_type

definition should_escape :: "char \<Rightarrow> bool" where
  "should_escape c \<longleftrightarrow> c \<in> set ''.+()|{}$''"

definition skip_slash :: "string \<Rightarrow> string" where
  "skip_slash s = (case s of c # cs \<Rightarrow> if c = CHR ''/'' then cs else s | [] \<Rightarrow> [])"

lemma length_skip_slash [termination_simp]: "length (skip_slash s) \<le> length s"
  by (cases s) (auto simp: skip_slash_def)

lemma skip_slash_drop: "length (skip_slash (drop n s)) < Suc (length s)"
  using length_skip_slash[of "drop n s"] by simp

text \<open>The loop over the characters, with the regular expression so far, the kind, and whether it is the first turn.\<close>

function compile_from :: "string \<Rightarrow> pattern_kind \<Rightarrow> bool \<Rightarrow> string \<Rightarrow> string \<times> pattern_kind" where
  "compile_from reg kind first [] = (reg, kind)"
| "compile_from reg kind first (ch # cs) =
     (if ch = CHR ''*'' \<and> (case cs of c # _ \<Rightarrow> c = CHR ''*'' | [] \<Rightarrow> False) then
        (let rest = skip_slash (drop 1 cs);
             (reg', kind') = (if rest = [] then (if kind = Kind_Exact then (reg, Kind_Prefix) else (reg @ ''.*'', Kind_Regexp))
                              else (reg @ ''(.*/)?'', Kind_Regexp));
             kind'' = (if first then Kind_Suffix else kind')
         in compile_from reg' kind'' False rest)
      else if ch = CHR ''*'' then compile_from (reg @ ''[^/]*'') Kind_Regexp False cs
      else if ch = CHR ''?'' then compile_from (reg @ ''[^/]'') Kind_Regexp False cs
      else if should_escape ch then compile_from (reg @ [CHR 92, ch]) kind False cs
      else if ch = CHR 92 then
        (case cs of c # ds \<Rightarrow> compile_from (reg @ [CHR 92, c]) Kind_Regexp False ds
         | [] \<Rightarrow> compile_from (reg @ [CHR 92]) kind False [])
      else if ch = CHR ''['' \<or> ch = CHR '']'' then compile_from (reg @ [ch]) Kind_Regexp False cs
      else compile_from (reg @ [ch]) kind False cs)"
  by pat_completeness auto
termination
  by (relation "measure (\<lambda>(_, _, _, s). length s)") (auto simp: skip_slash_drop split: list.splits)

definition compile_pattern :: "(string \<Rightarrow> (string \<Rightarrow> bool) option) \<Rightarrow> string \<Rightarrow> (ignore_error, match_type) result" where
  "compile_pattern regex pattern =
     (case compile_from ''^'' Kind_Exact True pattern of
        (_, Kind_Exact) \<Rightarrow> Ok Match_Exact
      | (_, Kind_Prefix) \<Rightarrow> Ok Match_Prefix
      | (_, Kind_Suffix) \<Rightarrow> Ok Match_Suffix
      | (reg, Kind_Regexp) \<Rightarrow> (case regex (reg @ ''$'') of
            None \<Rightarrow> Err (Invalid_Pattern pattern)
          | Some re \<Rightarrow> Ok (Match_Regexp re)))"

definition pattern_matches :: "ignore_pattern \<Rightarrow> string \<Rightarrow> bool" where
  "pattern_matches p path = (case match_type p of
       Match_Exact \<Rightarrow> path = cleaned_pattern p
     | Match_Prefix \<Rightarrow> starts_with path (take (length (cleaned_pattern p) - 2) (cleaned_pattern p))
     | Match_Suffix \<Rightarrow>
         (let suffix = drop 2 (cleaned_pattern p)
          in ends_with path suffix \<or> starts_with suffix ''/'' \<and> path = drop 1 suffix)
     | Match_Regexp re \<Rightarrow> re path)"

section \<open>Matchers\<close>

record pattern_matcher =
  pm_patterns :: "ignore_pattern list"
  pm_exclusions :: bool

definition add_pattern :: "(string \<Rightarrow> string) \<Rightarrow> (string \<Rightarrow> (string \<Rightarrow> bool) option) \<Rightarrow> string \<Rightarrow> pattern_matcher \<Rightarrow> (ignore_error, pattern_matcher) result" where
  "add_pattern clean regex raw pm =
     (let trimmed = trim raw in
      if trimmed = [] then Ok pm
      else let cleaned = clean trimmed; exclusion = starts_with cleaned ''!'' in
        if exclusion \<and> length cleaned = 1 then Err Empty_Exclusion
        else let cleaned = (if exclusion then drop 1 cleaned else cleaned);
                 pm = (if exclusion then pm\<lparr>pm_exclusions := True\<rparr> else pm)
             in rbind (compile_pattern regex cleaned) (\<lambda>m.
               Ok (pm\<lparr>pm_patterns := pm_patterns pm @ [\<lparr>cleaned_pattern = cleaned, exclusion = exclusion, match_type = m\<rparr>]\<rparr>)))"

definition new_matcher :: "(string \<Rightarrow> string) \<Rightarrow> (string \<Rightarrow> (string \<Rightarrow> bool) option) \<Rightarrow> string list \<Rightarrow> (ignore_error, pattern_matcher) result" where
  "new_matcher clean regex patterns = fold_res (add_pattern clean regex) patterns \<lparr>pm_patterns = [], pm_exclusions = False\<rparr>"

definition parent_of :: "(string \<Rightarrow> string) \<Rightarrow> string \<Rightarrow> string" where
  "parent_of clean path = (case rsplit_once (CHR ''/'') path of
       Some (dir, _) \<Rightarrow> if dir = [] then ''/'' else clean dir
     | None \<Rightarrow> ''.'')"

definition parent_dirs_of :: "(string \<Rightarrow> string) \<Rightarrow> string \<Rightarrow> string list" where
  "parent_dirs_of clean path = (let parent_path = parent_of clean path in
     if parent_path = ''.'' then [] else split (CHR ''/'') parent_path)"

definition matches_any_parent :: "ignore_pattern \<Rightarrow> string list \<Rightarrow> bool" where
  "matches_any_parent p parent_dirs = list_ex (\<lambda>i. pattern_matches p (join ''/'' (take (Suc i) parent_dirs))) [0 ..< length parent_dirs]"

definition matches_or_parent_matches :: "(string \<Rightarrow> string) \<Rightarrow> pattern_matcher \<Rightarrow> string \<Rightarrow> bool" where
  "matches_or_parent_matches clean pm f =
     (let path = clean f in
      if path = ''.'' then False
      else let parent_dirs = parent_dirs_of clean path in
        fold (\<lambda>p matched.
          if exclusion p \<noteq> matched then matched
          else if pattern_matches p path \<or> (parent_dirs \<noteq> [] \<and> matches_any_parent p parent_dirs) then \<not> exclusion p
          else matched) (pm_patterns pm) False)"

section \<open>The build context\<close>

text \<open>A directory's entries in the order \<open>read_dir\<close> lists them; a symbolic link or special file is \<open>Special\<close>.\<close>

datatype fs_node =
    Plain string u32
  | Folder "(string \<times> fs_node) list"
  | Special

text \<open>Every regular file with the names on the way to it.\<close>

fun collect_build_context_entries :: "string list \<Rightarrow> fs_node \<Rightarrow> (string \<times> string \<times> u32) list"
  and collect_entries :: "string list \<Rightarrow> (string \<times> fs_node) list \<Rightarrow> (string \<times> string \<times> u32) list" where
  "collect_build_context_entries way (Folder entries) = collect_entries way entries"
| "collect_build_context_entries way (Plain contents mode) = [(join ''/'' way, contents, mode)]"
| "collect_build_context_entries way Special = []"
| "collect_entries way [] = []"
| "collect_entries way ((name, node) # entries) = collect_build_context_entries (way @ [name]) node @ collect_entries way entries"

record tar_entry =
  te_path :: string
  te_contents :: string
  te_mode :: u32
  te_uid :: nat
  te_gid :: nat

datatype 'e context_error = Ignore_Unreadable 'e | Ignore_Invalid ignore_error

definition context_entry :: "(string \<Rightarrow> string) \<Rightarrow> pattern_matcher \<Rightarrow> string \<Rightarrow> string \<times> string \<times> u32 \<Rightarrow> tar_entry option" where
  "context_entry clean matcher dockerfile e =
     (let (relative_path, contents, mode) = e; force_include = relative_path = dockerfile \<or> relative_path = ''.dockerignore'' in
      if \<not> force_include \<and> matches_or_parent_matches clean matcher relative_path then None
      else Some \<lparr>te_path = relative_path, te_contents = contents, te_mode = mode, te_uid = 0, te_gid = 0\<rparr>)"

definition build_context_tar ::
  "(string \<Rightarrow> string) \<Rightarrow> (string \<Rightarrow> string) \<Rightarrow> (string \<Rightarrow> (string \<Rightarrow> bool) option) \<Rightarrow> ('e, string) result list option \<Rightarrow>
   (string \<times> fs_node) list \<Rightarrow> string \<Rightarrow> ('e context_error, tar_entry list) result" where
  "build_context_tar strip_bom clean regex ignore_file entries dockerfile =
     rbind (case ignore_file of
         Some ls \<Rightarrow> map_err Ignore_Unreadable (read_ignore_file strip_bom clean ls)
       | None \<Rightarrow> Ok []) (\<lambda>patterns.
     rbind (map_err Ignore_Invalid (new_matcher clean regex patterns)) (\<lambda>matcher.
       Ok (List.map_filter (context_entry clean matcher dockerfile) (collect_build_context_entries [] (Folder entries)))))"

section \<open>The last match wins\<close>

text \<open>A pattern hits a path when it matches the path or one of the directories on the way to it.\<close>

definition hits :: "ignore_pattern \<Rightarrow> string list \<Rightarrow> bool" where
  "hits p names \<longleftrightarrow> (\<exists>k. 0 < k \<and> k \<le> length names \<and> pattern_matches p (join ''/'' (take k names)))"

definition ignored :: "ignore_pattern list \<Rightarrow> string list \<Rightarrow> bool" where
  "ignored ps names \<longleftrightarrow> (case List.find (\<lambda>p. hits p names) (rev ps) of None \<Rightarrow> False | Some p \<Rightarrow> \<not> exclusion p)"

lemma last_match_wins:
  "fold (\<lambda>p matched. if exclusion p \<noteq> matched then matched else if hit p then \<not> exclusion p else matched) ps False =
     (case List.find hit (rev ps) of None \<Rightarrow> False | Some p \<Rightarrow> \<not> exclusion p)"
  by (induction ps rule: rev_induct) auto

text \<open>A name in a directory, and what cleaning leaves as it is: a path of such names.\<close>

definition file_name_ok :: "string \<Rightarrow> bool" where
  "file_name_ok name \<longleftrightarrow> name \<noteq> [] \<and> name \<noteq> ''.'' \<and> name \<noteq> ''..'' \<and> CHR ''/'' \<notin> set name"

definition keeps_clean_paths :: "(string \<Rightarrow> string) \<Rightarrow> bool" where
  "keeps_clean_paths clean \<longleftrightarrow> (\<forall>names. names \<noteq> [] \<longrightarrow> list_all file_name_ok names \<longrightarrow> clean (join ''/'' names) = join ''/'' names)"

lemma join_snoc: "ps \<noteq> [] \<Longrightarrow> join sep (ps @ [p]) = join sep ps @ sep @ p"
proof (induction ps)
  case (Cons q ps)
  then show ?case by (cases "ps = []") (simp_all add: join_Cons)
qed simp

lemma split_join_names: "names \<noteq> [] \<Longrightarrow> list_all file_name_ok names \<Longrightarrow> split (CHR ''/'') (join ''/'' names) = names"
  by (rule split_join) (auto simp: list_all_iff file_name_ok_def)

lemma join_names_not: "names \<noteq> [] \<Longrightarrow> list_all file_name_ok names \<Longrightarrow> join ''/'' names \<noteq> [] \<and> join ''/'' names \<noteq> ''.''"
  by (cases names rule: remdups_adj.cases) (auto simp: file_name_ok_def append_eq_Cons_conv Cons_eq_append_conv)

lemma parent_dirs_names:
  assumes "keeps_clean_paths clean" and "names \<noteq> []" and "list_all file_name_ok names"
  shows "parent_dirs_of clean (join ''/'' names) = butlast names"
proof (cases names rule: rev_cases)
  case (snoc dirs name)
  have ok: "list_all file_name_ok dirs" "CHR ''/'' \<notin> set name" using assms(3) snoc by (simp_all add: file_name_ok_def)
  show ?thesis
  proof (cases "dirs = []")
    case True
    with snoc ok have "rsplit_once (CHR ''/'') (join ''/'' names) = None" by (simp add: rsplit_once_def)
    with True snoc show ?thesis by (simp add: parent_dirs_of_def parent_of_def)
  next
    case False
    with snoc have "join ''/'' names = join ''/'' dirs @ CHR ''/'' # name" by (simp add: join_snoc)
    with ok(2) have "rsplit_once (CHR ''/'') (join ''/'' names) = Some (join ''/'' dirs, name)" by (simp add: rsplit_once_Some)
    moreover have "clean (join ''/'' dirs) = join ''/'' dirs" using assms(1) False ok(1) by (simp add: keeps_clean_paths_def)
    ultimately show ?thesis using False ok(1) snoc join_names_not[OF False ok(1)]
      by (simp add: parent_dirs_of_def parent_of_def split_join_names)
  qed
qed (use assms(2) in simp)

lemma hits_names:
  assumes "names \<noteq> []"
  shows "hits p names \<longleftrightarrow> pattern_matches p (join ''/'' names) \<or> (butlast names \<noteq> [] \<and> matches_any_parent p (butlast names))"
proof -
  have "take (Suc i) (butlast names) = take (Suc i) names" if "i < length (butlast names)" for i
    using that by (simp add: take_butlast)
  then have parents: "matches_any_parent p (butlast names) \<longleftrightarrow> (\<exists>i < length (butlast names). pattern_matches p (join ''/'' (take (Suc i) names)))"
    by (auto simp: matches_any_parent_def list_ex_iff)
  show ?thesis
  proof
    assume "hits p names"
    then obtain k where k: "0 < k" "k \<le> length names" "pattern_matches p (join ''/'' (take k names))" by (auto simp: hits_def)
    show "pattern_matches p (join ''/'' names) \<or> (butlast names \<noteq> [] \<and> matches_any_parent p (butlast names))"
    proof (cases "k = length names")
      case False
      with k have "k - 1 < length (butlast names)" "Suc (k - 1) = k" by simp_all
      with k(3) show ?thesis unfolding parents by (metis length_greater_0_conv less_nat_zero_code not_gr_zero)
    qed (use k(3) in simp)
  next
    assume "pattern_matches p (join ''/'' names) \<or> (butlast names \<noteq> [] \<and> matches_any_parent p (butlast names))"
    then show "hits p names"
    proof
      assume "pattern_matches p (join ''/'' names)"
      with assms show ?thesis unfolding hits_def by (intro exI[of _ "length names"]) simp
    next
      assume "butlast names \<noteq> [] \<and> matches_any_parent p (butlast names)"
      then obtain i where "i < length (butlast names)" "pattern_matches p (join ''/'' (take (Suc i) names))" unfolding parents by blast
      then show ?thesis unfolding hits_def by (intro exI[of _ "Suc i"]) simp
    qed
  qed
qed

lemma matches_names:
  assumes "keeps_clean_paths clean" and "names \<noteq> []" and "list_all file_name_ok names"
  shows "matches_or_parent_matches clean pm (join ''/'' names) \<longleftrightarrow> ignored (pm_patterns pm) names"
proof -
  have "clean (join ''/'' names) = join ''/'' names" using assms by (simp add: keeps_clean_paths_def)
  then show ?thesis using join_names_not[OF assms(2,3)]
    unfolding matches_or_parent_matches_def Let_def ignored_def last_match_wins[symmetric]
    by (simp only: parent_dirs_names[OF assms] hits_names[OF assms(2)] if_False)
qed

section \<open>The files of a directory\<close>

fun node_at :: "fs_node \<Rightarrow> string list \<Rightarrow> fs_node option" where
  "node_at node [] = Some node"
| "node_at (Folder entries) (name # names) = (case map_of entries name of None \<Rightarrow> None | Some node \<Rightarrow> node_at node names)"
| "node_at _ (name # names) = None"

fun tree_ok :: "fs_node \<Rightarrow> bool" and entries_ok :: "(string \<times> fs_node) list \<Rightarrow> bool" where
  "tree_ok (Folder entries) = entries_ok entries"
| "tree_ok _ = True"
| "entries_ok [] = True"
| "entries_ok ((name, node) # entries) = (file_name_ok name \<and> name \<notin> fst ` set entries \<and> tree_ok node \<and> entries_ok entries)"

lemma collected_iff:
  "tree_ok node \<Longrightarrow> e \<in> set (collect_build_context_entries way node) \<longleftrightarrow>
     (\<exists>names contents mode. node_at node names = Some (Plain contents mode) \<and> e = (join ''/'' (way @ names), contents, mode))"
  "entries_ok entries \<Longrightarrow> e \<in> set (collect_entries way entries) \<longleftrightarrow>
     (\<exists>names contents mode. names \<noteq> [] \<and> node_at (Folder entries) names = Some (Plain contents mode) \<and> e = (join ''/'' (way @ names), contents, mode))"
proof (induction way node and way entries arbitrary: e and e rule: collect_build_context_entries_collect_entries.induct)
  case (1 way entries)
  have "node_at (Folder entries) [] \<noteq> Some (Plain c m)" for c m by simp
  with 1 show ?case by (metis tree_ok.simps(1) collect_build_context_entries.simps(1))
next
  case (2 way contents mode)
  show ?case
  proof -
    have "node_at (Plain contents mode) names = Some (Plain c m) \<longleftrightarrow> names = [] \<and> c = contents \<and> m = mode" for names c m
      by (cases names) auto
    then show ?thesis by auto
  qed
next
  case (3 way)
  have "node_at Special names \<noteq> Some (Plain c m)" for names c m by (cases names) auto
  then show ?case by simp
next
  case (4 way)
  have "names \<noteq> [] \<Longrightarrow> node_at (Folder []) names \<noteq> Some (Plain c m)" for names c m by (cases names) auto
  then show ?case by auto
next
  case (5 way name node entries)
  have down: "(\<exists>rest. names = name # rest \<and> node_at node rest = Some (Plain c m)) \<or> node_at (Folder entries) names = Some (Plain c m)"
    if "names \<noteq> []" "node_at (Folder ((name, node) # entries)) names = Some (Plain c m)" for names c m
    using that by (cases names) (auto split: option.splits if_splits)
  have up: "node_at (Folder ((name, node) # entries)) names = Some (Plain c m)"
    if "names \<noteq> []" "node_at (Folder entries) names = Some (Plain c m)" for names c m
    using 5(3) that by (cases names) (auto split: option.splits simp: map_of_eq_None_iff[symmetric])
  have left: "e \<in> set (collect_build_context_entries (way @ [name]) node) \<longleftrightarrow> (\<exists>names contents mode.
      node_at node names = Some (Plain contents mode) \<and> e = (join ''/'' (way @ name # names), contents, mode))"
    using 5(1) 5(3) by simp
  have right: "e \<in> set (collect_entries way entries) \<longleftrightarrow> (\<exists>names contents mode. names \<noteq> [] \<and>
      node_at (Folder entries) names = Some (Plain contents mode) \<and> e = (join ''/'' (way @ names), contents, mode))"
    using 5(2) 5(3) by simp
  show ?case
  proof
    assume "e \<in> set (collect_entries way ((name, node) # entries))"
    then consider names c m where "node_at node names = Some (Plain c m)" "e = (join ''/'' (way @ name # names), c, m)"
      | names c m where "names \<noteq> []" "node_at (Folder entries) names = Some (Plain c m)" "e = (join ''/'' (way @ names), c, m)"
      using left right by auto
    then show "\<exists>names c m. names \<noteq> [] \<and> node_at (Folder ((name, node) # entries)) names = Some (Plain c m) \<and> e = (join ''/'' (way @ names), c, m)"
    proof cases
      case (1 names c m)
      then show ?thesis by (intro exI[of _ "name # names"] exI[of _ c] exI[of _ m]) simp
    next
      case (2 names c m)
      with up show ?thesis by blast
    qed
  next
    assume "\<exists>names c m. names \<noteq> [] \<and> node_at (Folder ((name, node) # entries)) names = Some (Plain c m) \<and> e = (join ''/'' (way @ names), c, m)"
    then have "e \<in> set (collect_build_context_entries (way @ [name]) node) \<or> e \<in> set (collect_entries way entries)"
      unfolding left right using down by blast
    then show "e \<in> set (collect_entries way ((name, node) # entries))" by simp
  qed
qed

lemma in_set_map_filter: "e \<in> set (List.map_filter f xs) \<longleftrightarrow> (\<exists>x \<in> set xs. f x = Some e)"
  by (induction xs) (auto split: option.splits)

lemma node_at_names: "entries_ok entries \<Longrightarrow> node_at (Folder entries) names = Some node \<Longrightarrow> list_all file_name_ok names"
proof (induction names arbitrary: entries)
  case (Cons name names)
  then obtain child where child: "map_of entries name = Some child" "node_at child names = Some node" by (auto split: option.splits)
  have "file_name_ok name \<and> tree_ok child" if "entries_ok es" "map_of es name = Some child" for es
    using that by (induction es) (auto split: if_splits)
  then have ok: "file_name_ok name" "tree_ok child" using Cons.prems(1) child(1) by blast+
  show ?case
  proof (cases child)
    case (Folder es)
    with ok child(2) Cons.IH show ?thesis by simp
  qed (use ok child(2) in \<open>cases names; simp\<close>)+
qed simp

text \<open>
  C32 (build_context_exact): the build context holds exactly the regular files of the build directory that the ignore file keeps,
  each owned by root with its own contents and mode. A file is left out when the last pattern that matches
  it or a directory on the way to it is not an exclusion, unless it is the Dockerfile or \<open>.dockerignore\<close>.
\<close>

theorem build_context_exact:
  assumes "keeps_clean_paths clean" and "entries_ok entries"
    and "build_context_tar strip_bom clean regex ignore_file entries dockerfile = Ok sent"
  shows "\<exists>patterns matcher. (case ignore_file of None \<Rightarrow> patterns = [] | Some ls \<Rightarrow> read_ignore_file strip_bom clean ls = Ok patterns) \<and>
    new_matcher clean regex patterns = Ok matcher \<and>
    (\<forall>e. e \<in> set sent \<longleftrightarrow> (\<exists>names contents mode. node_at (Folder entries) names = Some (Plain contents mode) \<and>
      e = \<lparr>te_path = join ''/'' names, te_contents = contents, te_mode = mode, te_uid = 0, te_gid = 0\<rparr> \<and>
      (join ''/'' names = dockerfile \<or> join ''/'' names = ''.dockerignore'' \<or> \<not> ignored (pm_patterns matcher) names)))"
proof -
  from assms(3) obtain patterns matcher where
    p: "case ignore_file of None \<Rightarrow> patterns = [] | Some ls \<Rightarrow> read_ignore_file strip_bom clean ls = Ok patterns" and
    m: "new_matcher clean regex patterns = Ok matcher" and
    sent: "sent = List.map_filter (context_entry clean matcher dockerfile) (collect_build_context_entries [] (Folder entries))"
    unfolding build_context_tar_def by (auto split: option.splits)
  have "e \<in> set sent \<longleftrightarrow> (\<exists>names contents mode. node_at (Folder entries) names = Some (Plain contents mode) \<and>
      e = \<lparr>te_path = join ''/'' names, te_contents = contents, te_mode = mode, te_uid = 0, te_gid = 0\<rparr> \<and>
      (join ''/'' names = dockerfile \<or> join ''/'' names = ''.dockerignore'' \<or> \<not> ignored (pm_patterns matcher) names))" for e
  proof -
    have names: "matches_or_parent_matches clean matcher (join ''/'' names) \<longleftrightarrow> ignored (pm_patterns matcher) names"
      if "node_at (Folder entries) names = Some (Plain c m)" for names c m
      using node_at_names[OF assms(2) that] that by (intro matches_names[OF assms(1)]) (auto)
    have "tree_ok (Folder entries)" using assms(2) by simp
    note files = collected_iff(1)[OF this, of _ "[]"]
    have "e \<in> set sent \<longleftrightarrow> (\<exists>names c m. node_at (Folder entries) names = Some (Plain c m) \<and>
        context_entry clean matcher dockerfile (join ''/'' names, c, m) = Some e)"
      unfolding sent in_set_map_filter Bex_def files append_Nil by blast
    also have "\<dots> \<longleftrightarrow> (\<exists>names c m. node_at (Folder entries) names = Some (Plain c m) \<and>
        e = \<lparr>te_path = join ''/'' names, te_contents = c, te_mode = m, te_uid = 0, te_gid = 0\<rparr> \<and>
        (join ''/'' names = dockerfile \<or> join ''/'' names = ''.dockerignore'' \<or> \<not> ignored (pm_patterns matcher) names))"
      by (intro ex_cong1 conj_cong refl) (auto simp: context_entry_def Let_def names split: if_splits)
    finally show ?thesis .
  qed
  with p m show ?thesis by blast
qed

section \<open>What a pattern means\<close>

text \<open>The parts of a pattern without character classes and escapes.\<close>

datatype glob = G_Lit char | G_One | G_Star | G_Deep

fun globs :: "string \<Rightarrow> glob list" where
  "globs [] = []"
| "globs [c] = [if c = CHR ''*'' then G_Star else if c = CHR ''?'' then G_One else G_Lit c]"
| "globs (c # d # cs) =
     (if c = CHR ''*'' \<and> d = CHR ''*'' then G_Deep # globs (skip_slash cs)
      else (if c = CHR ''*'' then G_Star else if c = CHR ''?'' then G_One else G_Lit c) # globs (d # cs))"

text \<open>
  \<open>?\<close> is one character of a name, \<open>*\<close> any part of a name, \<open>**\<close> any directories, or anything at all at the end.
\<close>

fun glob_matches :: "glob list \<Rightarrow> string \<Rightarrow> bool" where
  "glob_matches [] p \<longleftrightarrow> p = []"
| "glob_matches (G_Lit c # gs) p \<longleftrightarrow> (\<exists>q. p = c # q \<and> glob_matches gs q)"
| "glob_matches (G_One # gs) p \<longleftrightarrow> (\<exists>c q. p = c # q \<and> c \<noteq> CHR ''/'' \<and> glob_matches gs q)"
| "glob_matches (G_Star # gs) p \<longleftrightarrow> (\<exists>a q. p = a @ q \<and> CHR ''/'' \<notin> set a \<and> glob_matches gs q)"
| "glob_matches (G_Deep # gs) p \<longleftrightarrow> gs = [] \<or> glob_matches gs p \<or> (\<exists>a q. p = a @ CHR ''/'' # q \<and> glob_matches gs q)"

text \<open>
  The regular expressions the compiler writes, as items with their text and their documented meaning: a character,
  \<open>[^/]\<close>, \<open>[^/]*\<close>, \<open>(.*/)?\<close> and \<open>.*\<close>. The dot does not match a line feed.
\<close>

datatype rx_item = Rx_Char char | Rx_Not_Slash | Rx_Not_Slashes | Rx_Dirs | Rx_All

fun rx_text :: "rx_item \<Rightarrow> string" where
  "rx_text (Rx_Char c) = (if should_escape c then [CHR 92, c] else [c])"
| "rx_text Rx_Not_Slash = ''[^/]''"
| "rx_text Rx_Not_Slashes = ''[^/]*''"
| "rx_text Rx_Dirs = ''(.*/)?''"
| "rx_text Rx_All = ''.*''"

fun rx_matches :: "rx_item list \<Rightarrow> string \<Rightarrow> bool" where
  "rx_matches [] p \<longleftrightarrow> p = []"
| "rx_matches (Rx_Char c # rs) p \<longleftrightarrow> (\<exists>q. p = c # q \<and> rx_matches rs q)"
| "rx_matches (Rx_Not_Slash # rs) p \<longleftrightarrow> (\<exists>c q. p = c # q \<and> c \<noteq> CHR ''/'' \<and> rx_matches rs q)"
| "rx_matches (Rx_Not_Slashes # rs) p \<longleftrightarrow> (\<exists>a q. p = a @ q \<and> CHR ''/'' \<notin> set a \<and> rx_matches rs q)"
| "rx_matches (Rx_Dirs # rs) p \<longleftrightarrow> rx_matches rs p \<or> (\<exists>a q. p = a @ CHR ''/'' # q \<and> CHR 10 \<notin> set a \<and> rx_matches rs q)"
| "rx_matches (Rx_All # rs) p \<longleftrightarrow> (\<exists>a q. p = a @ q \<and> CHR 10 \<notin> set a \<and> rx_matches rs q)"

definition rx_plain_char :: "char \<Rightarrow> bool" where
  "rx_plain_char c \<longleftrightarrow> c \<notin> set ''[]^*?'' \<and> c \<noteq> CHR 92"

fun item_ok :: "rx_item \<Rightarrow> bool" where
  "item_ok (Rx_Char c) = rx_plain_char c"
| "item_ok _ = True"

definition reads_items :: "(string \<Rightarrow> (string \<Rightarrow> bool) option) \<Rightarrow> bool" where
  "reads_items regex \<longleftrightarrow> (\<forall>rs. list_all item_ok rs \<longrightarrow> regex (''^'' @ concat (map rx_text rs) @ ''$'') = Some (rx_matches rs))"

fun items :: "glob list \<Rightarrow> rx_item list" where
  "items [] = []"
| "items (G_Lit c # gs) = Rx_Char c # items gs"
| "items (G_One # gs) = Rx_Not_Slash # items gs"
| "items (G_Star # gs) = Rx_Not_Slashes # items gs"
| "items (G_Deep # gs) = (if gs = [] then [Rx_All] else Rx_Dirs # items gs)"

definition plain_pattern :: "string \<Rightarrow> bool" where
  "plain_pattern s \<longleftrightarrow> CHR 92 \<notin> set s \<and> CHR ''['' \<notin> set s \<and> CHR '']'' \<notin> set s \<and> CHR ''^'' \<notin> set s"

lemma rx_matches_items: "CHR 10 \<notin> set p \<Longrightarrow> rx_matches (items gs) p \<longleftrightarrow> glob_matches gs p"
proof (induction gs arbitrary: p)
  case (Cons g gs)
  show ?case
  proof (cases g)
    case G_Deep
    have "rx_matches [Rx_All] p" using Cons.prems by (auto intro: exI[of _ p])
    moreover have "rx_matches (items gs) q \<longleftrightarrow> glob_matches gs q" if "p = a @ CHR ''/'' # q" for a q using Cons that by auto
    moreover have "CHR 10 \<notin> set a" if "p = a @ q" for a q using Cons.prems that by auto
    ultimately show ?thesis using G_Deep Cons by (auto; metis)
  next
    case G_Star
    have "rx_matches (items gs) q \<longleftrightarrow> glob_matches gs q" if "p = a @ q" for a q using Cons that by auto
    then show ?thesis using G_Star by (auto; metis)
  qed (use Cons in auto)
qed simp

lemma globs_plain: "plain_pattern s \<Longrightarrow> list_all item_ok (items (globs s))"
proof (induction s rule: globs.induct)
  case (3 c d cs)
  have "plain_pattern (d # cs)" "plain_pattern (skip_slash cs)"
    using "3.prems" by (auto simp: plain_pattern_def skip_slash_def split: list.splits)
  with 3 show ?case by (auto simp: plain_pattern_def rx_plain_char_def)
qed (auto simp: plain_pattern_def rx_plain_char_def)

fun is_lit :: "glob \<Rightarrow> bool" where
  "is_lit (G_Lit _) = True"
| "is_lit _ = False"

definition rx_of :: "glob list \<Rightarrow> string" where
  "rx_of gs = concat (map rx_text (items gs))"

lemma rx_of_simps [simp]:
  "rx_of [] = []" "rx_of (G_Lit c # gs) = rx_text (Rx_Char c) @ rx_of gs" "rx_of (G_One # gs) = ''[^/]'' @ rx_of gs"
  "rx_of (G_Star # gs) = ''[^/]*'' @ rx_of gs" "rx_of (G_Deep # gs) = (if gs = [] then ''.*'' else ''(.*/)?'' @ rx_of gs)"
  by (simp_all add: rx_of_def)

text \<open>What the loop makes of a pattern after its first turn.\<close>

definition compiled :: "string \<Rightarrow> pattern_kind \<Rightarrow> glob list \<Rightarrow> string \<times> pattern_kind" where
  "compiled reg kind gs =
     (if list_all is_lit gs then (reg @ rx_of gs, kind)
      else if list_all is_lit (butlast gs) \<and> last gs = G_Deep \<and> kind = Kind_Exact then (reg @ rx_of (butlast gs), Kind_Prefix)
      else (reg @ rx_of gs, Kind_Regexp))"

lemma compiled_Lit: "compiled (reg @ rx_text (Rx_Char c)) kind gs = compiled reg kind (G_Lit c # gs)"
  by (auto simp: compiled_def)

lemma compiled_wild:
  "g \<in> {G_One, G_Star} \<Longrightarrow> compiled (reg @ rx_of [g]) Kind_Regexp gs = compiled reg kind (g # gs)"
  "gs \<noteq> [] \<Longrightarrow> compiled (reg @ ''(.*/)?'') Kind_Regexp gs = compiled reg kind (G_Deep # gs)"
  by (auto simp: compiled_def)

lemma globs_Nil [simp]: "globs s = [] \<longleftrightarrow> s = []"
  by (cases s rule: globs.cases) auto

lemma compile_from_globs: "plain_pattern s \<Longrightarrow> compile_from reg kind False s = compiled reg kind (globs s)"
proof (induction s arbitrary: reg kind rule: globs.induct)
  case 1
  show ?case by (simp add: compiled_def)
next
  case (2 c)
  then show ?case by (auto simp: plain_pattern_def compiled_def)
next
  case (3 c d cs)
  have tail: "plain_pattern (d # cs)" "plain_pattern (skip_slash cs)"
    using "3.prems" by (auto simp: plain_pattern_def skip_slash_def split: list.splits)
  show ?case
  proof (cases "c = CHR ''*'' \<and> d = CHR ''*''")
    case True
    with 3(1)[OF True tail(2)] show ?thesis
      by (cases "skip_slash cs = []") (auto simp: compiled_wild compiled_def Let_def)
  next
    case False
    note IH = 3(2)[OF False tail(1)]
    have c: "c \<noteq> CHR 92" "c \<noteq> CHR ''[''" "c \<noteq> CHR '']''" using "3.prems" by (auto simp: plain_pattern_def)
    consider "c = CHR ''*''" "d \<noteq> CHR ''*''" | "c = CHR ''?''" | "c \<noteq> CHR ''*''" "c \<noteq> CHR ''?''" using False by blast
    then show ?thesis
    proof cases
      case 1
      with IH compiled_wild(1)[of G_Star reg "globs (d # cs)" kind] show ?thesis by simp
    next
      case 2
      with IH compiled_wild(1)[of G_One reg "globs (d # cs)" kind] show ?thesis by simp
    next
      case 3
      with IH c compiled_Lit[of reg c kind "globs (d # cs)"] show ?thesis by (cases "should_escape c") simp_all
    qed
  qed
qed

lemma globs_lits: "list_all is_lit (globs s) \<Longrightarrow> globs s = map G_Lit s"
  by (induction s rule: globs.induct) (auto split: if_splits)

lemma globs_prefix: "globs s = map G_Lit l @ [G_Deep] \<Longrightarrow> s = l @ ''**'' \<or> s = l @ ''**/''"
proof (induction s arbitrary: l rule: globs.induct)
  case (3 c d cs)
  show ?case
  proof (cases "c = CHR ''*'' \<and> d = CHR ''*''")
    case True
    with "3.prems" have "l = [] \<and> skip_slash cs = []" by (cases l) auto
    then have "cs = [] \<or> cs = ''/''" by (cases cs) (auto simp: skip_slash_def split: if_splits)
    with True \<open>l = [] \<and> _\<close> show ?thesis by auto
  next
    case False
    with "3.prems" obtain l' where "l = c # l'" "globs (d # cs) = map G_Lit l' @ [G_Deep]" by (cases l) (auto split: if_splits)
    with 3(2)[OF False] show ?thesis by auto
  qed
qed (auto simp: Cons_eq_append_conv Cons_eq_map_conv split: if_splits)

lemma compile_from_first:
  assumes "plain_pattern s"
  shows "compile_from reg Kind_Exact True s =
    (if starts_with s ''**'' then
       (if list_all is_lit (globs (skip_slash (drop 2 s))) then compile_from reg Kind_Exact True s else (reg @ rx_of (globs s), Kind_Regexp))
     else compiled reg Kind_Exact (globs s))"
    and "starts_with s ''**'' \<Longrightarrow> list_all is_lit (globs (skip_slash (drop 2 s))) \<Longrightarrow> snd (compile_from reg Kind_Exact True s) = Kind_Suffix"
proof -
  have deep: "compile_from reg Kind_Exact True (''**'' @ t) =
      compiled (if skip_slash t = [] then reg else reg @ ''(.*/)?'') Kind_Suffix (globs (skip_slash t))" if "s = ''**'' @ t" for t
  proof -
    have "plain_pattern (skip_slash t)" using assms that by (auto simp: plain_pattern_def skip_slash_def split: list.splits)
    then show ?thesis by (simp add: compile_from_globs Let_def)
  qed
  have other: "compile_from reg Kind_Exact True s = compile_from reg Kind_Exact False s" if "\<not> starts_with s ''**''"
    using that by (cases s) (auto simp: starts_with_iff split: list.splits)
  show "compile_from reg Kind_Exact True s =
    (if starts_with s ''**'' then
       (if list_all is_lit (globs (skip_slash (drop 2 s))) then compile_from reg Kind_Exact True s else (reg @ rx_of (globs s), Kind_Regexp))
     else compiled reg Kind_Exact (globs s))"
  proof (cases "starts_with s ''**''")
    case True
    then obtain t where t: "s = ''**'' @ t" by (auto simp: starts_with_iff)
    have "globs s = G_Deep # globs (skip_slash t)" by (simp add: t)
    moreover have "skip_slash t \<noteq> []" if "\<not> list_all is_lit (globs (skip_slash t))" using that by auto
    ultimately show ?thesis using True deep[OF t] unfolding t by (auto simp: compiled_def simp del: globs.simps compile_from.simps)
  qed (use other compile_from_globs[OF assms] in simp)
  assume "starts_with s ''**''" and lits: "list_all is_lit (globs (skip_slash (drop 2 s)))"
  then obtain t where t: "s = ''**'' @ t" by (auto simp: starts_with_iff)
  with deep[OF t] lits show "snd (compile_from reg Kind_Exact True s) = Kind_Suffix"
    by (simp add: compiled_def del: compile_from.simps)
qed

lemma glob_matches_lits: "glob_matches (map G_Lit l @ gs) p \<longleftrightarrow> (\<exists>q. p = l @ q \<and> glob_matches gs q)"
  by (induction l arbitrary: p) auto

lemma suffix_meaning:
  assumes "list_all is_lit (globs (skip_slash t))" and "last (''**'' @ t) \<noteq> CHR ''/''"
  shows "ends_with path t \<or> starts_with t ''/'' \<and> path = drop 1 t \<longleftrightarrow>
    (if t \<noteq> [] \<and> hd t \<noteq> CHR ''/'' \<and> list_all is_lit (globs t) then ends_with path t else glob_matches (globs (''**'' @ t)) path)"
proof -
  have gs: "globs (''**'' @ t) = G_Deep # globs (skip_slash t)" by simp
  show ?thesis
  proof (cases "starts_with t ''/''")
    case slash: True
    then obtain l where l: "t = CHR ''/'' # l" by (auto simp: starts_with_iff)
    then have "l \<noteq> []" using assms(2) by auto
    have "globs l = map G_Lit l" using assms(1) globs_lits[of l] by (simp add: l skip_slash_def)
    then have "glob_matches (globs l) q \<longleftrightarrow> q = l" for q using glob_matches_lits[of l "[]" q] by simp
    then show ?thesis using slash \<open>l \<noteq> []\<close> unfolding gs by (auto simp: l skip_slash_def ends_with_iff)
  next
    case False
    then have "skip_slash t = t" by (cases t) (auto simp: skip_slash_def starts_with_iff)
    with False assms(1) show ?thesis unfolding gs by (cases t) (auto simp: starts_with_iff ends_with_iff)
  qed
qed

text \<open>
  C33 (ignore_pattern_meaning): a cleaned pattern without character classes and escapes compiles, and matches a path
  exactly as its parts say, whichever of the four ways of matching the compiler picked. Only a pattern of \<open>**\<close>
  followed at once by a literal text matches every path that ends in that text.
\<close>

theorem ignore_pattern_meaning:
  assumes "reads_items regex" and "plain_pattern s" and "s \<noteq> []" and "last s \<noteq> CHR ''/''" and "CHR 10 \<notin> set path"
  shows "\<exists>m. compile_pattern regex s = Ok m \<and>
    (pattern_matches \<lparr>cleaned_pattern = s, exclusion = e, match_type = m\<rparr> path \<longleftrightarrow>
      (if \<exists>l. s = ''**'' @ l \<and> l \<noteq> [] \<and> hd l \<noteq> CHR ''/'' \<and> list_all is_lit (globs l) then ends_with path (drop 2 s)
       else glob_matches (globs s) path))"
proof -
  have regexp: "compile_pattern regex s = Ok (Match_Regexp (rx_matches (items (globs s))))"
    if "compile_from ''^'' Kind_Exact True s = (''^'' @ rx_of (globs s), Kind_Regexp)"
    using that assms(1) globs_plain[OF assms(2)] by (simp add: compile_pattern_def reads_items_def rx_of_def del: compile_from.simps)
  note first = compile_from_first[OF assms(2), of "''^''"]
  show ?thesis
  proof (cases "starts_with s ''**''")
    case True
    then obtain t where t: "s = ''**'' @ t" by (auto simp: starts_with_iff)
    have gs: "globs s = G_Deep # globs (skip_slash t)" by (simp add: t)
    show ?thesis
    proof (cases "list_all is_lit (globs (skip_slash t))")
      case lits: True
      then have "compile_pattern regex s = Ok Match_Suffix"
        using first(2) True t by (cases "compile_from ''^'' Kind_Exact True s") (simp add: compile_pattern_def del: compile_from.simps)
      then show ?thesis using t suffix_meaning[OF lits] assms(4) by (simp add: pattern_matches_def del: globs.simps)
    next
      case False
      with first(1) True t have "compile_pattern regex s = Ok (Match_Regexp (rx_matches (items (globs s))))" by (intro regexp) simp
      moreover have "\<not> list_all is_lit (globs l)" if "s = ''**'' @ l" "hd l \<noteq> CHR ''/''" "l \<noteq> []" for l
        using False that t by (cases l) (auto simp: skip_slash_def)
      ultimately show ?thesis using rx_matches_items[OF assms(5)] by (auto simp: pattern_matches_def)
    qed
  next
    case False
    then have no: "\<not> (\<exists>l. s = ''**'' @ l \<and> l \<noteq> [] \<and> hd l \<noteq> CHR ''/'' \<and> list_all is_lit (globs l))" by (auto simp: starts_with_iff)
    from first(1) False have c: "compile_from ''^'' Kind_Exact True s = compiled ''^'' Kind_Exact (globs s)" by simp
    consider "list_all is_lit (globs s)" | "\<not> list_all is_lit (globs s)" "list_all is_lit (butlast (globs s)) \<and> last (globs s) = G_Deep"
      | "\<not> list_all is_lit (globs s)" "\<not> (list_all is_lit (butlast (globs s)) \<and> last (globs s) = G_Deep)" by blast
    then show ?thesis
    proof cases
      case 1
      with globs_lits[OF 1] glob_matches_lits[of s "[]" path] c show ?thesis unfolding if_not_P[OF no]
        by (simp add: compile_pattern_def compiled_def pattern_matches_def del: compile_from.simps)
    next
      case 2
      have "\<exists>l. gs = map G_Lit l" if "list_all is_lit gs" for gs using that by (induction gs) (auto elim!: is_lit.elims intro: exI[of _ "_ # _"])
      with 2 obtain l where "globs s = map G_Lit l @ [G_Deep]" using assms(3) by (metis append_butlast_last_id globs_Nil)
      moreover from globs_prefix[OF this] have "s = l @ ''**''" using assms(4) by auto
      ultimately show ?thesis using 2 c glob_matches_lits[of l "[G_Deep]" path] unfolding if_not_P[OF no]
        by (simp add: compile_pattern_def compiled_def pattern_matches_def starts_with_iff del: compile_from.simps)
    next
      case 3
      with c have "compile_pattern regex s = Ok (Match_Regexp (rx_matches (items (globs s))))" by (intro regexp) (simp add: compiled_def del: compile_from.simps)
      with rx_matches_items[OF assms(5)] show ?thesis unfolding if_not_P[OF no] by (simp add: pattern_matches_def)
    qed
  qed
qed

section \<open>Examples\<close>

text \<open>An engine for the expressions the compiler writes, read back from their text.\<close>

function rx_parse :: "string \<Rightarrow> rx_item list" where
  "rx_parse s = (case strip_prefix ''[^/]*'' s of Some r \<Rightarrow> Rx_Not_Slashes # rx_parse r | None \<Rightarrow>
     (case strip_prefix ''[^/]'' s of Some r \<Rightarrow> Rx_Not_Slash # rx_parse r | None \<Rightarrow>
     (case strip_prefix ''(.*/)?'' s of Some r \<Rightarrow> Rx_Dirs # rx_parse r | None \<Rightarrow>
     (case strip_prefix ''.*'' s of Some r \<Rightarrow> Rx_All # rx_parse r | None \<Rightarrow>
     (case s of [] \<Rightarrow> []
      | c # r \<Rightarrow> if c = CHR 92 then (case r of d # r' \<Rightarrow> Rx_Char d # rx_parse r' | [] \<Rightarrow> []) else Rx_Char c # rx_parse r)))))"
  by pat_completeness auto
termination
  by (relation "measure length") auto

declare rx_parse.simps [simp del]

definition example_regex :: "string \<Rightarrow> (string \<Rightarrow> bool) option" where
  "example_regex s = Option.bind (strip_prefix ''^'' s) (\<lambda>r. map_option (\<lambda>b. rx_matches (rx_parse b)) (strip_suffix ''$'' r))"

lemma rx_parse_item:
  assumes "item_ok r" and "t = [] \<or> hd t \<noteq> CHR ''*''"
  shows "rx_parse (rx_text r @ t) = r # rx_parse t"
proof (cases r)
  case (Rx_Char c)
  with assms(1) show ?thesis
    by (cases "should_escape c") (auto simp: rx_parse.simps[of "_ # _"] rx_plain_char_def should_escape_def)
next
  case Rx_Not_Slash
  with assms(2) show ?thesis by (cases t) (auto simp: rx_parse.simps[of "_ # _"])
qed (auto simp: rx_parse.simps[of "_ # _"])

lemma rx_parse_texts: "list_all item_ok rs \<Longrightarrow> rx_parse (concat (map rx_text rs)) = rs"
proof (induction rs)
  case Nil
  show ?case by (simp add: rx_parse.simps)
next
  case (Cons r rs)
  have "rx_text q \<noteq> [] \<and> hd (rx_text q) \<noteq> CHR ''*''" if "item_ok q" for q
    using that by (cases q) (auto simp: rx_plain_char_def should_escape_def)
  then have "concat (map rx_text rs) = [] \<or> hd (concat (map rx_text rs)) \<noteq> CHR ''*''"
    using Cons.prems by (cases rs) (auto simp: hd_append)
  with Cons show ?case by (simp add: rx_parse_item)
qed

lemma example_regex_reads: "reads_items example_regex"
  unfolding reads_items_def
proof (intro allI impI)
  fix rs
  assume "list_all item_ok rs"
  moreover have "strip_suffix ''$'' (concat (map rx_text rs) @ ''$'') = Some (concat (map rx_text rs))" by simp
  ultimately show "example_regex (''^'' @ concat (map rx_text rs) @ ''$'') = Some (rx_matches rs)"
    by (simp add: example_regex_def rx_parse_texts)
qed

theorem ignore_pattern_meaning_witness:
  "\<exists>m. compile_pattern example_regex ''src/*.o'' = Ok m \<and>
     pattern_matches \<lparr>cleaned_pattern = ''src/*.o'', exclusion = False, match_type = m\<rparr> ''src/a.o'' \<and>
     \<not> pattern_matches \<lparr>cleaned_pattern = ''src/*.o'', exclusion = False, match_type = m\<rparr> ''a.o''"
proof -
  have h: "plain_pattern ''src/*.o''" "''src/*.o'' \<noteq> []" "last ''src/*.o'' \<noteq> CHR ''/''" by (simp_all add: plain_pattern_def)
  have n: "CHR 10 \<notin> set ''src/a.o''" "CHR 10 \<notin> set ''a.o''" by simp_all
  note meaning = ignore_pattern_meaning[OF example_regex_reads h, where e = False]
  have "glob_matches (globs ''src/*.o'') ''src/a.o''" by (simp add: exI[of _ "''a''"])
  moreover have "\<not> glob_matches (globs ''src/*.o'') ''a.o''" by simp
  ultimately show ?thesis using meaning[OF n(1)] meaning[OF n(2)] by auto
qed

definition example_tree :: "(string \<times> fs_node) list" where
  "example_tree = [(''Dockerfile'', Plain ''FROM alpine'' 420), (''secret'', Folder [(''key'', Plain ''k'' 384)]), (''main.c'', Plain ''int'' 420)]"

theorem build_context_exact_witness:
  "\<exists>sent. build_context_tar id id (\<lambda>_. None) (Some [Ok ''secret'' :: (unit, string) result]) example_tree ''Dockerfile'' = Ok sent \<and>
     \<lparr>te_path = ''main.c'', te_contents = ''int'', te_mode = 420, te_uid = 0, te_gid = 0\<rparr> \<in> set sent \<and>
     (\<forall>e \<in> set sent. te_path e \<noteq> ''secret/key'')"
proof -
  let ?ls = "[Ok ''secret'' :: (unit, string) result]"
  let ?p = "\<lparr>cleaned_pattern = ''secret'', exclusion = False, match_type = Match_Exact\<rparr>"
  have clean: "keeps_clean_paths id" by (simp add: keeps_clean_paths_def)
  have entries: "entries_ok example_tree" by (simp add: example_tree_def file_name_ok_def)
  have patterns: "read_ignore_file id id ?ls = Ok [''secret'']" by code_simp
  have matcher: "new_matcher id (\<lambda>_. None) [''secret''] = Ok \<lparr>pm_patterns = [?p], pm_exclusions = False\<rparr>"
  proof -
    have "trim ''secret'' = ''secret''" by code_simp
    then show ?thesis by (simp add: new_matcher_def add_pattern_def starts_with_def compile_pattern_def should_escape_def)
  qed
  from patterns matcher obtain sent where sent: "build_context_tar id id (\<lambda>_. None) (Some ?ls) example_tree ''Dockerfile'' = Ok sent"
    by (simp add: build_context_tar_def)
  from build_context_exact[OF clean entries sent] patterns matcher have exact: "e \<in> set sent \<longleftrightarrow> (\<exists>names contents mode.
      node_at (Folder example_tree) names = Some (Plain contents mode) \<and>
      e = \<lparr>te_path = join ''/'' names, te_contents = contents, te_mode = mode, te_uid = 0, te_gid = 0\<rparr> \<and>
      (join ''/'' names = ''Dockerfile'' \<or> join ''/'' names = ''.dockerignore'' \<or> \<not> ignored [?p] names))" for e by auto
  have main: "\<not> ignored [?p] [''main.c'']" by (auto simp: ignored_def hits_def pattern_matches_def le_Suc_eq)
  have key: "ignored [?p] names" if "join ''/'' names = ''secret/key''" "list_all file_name_ok names" "names \<noteq> []" for names
  proof -
    have "names = [''secret'', ''key'']" using split_join_names[OF that(3,2)] that(1) by simp
    then show ?thesis by (auto simp: ignored_def hits_def pattern_matches_def intro!: exI[of _ 1])
  qed
  have "node_at (Folder example_tree) [''main.c''] = Some (Plain ''int'' 420)" by (simp add: example_tree_def)
  with main have "\<lparr>te_path = ''main.c'', te_contents = ''int'', te_mode = 420, te_uid = 0, te_gid = 0\<rparr> \<in> set sent"
    unfolding exact by (intro exI[of _ "[''main.c'']"]) simp
  moreover have "te_path e \<noteq> ''secret/key''" if "e \<in> set sent" for e
    using that key node_at_names[OF entries] unfolding exact by (auto; metis fs_node.distinct(1) node_at.simps(1) option.inject)
  ultimately show ?thesis using sent by blast
qed

end
