(* ===== verification/Caches.thy ===== *)
theory Caches
  imports Container_Spec "HOL-Library.Product_Lexorder"
begin

text \<open>
  Cache volumes and directories (\<open>src/ratect-core/src/cache.rs\<close>): the project's key file, what a \<open>cache\<close> mount becomes
  when its container is created (\<open>resolve_cache_mount\<close>, with the engine's \<open>resolve_volumes\<close> and
  \<open>resolve_user_mapping\<close>), and what \<open>CacheStore\<close> lists and removes. What the host and the daemon answer is a record of
  arguments; what the code does to them is a list of effects returned beside its result.
\<close>

section \<open>Effects and answers\<close>

datatype cache_type = Volume_Cache | Directory_Cache

record cache_options =
  ca_type :: cache_type
  ca_project_directory :: string

record removed_cache =
  rc_name :: string
  rc_storage :: string

datatype clean_event =
    Removing removed_cache
  | Removed removed_cache
  | No_Cache_Directory string
  | Skipped_Link string

datatype cache_effect =
    Directory_Made string
  | Key_Written string string
  | Volume_Removed string
  | Directory_Removed string
  | Reported clean_event

datatype 'e cache_error =
    Cache_Io 'e
  | No_Key_Line
  | Many_Key_Lines
  | Key_Is_A_Dangling_Link

datatype 'e key_file = Key_Contents string | No_Key_File | Dangling_Key_Link | Unreadable_Key 'e

datatype entry_type = Entry_Directory | Entry_Link | Entry_Other

record 'e cache_answers =
  ck_key_file :: "'e key_file"
  ck_uuid :: string
  ck_lossy :: "string \<Rightarrow> string"
  ck_home :: "('e, string) result"
  ck_make_directory :: "string \<Rightarrow> ('e, unit) result"
  ck_write_key :: "('e, unit) result"
  ck_volumes :: "('e, string list) result"
  ck_remove_volume :: "string \<Rightarrow> ('e, unit) result"
  ck_directory :: "string \<Rightarrow> ('e, ('e, string \<times> ('e, entry_type) result) result list) result option"
  ck_remove_directory :: "string \<Rightarrow> ('e, unit) result"

type_synonym ('e, 'a) caching = "('e cache_error, 'a) result \<times> cache_effect list"

definition cache_bind :: "('e, 'a) caching \<Rightarrow> ('a \<Rightarrow> ('e, 'b) caching) \<Rightarrow> ('e, 'b) caching" where
  "cache_bind m f = (case m of (Inl e, es) \<Rightarrow> (Inl e, es) | (Inr a, es) \<Rightarrow> (case f a of (r, es') \<Rightarrow> (r, es @ es')))"

definition cache_do :: "('e, unit) result \<Rightarrow> cache_effect \<Rightarrow> ('e, unit) caching" where
  "cache_do answer effect = (case answer of Inl e \<Rightarrow> (Err (Cache_Io e), []) | Inr _ \<Rightarrow> (Ok (), [effect]))"

definition cache_ask :: "('e, 'a) result \<Rightarrow> ('e, 'a) caching" where
  "cache_ask answer = (map_err Cache_Io answer, [])"

definition report_clean :: "clean_event \<Rightarrow> ('e, unit) caching" where
  "report_clean e = (Ok (), [Reported e])"

section \<open>The project's key\<close>

text \<open>\<open>Path::join\<close> on text: an absolute second path replaces the first.\<close>

definition path_join :: "string \<Rightarrow> string \<Rightarrow> string" where
  "path_join p q = (if starts_with q ''/'' then q else if p = [] \<or> ends_with p ''/'' then p @ q else p @ ''/'' @ q)"

definition cache_directory :: "string \<Rightarrow> string" where
  "cache_directory project = path_join (path_join project ''.batect'') ''caches''"

definition read_project_cache_key :: "string \<Rightarrow> ('e cache_error, string) result" where
  "read_project_cache_key contents =
     (case filter (\<lambda>line. line \<noteq> [] \<and> \<not> starts_with line ''#'') (map trim (str_lines contents)) of
        [] \<Rightarrow> Err No_Key_Line | [key] \<Rightarrow> Ok key | _ \<Rightarrow> Err Many_Key_Lines)"

definition key_file_text :: "string \<Rightarrow> string" where
  "key_file_text key =
     ''# This file was autogenerated to track which Docker volumes are associated with this project.'' @ [CHR 10] @
     ''# Do not modify it, and do not commit it to source control.'' @ [CHR 10] @ key @ [CHR 10]"

definition project_cache_key :: "'e cache_answers \<Rightarrow> string \<Rightarrow> ('e, string) caching" where
  "project_cache_key ans project =
     (case ck_key_file ans of
        Key_Contents contents \<Rightarrow> (read_project_cache_key (ck_lossy ans contents), [])
      | Unreadable_Key e \<Rightarrow> (Err (Cache_Io e), [])
      | Dangling_Key_Link \<Rightarrow> (Err Key_Is_A_Dangling_Link, [])
      | No_Key_File \<Rightarrow>
          (let dir = cache_directory project; key = ck_uuid ans in
           cache_bind (cache_do (ck_make_directory ans dir) (Directory_Made dir)) (\<lambda>_.
           cache_bind (cache_do (ck_write_key ans) (Key_Written (path_join dir ''key'') (key_file_text key))) (\<lambda>_.
           (Ok key, [])))))"

text \<open>The key is read once: by the engine under a lock, by \<open>CacheStore\<close> through a \<open>OnceLock\<close>.\<close>

definition memo_key :: "'e cache_answers \<Rightarrow> string \<Rightarrow> string option \<Rightarrow> ('e, string) caching" where
  "memo_key ans project memo = (case memo of Some key \<Rightarrow> (Ok key, []) | None \<Rightarrow> project_cache_key ans project)"

section \<open>What a mount becomes\<close>

definition cache_volume_name :: "string \<Rightarrow> string \<Rightarrow> string" where
  "cache_volume_name key name = ''batect-cache-'' @ key @ ''-'' @ name"

definition shared_cache_volume_name :: "string \<Rightarrow> string" where
  "shared_cache_volume_name name = ''ratect-shared-cache-'' @ name"

definition shared_cache_root :: "'e cache_answers \<Rightarrow> ('e, string) caching" where
  "shared_cache_root ans = cache_bind (cache_ask (ck_home ans)) (\<lambda>home. (Ok (path_join (path_join home ''.ratect'') ''caches''), []))"

definition shared_cache_directory :: "'e cache_answers \<Rightarrow> string \<Rightarrow> ('e, string) caching" where
  "shared_cache_directory ans name = cache_bind (shared_cache_root ans) (\<lambda>root. (Ok (path_join root name), []))"

definition cache_scope_of :: "cache_volume \<Rightarrow> cache_scope" where
  "cache_scope_of m = (case cv_scope m of Some s \<Rightarrow> s | None \<Rightarrow> Project)"

definition resolve_cache_mount ::
  "'e cache_answers \<Rightarrow> cache_options \<Rightarrow> string option \<Rightarrow> cache_volume \<Rightarrow> ('e, bind_mount \<times> string option) caching" where
  "resolve_cache_mount ans opts memo mount =
     (let shared = (cache_scope_of mount = Shared);
          bind = (\<lambda>source. \<lparr>bm_source = source, bm_container = cv_container mount, bm_options = cv_options mount\<rparr>) in
      case ca_type opts of
        Volume_Cache \<Rightarrow>
          if shared then (Ok (bind (Named_Volume (shared_cache_volume_name (cv_name mount))), memo), [])
          else cache_bind (memo_key ans (ca_project_directory opts) memo) (\<lambda>key.
            (Ok (bind (Named_Volume (cache_volume_name key (cv_name mount))), Some key), []))
      | Directory_Cache \<Rightarrow>
          cache_bind (if shared then shared_cache_directory ans (cv_name mount)
              else (Ok (path_join (cache_directory (ca_project_directory opts)) (cv_name mount)), [])) (\<lambda>dir.
          cache_bind (cache_do (ck_make_directory ans dir) (Directory_Made dir)) (\<lambda>_.
          (Ok (bind (Host_Path dir), memo), []))))"

text \<open>The engine's own part: every mount of a container but its \<open>tmpfs\<close> ones, each different bind once.\<close>

fun resolve_volume_list ::
  "'e cache_answers \<Rightarrow> cache_options \<Rightarrow> string option \<Rightarrow> bind_mount list \<Rightarrow> volume_mount list \<Rightarrow>
     ('e, bind_mount list \<times> string option) caching" where
  "resolve_volume_list ans opts memo resolved [] = (Ok (resolved, memo), [])"
| "resolve_volume_list ans opts memo resolved (Local l # vs) =
     resolve_volume_list ans opts memo
       (push_new resolved \<lparr>bm_source = Host_Path (lv_local l), bm_container = lv_container l, bm_options = lv_options l\<rparr>) vs"
| "resolve_volume_list ans opts memo resolved (Cache c # vs) =
     cache_bind (resolve_cache_mount ans opts memo c) (\<lambda>(b, memo'). resolve_volume_list ans opts memo' (push_new resolved b) vs)"
| "resolve_volume_list ans opts memo resolved (Tmpfs t # vs) = resolve_volume_list ans opts memo resolved vs"

definition resolve_volumes ::
  "'e cache_answers \<Rightarrow> cache_options \<Rightarrow> string option \<Rightarrow> volume_mount list option \<Rightarrow>
     ('e, bind_mount list option \<times> string option) caching" where
  "resolve_volumes ans opts memo vols = (case vols of None \<Rightarrow> (Ok (None, memo), [])
     | Some vs \<Rightarrow> cache_bind (resolve_volume_list ans opts memo [] vs) (\<lambda>(resolved, memo').
         (Ok (if resolved = [] then None else Some resolved, memo'), [])))"

text \<open>
  The user a container is mapped to. A missing home directory is refused when the configuration loads, so the
  code expects one; the caches the user must own are the container's writable ones.
\<close>

datatype 'e mapping_error = No_Current_User 'e | Home_Not_Set

definition resolve_user_mapping :: "('e, current_user) result \<Rightarrow> container \<Rightarrow> ('e mapping_error, user_mapping option) result" where
  "resolve_user_mapping current c = (case run_as_current_user c of
       None \<Rightarrow> Ok None
     | Some r \<Rightarrow> if \<not> rcu_enabled r then Ok None
         else rbind (map_err No_Current_User current) (\<lambda>u. case rcu_home_directory r of
           None \<Rightarrow> Err Home_Not_Set
         | Some home \<Rightarrow> Ok (Some \<lparr>um_user = u, um_home_directory = home,
             um_cache_directories = List.map_filter (\<lambda>v. case v of
                 Cache cv \<Rightarrow> if is_read_only (cv_options cv) then None else Some (cv_container cv)
               | _ \<Rightarrow> None) (or_empty (volumes c))\<rparr>)))"

section \<open>Listing and removing\<close>

instantiation cache_scope :: linorder
begin

definition less_eq_cache_scope :: "cache_scope \<Rightarrow> cache_scope \<Rightarrow> bool" where
  "less_eq_cache_scope a b \<longleftrightarrow> a = Project \<or> b = Shared"

definition less_cache_scope :: "cache_scope \<Rightarrow> cache_scope \<Rightarrow> bool" where
  "less_cache_scope a b \<longleftrightarrow> a = Project \<and> b = Shared"

instance
proof
  fix x y z :: cache_scope
  show "(x < y) = (x \<le> y \<and> \<not> y \<le> x)" by (cases x; cases y) (auto simp: less_eq_cache_scope_def less_cache_scope_def)
  show "x \<le> x" by (cases x) (auto simp: less_eq_cache_scope_def)
  show "x \<le> y \<Longrightarrow> y \<le> z \<Longrightarrow> x \<le> z" by (auto simp: less_eq_cache_scope_def)
  show "x \<le> y \<Longrightarrow> y \<le> x \<Longrightarrow> x = y" by (auto simp: less_eq_cache_scope_def)
  show "x \<le> y \<or> y \<le> x" by (cases x; cases y) (auto simp: less_eq_cache_scope_def)
qed

end

definition matching_cache_volumes :: "string list \<Rightarrow> string \<Rightarrow> string set \<Rightarrow> string list" where
  "matching_cache_volumes existing prefix only =
     filter (\<lambda>v. case strip_prefix prefix v of None \<Rightarrow> False | Some name \<Rightarrow> only = {} \<or> name \<in> only) existing"

definition matching_shared_cache_volumes :: "string list \<Rightarrow> string set \<Rightarrow> string list" where
  "matching_shared_cache_volumes existing only =
     (if only = {} then [] else matching_cache_volumes existing (shared_cache_volume_name []) only)"

definition scoped_volume :: "string option \<Rightarrow> string \<Rightarrow> (string \<times> cache_scope) option" where
  "scoped_volume key v =
     (case Option.bind key (\<lambda>k. strip_prefix (cache_volume_name k []) v) of
        Some name \<Rightarrow> Some (name, Project)
      | None \<Rightarrow> map_option (\<lambda>name. (name, Shared)) (strip_prefix (shared_cache_volume_name []) v))"

definition list_all_volume_caches :: "'e cache_answers \<Rightarrow> string option \<Rightarrow> ('e, (string \<times> cache_scope) list) caching" where
  "list_all_volume_caches ans key = cache_bind (cache_ask (ck_volumes ans)) (\<lambda>existing.
     (Ok (sort (List.map_filter (scoped_volume key) existing)), []))"

definition unwrap_or :: "'a option \<Rightarrow> 'a \<Rightarrow> 'a" where
  "unwrap_or a d = (case a of Some x \<Rightarrow> x | None \<Rightarrow> d)"

fun remove_cache_volumes :: "'e cache_answers \<Rightarrow> string \<Rightarrow> string list \<Rightarrow> ('e, removed_cache list) caching" where
  "remove_cache_volumes ans prefix [] = (Ok [], [])"
| "remove_cache_volumes ans prefix (v # vs) =
     (let cache = \<lparr>rc_name = unwrap_or (strip_prefix prefix v) v, rc_storage = v\<rparr> in
      cache_bind (report_clean (Removing cache)) (\<lambda>_.
      cache_bind (cache_do (ck_remove_volume ans v) (Volume_Removed v)) (\<lambda>_.
      cache_bind (report_clean (Removed cache)) (\<lambda>_.
      cache_bind (remove_cache_volumes ans prefix vs) (\<lambda>removed. (Ok (cache # removed), []))))))"

fun remove_cache_directories :: "'e cache_answers \<Rightarrow> string \<Rightarrow> string list \<Rightarrow> ('e, removed_cache list) caching" where
  "remove_cache_directories ans root [] = (Ok [], [])"
| "remove_cache_directories ans root (name # names) =
     (let dir = path_join root name; cache = \<lparr>rc_name = name, rc_storage = dir\<rparr> in
      cache_bind (report_clean (Removing cache)) (\<lambda>_.
      cache_bind (cache_do (ck_remove_directory ans dir) (Directory_Removed dir)) (\<lambda>_.
      cache_bind (report_clean (Removed cache)) (\<lambda>_.
      cache_bind (remove_cache_directories ans root names) (\<lambda>removed. (Ok (cache # removed), []))))))"

text \<open>The directories and the links found under a cache root, by name.\<close>

fun scan_entries :: "string set \<Rightarrow> ('e, string \<times> ('e, entry_type) result) result list \<Rightarrow> ('e, string list \<times> string list) result" where
  "scan_entries only [] = Ok ([], [])"
| "scan_entries only (Inl e # es) = Err e"
| "scan_entries only (Inr (name, ft) # es) =
     (if only \<noteq> {} \<and> name \<notin> only then scan_entries only es
      else rbind ft (\<lambda>t. rbind (scan_entries only es) (\<lambda>(matched, links). Ok (case t of
          Entry_Link \<Rightarrow> (matched, name # links) | Entry_Directory \<Rightarrow> (name # matched, links) | Entry_Other \<Rightarrow> (matched, links)))))"

definition scan_cache_directories :: "'e cache_answers \<Rightarrow> string \<Rightarrow> string set \<Rightarrow> ('e, (string list \<times> string list) option) caching" where
  "scan_cache_directories ans dir only = (case ck_directory ans dir of
       None \<Rightarrow> (Ok None, [])
     | Some listing \<Rightarrow> cache_bind (cache_ask (rbind listing (scan_entries only))) (\<lambda>(matched, links).
         (Ok (Some (sort matched, sort links)), [])))"

definition matching_cache_directories :: "'e cache_answers \<Rightarrow> string \<Rightarrow> string set \<Rightarrow> ('e, string list) caching" where
  "matching_cache_directories ans dir only = cache_bind (scan_cache_directories ans dir only) (\<lambda>found.
     (Ok (case found of None \<Rightarrow> [] | Some (matched, _) \<Rightarrow> matched), []))"

fun report_links :: "string \<Rightarrow> string list \<Rightarrow> ('e, unit) caching" where
  "report_links dir [] = (Ok (), [])"
| "report_links dir (l # ls) = cache_bind (report_clean (Skipped_Link (path_join dir l))) (\<lambda>_. report_links dir ls)"

definition clean_directory_caches :: "'e cache_answers \<Rightarrow> string \<Rightarrow> string set \<Rightarrow> ('e, removed_cache list) caching" where
  "clean_directory_caches ans project only =
     (let dir = cache_directory project in
      cache_bind (scan_cache_directories ans dir only) (\<lambda>found. case found of
          None \<Rightarrow> cache_bind (report_clean (No_Cache_Directory dir)) (\<lambda>_. (Ok [], []))
        | Some (matched, links) \<Rightarrow> cache_bind (report_links dir links) (\<lambda>_. remove_cache_directories ans dir matched)))"

definition clean_shared_directory_caches :: "'e cache_answers \<Rightarrow> string \<Rightarrow> string set \<Rightarrow> ('e, removed_cache list) caching" where
  "clean_shared_directory_caches ans root only = (if only = {} then (Ok [], [])
     else cache_bind (matching_cache_directories ans root only) (remove_cache_directories ans root))"

definition clean_volume_caches :: "'e cache_answers \<Rightarrow> string \<Rightarrow> string set \<Rightarrow> ('e, removed_cache list) caching" where
  "clean_volume_caches ans key only = cache_bind (cache_ask (ck_volumes ans)) (\<lambda>existing.
     let prefix = cache_volume_name key [] in remove_cache_volumes ans prefix (matching_cache_volumes existing prefix only))"

definition clean_shared_volume_caches :: "'e cache_answers \<Rightarrow> string set \<Rightarrow> ('e, removed_cache list) caching" where
  "clean_shared_volume_caches ans only = cache_bind (cache_ask (ck_volumes ans)) (\<lambda>existing.
     remove_cache_volumes ans (shared_cache_volume_name []) (matching_shared_cache_volumes existing only))"

record cache_selection =
  sel_owned :: "string list"
  sel_shared :: "string list"
  sel_scope :: "cache_scope option"

record cache_store =
  st_type :: cache_type
  st_project_directory :: string
  st_shared_root :: "string option"
  st_key :: "string option"

datatype cache_refusal = Shared_Not_Named string | Shared_Sweep_Not_Named

definition actionable :: "cache_selection \<Rightarrow> string list" where
  "actionable found = (if sel_scope found = Some Shared then sel_shared found else sel_owned found)"

definition shared_only :: "cache_selection \<Rightarrow> string set \<Rightarrow> string list" where
  "shared_only found wanted = sort (filter (\<lambda>name. name \<in> wanted) (sel_shared found))"

definition store_key :: "'e cache_answers \<Rightarrow> cache_store \<Rightarrow> ('e, string) caching" where
  "store_key ans store = memo_key ans (st_project_directory store) (st_key store)"

text \<open>The listing, and the key it leaves in the store's \<open>OnceLock\<close>.\<close>

definition store_list ::
  "'e cache_answers \<Rightarrow> cache_store \<Rightarrow> cache_scope option \<Rightarrow> ('e, cache_selection \<times> cache_store) caching" where
  "store_list ans store scope =
     cache_bind
       (case st_type store of
          Volume_Cache \<Rightarrow>
            cache_bind (if scope = Some Shared then (Ok None, []) else
                cache_bind (store_key ans store) (\<lambda>key. (Ok (Some key), []))) (\<lambda>key.
            cache_bind (list_all_volume_caches ans key) (\<lambda>found.
              (Ok (map fst (filter (\<lambda>(_, s). s = Project) found), map fst (filter (\<lambda>(_, s). s = Shared) found),
                   store\<lparr>st_key := opt_or (st_key store) key\<rparr>), [])))
        | Directory_Cache \<Rightarrow>
            cache_bind (matching_cache_directories ans (cache_directory (st_project_directory store)) {}) (\<lambda>owned.
            cache_bind (case st_shared_root store of Some root \<Rightarrow> matching_cache_directories ans root {} | None \<Rightarrow> (Ok [], [])) (\<lambda>shared.
              (Ok (owned, shared, store), []))))
       (\<lambda>(owned, shared, store').
         (Ok (\<lparr>sel_owned = sort (if scope = Some Shared then [] else owned),
               sel_shared = sort (if scope = Some Project then [] else shared), sel_scope = scope\<rparr>, store'), []))"

definition remove_project :: "'e cache_answers \<Rightarrow> cache_store \<Rightarrow> string set \<Rightarrow> ('e, removed_cache list) caching" where
  "remove_project ans store only = (case st_type store of
       Volume_Cache \<Rightarrow> cache_bind (store_key ans store) (\<lambda>key. clean_volume_caches ans key only)
     | Directory_Cache \<Rightarrow> clean_directory_caches ans (st_project_directory store) only)"

definition remove_shared :: "'e cache_answers \<Rightarrow> cache_store \<Rightarrow> string set \<Rightarrow> ('e, removed_cache list) caching" where
  "remove_shared ans store only = (case st_type store of
       Volume_Cache \<Rightarrow> clean_shared_volume_caches ans only
     | Directory_Cache \<Rightarrow> (case st_shared_root store of
           Some root \<Rightarrow> clean_shared_directory_caches ans root only | None \<Rightarrow> (Ok [], [])))"

definition store_remove ::
  "'e cache_answers \<Rightarrow> cache_store \<Rightarrow> cache_selection \<Rightarrow> string set \<Rightarrow> ('e, (cache_refusal, removed_cache list) result) caching" where
  "store_remove ans store found only =
     (if only = {} \<and> sel_scope found = Some Shared then (Ok (Err Shared_Sweep_Not_Named), [])
      else case (if sel_scope found \<noteq> Some Shared then shared_only found only else []) of
          name # _ \<Rightarrow> (Ok (Err (Shared_Not_Named name)), [])
        | [] \<Rightarrow> cache_bind (if sel_scope found = Some Shared then remove_shared ans store only else remove_project ans store only)
            (\<lambda>removed. (Ok (Ok removed), [])))"


section \<open>Lemmas\<close>

lemma cache_bind_simps [simp]:
  "cache_bind (Inl e, es) f = (Inl e, es)" "cache_bind (Inr a, es) f = (fst (f a), es @ snd (f a))"
  by (simp_all add: cache_bind_def split: prod.splits)

lemma in_cache_bind: "x \<in> set (snd (cache_bind m f)) \<longleftrightarrow> x \<in> set (snd m) \<or> (\<exists>a. fst m = Inr a \<and> x \<in> set (snd (f a)))"
  by (cases m; cases "fst m") auto

lemma cache_bind_quiet: "snd m = [] \<Longrightarrow> (\<And>a. snd (f a) = []) \<Longrightarrow> snd (cache_bind m f) = []"
  by (cases m; cases "fst m") auto

lemma fst_cache_bind: "fst (cache_bind m f) = Inr b \<longleftrightarrow> (\<exists>a. fst m = Inr a \<and> fst (f a) = Inr b)"
  by (cases m; cases "fst m") auto

lemma in_cache_do [simp]: "x \<in> set (snd (cache_do answer effect)) \<longleftrightarrow> is_ok answer \<and> x = effect"
  by (cases answer) (auto simp: cache_do_def)

lemma cache_ask_simps [simp]: "snd (cache_ask answer) = []" "fst (cache_ask answer) = Inr a \<longleftrightarrow> answer = Inr a"
  by (cases answer; simp add: cache_ask_def)+

lemma report_clean_simps [simp]: "fst (report_clean e) = Inr ()" "snd (report_clean e) = [Reported e]"
  by (simp_all add: report_clean_def)

lemma volume_names [simp]:
  "cache_volume_name key [] @ name = cache_volume_name key name"
  "shared_cache_volume_name [] @ name = shared_cache_volume_name name"
  by (simp_all add: cache_volume_name_def shared_cache_volume_name_def)

lemma strip_volume_names [simp]:
  "strip_prefix (cache_volume_name key []) (cache_volume_name key name) = Some name"
  "strip_prefix (shared_cache_volume_name []) (shared_cache_volume_name name) = Some name"
  by simp_all

lemma volume_names_differ [simp]: "cache_volume_name key name \<noteq> shared_cache_volume_name name'"
    "shared_cache_volume_name name' \<noteq> cache_volume_name key name"
  by (simp_all add: cache_volume_name_def shared_cache_volume_name_def)

lemma volume_name_inj:
  "cache_volume_name key name = cache_volume_name key' name' \<Longrightarrow> length key = length key' \<Longrightarrow> key = key' \<and> name = name'"
  "cache_volume_name key name = cache_volume_name key name' \<Longrightarrow> name = name'"
  "shared_cache_volume_name name = shared_cache_volume_name name' \<Longrightarrow> name = name'"
  by (simp_all add: cache_volume_name_def shared_cache_volume_name_def)

lemma matching_volumes:
  "v \<in> set (matching_cache_volumes existing (cache_volume_name key []) only) \<longleftrightarrow>
     v \<in> set existing \<and> (\<exists>name. v = cache_volume_name key name \<and> (only = {} \<or> name \<in> only))"
  "v \<in> set (matching_shared_cache_volumes existing only) \<longleftrightarrow>
     v \<in> set existing \<and> (\<exists>name \<in> only. v = shared_cache_volume_name name)"
  by (auto simp: matching_cache_volumes_def matching_shared_cache_volumes_def split: option.splits dest: volume_name_inj)

lemma removed_volumes:
  "x \<in> set (snd (remove_cache_volumes ans prefix vs)) \<Longrightarrow> (\<exists>e. x = Reported e) \<or> (\<exists>v \<in> set vs. x = Volume_Removed v)"
  by (induction vs) (auto simp: Let_def in_cache_bind)

lemma removed_directories:
  "x \<in> set (snd (remove_cache_directories ans root names)) \<Longrightarrow>
     (\<exists>e. x = Reported e) \<or> (\<exists>name \<in> set names. x = Directory_Removed (path_join root name))"
  by (induction names) (auto simp: Let_def in_cache_bind)

lemma report_links_effects: "x \<in> set (snd (report_links dir ls)) \<Longrightarrow> \<exists>e. x = Reported e"
  by (induction ls) (auto simp: in_cache_bind)

lemma scan_entries_matched:
  "scan_entries only es = Inr (matched, links) \<Longrightarrow> name \<in> set matched \<Longrightarrow>
     Inr (name, Inr Entry_Directory) \<in> set es \<and> (only = {} \<or> name \<in> only)"
proof (induction only es arbitrary: matched links rule: scan_entries.induct)
  case (3 only n ft es)
  show ?case
  proof (cases "only \<noteq> {} \<and> n \<notin> only")
    case True
    with 3 show ?thesis by auto
  next
    case False
    with 3(3) obtain t m l where t: "ft = Inr t" "scan_entries only es = Inr (m, l)"
      and r: "(matched, links) = (case t of Entry_Link \<Rightarrow> (m, n # l) | Entry_Directory \<Rightarrow> (n # m, l) | Entry_Other \<Rightarrow> (m, l))"
      by (auto split: prod.splits)
    from 3(2)[OF False t] r 3(4) t(1) False show ?thesis by (cases t) auto
  qed
qed auto

lemma scanned_directories:
  "fst (scan_cache_directories ans dir only) = Inr (Some (matched, links)) \<Longrightarrow> name \<in> set matched \<Longrightarrow>
     \<exists>entries. ck_directory ans dir = Some (Inr entries) \<and> Inr (name, Inr Entry_Directory) \<in> set entries \<and> (only = {} \<or> name \<in> only)"
  "snd (scan_cache_directories ans dir only) = []"
proof -
  show "snd (scan_cache_directories ans dir only) = []"
    by (auto simp: scan_cache_directories_def split: option.splits intro!: cache_bind_quiet)
  assume "fst (scan_cache_directories ans dir only) = Inr (Some (matched, links))" and n: "name \<in> set matched"
  then obtain listing m l where l: "ck_directory ans dir = Some listing" "rbind listing (scan_entries only) = Inr (m, l)"
    and m: "matched = sort m"
    by (auto simp: scan_cache_directories_def fst_cache_bind split: option.splits)
  from l(2) obtain entries where e: "listing = Inr entries" "scan_entries only entries = Inr (m, l)" by auto
  from l(1) e(1) scan_entries_matched[OF e(2)] n m show
    "\<exists>entries. ck_directory ans dir = Some (Inr entries) \<and> Inr (name, Inr Entry_Directory) \<in> set entries \<and> (only = {} \<or> name \<in> only)"
    by auto
qed

lemma matching_directories:
  "fst (matching_cache_directories ans dir only) = Inr names \<Longrightarrow> name \<in> set names \<Longrightarrow>
     \<exists>entries. ck_directory ans dir = Some (Inr entries) \<and> Inr (name, Inr Entry_Directory) \<in> set entries \<and> (only = {} \<or> name \<in> only)"
  "snd (matching_cache_directories ans dir only) = []"
proof -
  show "snd (matching_cache_directories ans dir only) = []"
    by (simp add: matching_cache_directories_def cache_bind_quiet scanned_directories(2))
  assume "fst (matching_cache_directories ans dir only) = Inr names" "name \<in> set names"
  then obtain matched links where "fst (scan_cache_directories ans dir only) = Inr (Some (matched, links))" "name \<in> set matched"
    by (auto simp: matching_cache_directories_def fst_cache_bind split: option.splits)
  then show "\<exists>entries. ck_directory ans dir = Some (Inr entries) \<and> Inr (name, Inr Entry_Directory) \<in> set entries \<and> (only = {} \<or> name \<in> only)"
    by (rule scanned_directories(1))
qed


lemma project_key_effects:
  "x \<in> set (snd (store_key ans store)) \<Longrightarrow> ck_key_file ans = No_Key_File \<and>
     (x = Directory_Made (cache_directory (st_project_directory store)) \<or>
      x = Key_Written (path_join (cache_directory (st_project_directory store)) ''key'') (key_file_text (ck_uuid ans)))"
  by (auto simp: store_key_def memo_key_def project_cache_key_def Let_def in_cache_bind split: option.splits key_file.splits)

text \<open>What a clean may do to the host: the volumes and directories of the scope it was asked for.\<close>

fun clean_allows :: "'e cache_answers \<Rightarrow> cache_store \<Rightarrow> cache_selection \<Rightarrow> string set \<Rightarrow> cache_effect \<Rightarrow> bool" where
  "clean_allows ans store found only (Volume_Removed v) \<longleftrightarrow>
     st_type store = Volume_Cache \<and> (\<exists>existing. ck_volumes ans = Inr existing \<and> v \<in> set existing) \<and>
     (if sel_scope found = Some Shared then \<exists>name \<in> only. v = shared_cache_volume_name name
      else \<exists>key name. fst (store_key ans store) = Inr key \<and> v = cache_volume_name key name \<and> (only = {} \<or> name \<in> only) \<and>
        (\<forall>n. v \<noteq> shared_cache_volume_name n) \<and>
        (\<forall>other n. length other = length key \<longrightarrow> other \<noteq> key \<longrightarrow> v \<noteq> cache_volume_name other n))"
| "clean_allows ans store found only (Directory_Removed d) \<longleftrightarrow>
     st_type store = Directory_Cache \<and>
     (\<exists>root name entries. d = path_join root name \<and> ck_directory ans root = Some (Inr entries) \<and>
        Inr (name, Inr Entry_Directory) \<in> set entries \<and>
        (if sel_scope found = Some Shared then st_shared_root store = Some root \<and> name \<in> only
         else root = cache_directory (st_project_directory store) \<and> (only = {} \<or> name \<in> only)))"
| "clean_allows ans store found only (Reported e) \<longleftrightarrow> True"
| "clean_allows ans store found only (Directory_Made d) \<longleftrightarrow> ck_key_file ans = No_Key_File \<and> d = cache_directory (st_project_directory store)"
| "clean_allows ans store found only (Key_Written p t) \<longleftrightarrow> ck_key_file ans = No_Key_File \<and> sel_scope found \<noteq> Some Shared"

lemma remove_shared_allowed:
  assumes "x \<in> set (snd (remove_shared ans store only))" "sel_scope found = Some Shared" "only \<noteq> {}"
  shows "clean_allows ans store found only x"
proof (cases "st_type store")
  case Volume_Cache
  with assms obtain existing where "ck_volumes ans = Inr existing"
    "x \<in> set (snd (remove_cache_volumes ans (shared_cache_volume_name []) (matching_shared_cache_volumes existing only)))"
    by (auto simp: remove_shared_def clean_shared_volume_caches_def in_cache_bind)
  with removed_volumes[OF this(2)] matching_volumes(2)[of _ existing only] assms(2) Volume_Cache show ?thesis by auto
next
  case Directory_Cache
  with assms obtain root names where r: "st_shared_root store = Some root"
    "fst (matching_cache_directories ans root only) = Inr names" "x \<in> set (snd (remove_cache_directories ans root names))"
    by (auto simp: remove_shared_def clean_shared_directory_caches_def in_cache_bind matching_directories(2)
        split: option.splits)
  from removed_directories[OF r(3)] consider e where "x = Reported e"
    | name where "name \<in> set names" "x = Directory_Removed (path_join root name)" by blast
  then show ?thesis
  proof cases
    case 2
    from matching_directories(1)[OF r(2) 2(1)] r(1) 2(2) assms(2,3) Directory_Cache show ?thesis by auto
  qed simp
qed

lemma remove_project_allowed:
  assumes "x \<in> set (snd (remove_project ans store only))" "sel_scope found \<noteq> Some Shared"
  shows "clean_allows ans store found only x"
proof (cases "st_type store")
  case Volume_Cache
  with assms(1) consider "x \<in> set (snd (store_key ans store))"
    | key existing where "fst (store_key ans store) = Inr key" "ck_volumes ans = Inr existing"
      "x \<in> set (snd (remove_cache_volumes ans (cache_volume_name key []) (matching_cache_volumes existing (cache_volume_name key []) only)))"
    by (auto simp: remove_project_def clean_volume_caches_def in_cache_bind Let_def)
  then show ?thesis
  proof cases
    case 1
    from project_key_effects[OF 1] assms(2) show ?thesis by auto
  next
    case 2
    from removed_volumes[OF 2(3)] consider e where "x = Reported e"
      | name where "x = Volume_Removed (cache_volume_name key name)" "cache_volume_name key name \<in> set existing" "only = {} \<or> name \<in> only"
      by (auto simp: matching_volumes(1))
    then show ?thesis
    proof cases
      case (2 name)
      have "other \<noteq> key \<longrightarrow> cache_volume_name key name \<noteq> cache_volume_name other n" if "length other = length key" for other n
        using that volume_name_inj(1)[of key name other n] by auto
      then have "\<exists>key' name'. fst (store_key ans store) = Inr key' \<and> cache_volume_name key name = cache_volume_name key' name' \<and>
          (only = {} \<or> name' \<in> only) \<and> (\<forall>n. cache_volume_name key name \<noteq> shared_cache_volume_name n) \<and>
          (\<forall>other n. length other = length key' \<longrightarrow> other \<noteq> key' \<longrightarrow> cache_volume_name key name \<noteq> cache_volume_name other n)"
        using \<open>fst (store_key ans store) = Inr key\<close> 2(3) by (intro exI[of _ key] exI[of _ name]) simp
      with 2(1,2) \<open>ck_volumes ans = Inr existing\<close> assms(2) Volume_Cache show ?thesis by simp
    qed simp
  qed
next
  case Directory_Cache
  let ?root = "cache_directory (st_project_directory store)"
  from assms(1) Directory_Cache consider e where "x = Reported e"
    | matched links where "fst (scan_cache_directories ans ?root only) = Inr (Some (matched, links))"
      "x \<in> set (snd (remove_cache_directories ans ?root matched))"
    by (auto simp: remove_project_def clean_directory_caches_def in_cache_bind Let_def scanned_directories(2)
        split: option.splits elim!: exE[OF report_links_effects])
  then show ?thesis
  proof cases
    case 2
    from removed_directories[OF 2(2)] scanned_directories(1)[OF 2(1)] assms(2) Directory_Cache show ?thesis by force
  qed simp
qed

text \<open>
  C34 (cache_clean_safe): cleaning caches removes only what it was asked for. A clean of the project's caches
  removes only volumes named after the project's own key, never a shared one and never one of another project
  whose key has the same length, and only directories, never links, directly under the project's cache root;
  a clean of shared caches removes only the ones it names. An invocation that names a shared cache without asking for that scope,
  or asks for that scope and names none, is refused and does nothing.
\<close>

theorem cache_clean_safe:
  "(\<forall>x \<in> set (snd (store_remove ans store found only)). clean_allows ans store found only x) \<and>
   (sel_scope found \<noteq> Some Shared \<and> only \<inter> set (sel_shared found) \<noteq> {} \<or> sel_scope found = Some Shared \<and> only = {} \<longrightarrow>
     (\<exists>refusal. store_remove ans store found only = (Inr (Inl refusal), [])))"
proof -
  have shared: "shared_only found only = [] \<longleftrightarrow> only \<inter> set (sel_shared found) = {}"
    unfolding set_empty[symmetric] by (simp add: shared_only_def Int_def conj_commute)
  have "clean_allows ans store found only x" if "x \<in> set (snd (store_remove ans store found only))" for x
    using that remove_shared_allowed[of x ans store only found] remove_project_allowed[of x ans store only found]
    by (auto simp: store_remove_def in_cache_bind split: if_splits list.splits)
  moreover have "\<exists>refusal. store_remove ans store found only = (Inr (Inl refusal), [])"
    if "sel_scope found \<noteq> Some Shared \<and> only \<inter> set (sel_shared found) \<noteq> {} \<or> sel_scope found = Some Shared \<and> only = {}"
    using that shared by (auto simp: store_remove_def split: list.splits)
  ultimately show ?thesis by blast
qed


definition example_answers :: "unit cache_answers" where
  "example_answers = \<lparr>ck_key_file = Key_Contents (key_file_text ''k1''), ck_uuid = ''u'', ck_lossy = id, ck_home = Inr ''/home/me'',
     ck_make_directory = (\<lambda>_. Inr ()), ck_write_key = Inr (),
     ck_volumes = Inr [cache_volume_name ''k1'' ''cargo'', cache_volume_name ''k2'' ''cargo'', shared_cache_volume_name ''npm''],
     ck_remove_volume = (\<lambda>_. Inr ()), ck_directory = (\<lambda>_. None), ck_remove_directory = (\<lambda>_. Inr ())\<rparr>"

definition example_store :: cache_store where
  "example_store = \<lparr>st_type = Volume_Cache, st_project_directory = ''/p'', st_shared_root = None, st_key = None\<rparr>"

lemma example_key: "(read_project_cache_key (key_file_text ''k1'') :: (unit cache_error, string) result) = Inr ''k1''"
  by code_simp

lemma example_listing:
  "store_list example_answers example_store None =
     (Inr (\<lparr>sel_owned = [''cargo''], sel_shared = [''npm''], sel_scope = None\<rparr>, example_store\<lparr>st_key := Some ''k1''\<rparr>), [])"
  by code_simp

theorem cache_clean_safe_witness:
  "snd (store_remove example_answers example_store \<lparr>sel_owned = [''cargo''], sel_shared = [''npm''], sel_scope = None\<rparr> {}) =
     [Reported (Removing \<lparr>rc_name = ''cargo'', rc_storage = ''batect-cache-k1-cargo''\<rparr>), Volume_Removed ''batect-cache-k1-cargo'',
      Reported (Removed \<lparr>rc_name = ''cargo'', rc_storage = ''batect-cache-k1-cargo''\<rparr>)] \<and>
   (\<exists>refusal. store_remove example_answers example_store \<lparr>sel_owned = [''cargo''], sel_shared = [''npm''], sel_scope = None\<rparr> {''npm''} =
      (Inr (Inl refusal), [])) \<and>
   clean_allows example_answers example_store \<lparr>sel_owned = [''cargo''], sel_shared = [''npm''], sel_scope = None\<rparr> {} (Volume_Removed ''batect-cache-k1-cargo'')"
proof -
  let ?found = "\<lparr>sel_owned = [''cargo''], sel_shared = [''npm''], sel_scope = None\<rparr>"
  have run: "snd (store_remove example_answers example_store ?found {}) =
     [Reported (Removing \<lparr>rc_name = ''cargo'', rc_storage = ''batect-cache-k1-cargo''\<rparr>), Volume_Removed ''batect-cache-k1-cargo'',
      Reported (Removed \<lparr>rc_name = ''cargo'', rc_storage = ''batect-cache-k1-cargo''\<rparr>)]"
    by code_simp
  moreover have "Volume_Removed ''batect-cache-k1-cargo'' \<in> set (snd (store_remove example_answers example_store ?found {}))"
    unfolding run by simp
  ultimately show ?thesis
    using cache_clean_safe[of example_answers example_store ?found "{}"] cache_clean_safe[of example_answers example_store ?found "{''npm''}"]
    by auto
qed

lemma scoped_volumes:
  "scoped_volume (Some key) v = Some (name, Project) \<longleftrightarrow> v = cache_volume_name key name"
  "scoped_volume key' v = Some (name, Shared) \<longleftrightarrow> v = shared_cache_volume_name name"
proof -
  show "scoped_volume (Some key) v = Some (name, Project) \<longleftrightarrow> v = cache_volume_name key name"
    by (auto simp: scoped_volume_def split: option.splits dest: volume_name_inj)
  have "strip_prefix (cache_volume_name k []) (shared_cache_volume_name name) = None" for k
    by (simp add: strip_prefix_None)
  then show "scoped_volume key' v = Some (name, Shared) \<longleftrightarrow> v = shared_cache_volume_name name"
    by (cases key') (auto simp: scoped_volume_def split: option.splits)
qed

lemma listed_volumes:
  "fst (list_all_volume_caches ans key) = Inr found \<Longrightarrow> ck_volumes ans = Inr existing \<Longrightarrow>
     (name, s) \<in> set found \<longleftrightarrow> (\<exists>v \<in> set existing. scoped_volume key v = Some (name, s))"
  by (force simp: list_all_volume_caches_def fst_cache_bind List.map_filter_def image_iff)

lemma store_list_volumes:
  assumes "fst (store_list ans store scope) = Inr (found, store')" "st_type store = Volume_Cache"
  obtains key fs where "fst (list_all_volume_caches ans key) = Inr fs"
    "if scope = Some Shared then key = None else \<exists>k. key = Some k \<and> fst (store_key ans store) = Inr k"
    "set (sel_owned found) = (if scope = Some Shared then {} else {n. (n, Project) \<in> set fs})"
    "set (sel_shared found) = (if scope = Some Project then {} else {n. (n, Shared) \<in> set fs})"
    "st_key store' = opt_or (st_key store) key"
proof -
  have sets: "fst ` {x \<in> set fs. case x of (_, s) \<Rightarrow> s = t} = {n. (n, t) \<in> set fs}" for fs :: "(string \<times> cache_scope) list" and t
    by force
  from assms obtain key fs where key: "fst (if scope = Some Shared then (Ok None, []) else
        cache_bind (store_key ans store) (\<lambda>key. (Ok (Some key), []))) = Inr key"
      and fs: "fst (list_all_volume_caches ans key) = Inr fs"
      and found: "found = \<lparr>sel_owned = sort (if scope = Some Shared then [] else map fst (filter (\<lambda>(_, s). s = Project) fs)),
               sel_shared = sort (if scope = Some Project then [] else map fst (filter (\<lambda>(_, s). s = Shared) fs)), sel_scope = scope\<rparr>"
      and store': "store' = store\<lparr>st_key := opt_or (st_key store) key\<rparr>"
    unfolding store_list_def fst_cache_bind by (clarsimp simp: fst_cache_bind)
  show thesis
  proof (rule that[OF fs])
    show "if scope = Some Shared then key = None else \<exists>k. key = Some k \<and> fst (store_key ans store) = Inr k"
      using key by (auto simp: fst_cache_bind split: if_splits)
  qed (simp_all add: found store' sets)
qed




text \<open>With a name the load-time check accepts, a cache directory lies directly under its root.\<close>

lemma valid_cache_under_root:
  "validate_cache_name name \<Longrightarrow> root \<noteq> [] \<Longrightarrow> \<not> ends_with root ''/'' \<Longrightarrow> path_join root name = root @ ''/'' @ name"
  using validate_cache_name_safe[of name] by (simp add: path_join_def)

lemma key_written_is_read:
  assumes key: "CHR 10 \<notin> set key" "CHR 13 \<notin> set key" "trim key = key" "key \<noteq> []" "\<not> starts_with key ''#''"
  shows "read_project_cache_key (key_file_text key) = Inr key"
proof -
  let ?a = "''# This file was autogenerated to track which Docker volumes are associated with this project.''"
  let ?b = "''# Do not modify it, and do not commit it to source control.''"
  have "split (CHR 10) (key_file_text key) = [?a, ?b, key, []]"
    using split_append[of "CHR 10" ?a] split_append[of "CHR 10" ?b] split_append[OF key(1)] by (simp add: key_file_text_def)
  then have "str_lines (key_file_text key) = map (\<lambda>l. case strip_suffix [CHR 13] l of Some l' \<Rightarrow> l' | None \<Rightarrow> l) [?a, ?b, key]"
    by (simp add: str_lines_def)
  moreover have "strip_suffix [CHR 13] l = None" if "CHR 13 \<notin> set l" for l
    using that by (auto simp: strip_suffix_None)
  ultimately have "str_lines (key_file_text key) = [?a, ?b, key]" using key(2) by simp
  moreover have "starts_with (trim ?a) ''#''" "starts_with (trim ?b) ''#''" by code_simp+
  ultimately show ?thesis using key(3-5) by (simp add: read_project_cache_key_def)
qed


end
