(* ===== verification/Failures.thy ===== *)
theory Failures
  imports Exit_Codes Caches
begin

text \<open>
  The errors of a task's run (\<open>src/ratect-core/src/engine.rs\<close>): an error the program built is a value of a known
  type, a message, or another error with a context added. A step that fails is tagged with its cause
  (\<open>Failed::tag\<close>), found again by \<open>failed_step\<close>; \<open>NotReady\<close> marks the failures whose report ends with a hint; and an
  error that several callers share is flattened to its text by \<open>unshare\<close>, which keeps both marks. How \<open>anyhow\<close> prints
  an error is an argument.
\<close>

section \<open>Errors as values\<close>

datatype engine_message =
    Flattened string
  | Undeclared_Container string
  | Run_In_Not_Started string string string
  | Check_Failed string string string
  | Ran_To_Completion_With string "64 word"

datatype 'e run_error =
    Foreign 'e
  | Told engine_message
  | Spec_Failed spec_error
  | Cache_Failed "'e cache_error"
  | Mapping_Failed "'e mapping_error"
  | Of_Type "'e run_error typed_error"
  | In_Context string "'e run_error"
  | In_Not_Ready_Context string "'e run_error"

text \<open>A downcast sees a context's own type, and looks through it at the error inside.\<close>

fun downcast_run_error :: "error_type \<Rightarrow> 'e run_error \<Rightarrow> 'e run_error typed_error option" where
  "downcast_run_error k (Foreign e) = None"
| "downcast_run_error k (Told m) = None"
| "downcast_run_error k (Spec_Failed se) = None"
| "downcast_run_error k (Cache_Failed ce) = None"
| "downcast_run_error k (Mapping_Failed me) = None"
| "downcast_run_error k (Of_Type t) = (if type_of t = k then Some t else None)"
| "downcast_run_error k (In_Context m e) = downcast_run_error k e"
| "downcast_run_error k (In_Not_Ready_Context m e) = (if k = NotReady then Some (Not_Ready m) else downcast_run_error k e)"

definition run_error_crate :: "'e run_error anyhow_crate" where
  "run_error_crate = \<lparr>error_new = Of_Type, downcast_ref = downcast_run_error\<rparr>"

lemma downcast_type: "downcast_run_error k e = Some t \<Longrightarrow> type_of t = k"
  by (induction k e rule: downcast_run_error.induct) (auto split: if_splits)

lemma run_error_downcasts: "downcasts run_error_crate"
  by (auto simp: downcasts_def run_error_crate_def downcast_type)

lemma downcast_smaller: "downcast_run_error k e = Some t \<Longrightarrow> x \<in> set_typed_error t \<Longrightarrow> size x < size e"
proof (induction k e rule: downcast_run_error.induct)
  case (6 k t')
  then show ?case by (cases t') (auto split: if_splits)
qed (auto split: if_splits)

section \<open>The step that failed\<close>

definition failed_tag :: "'e run_error \<Rightarrow> cleanup_cause \<Rightarrow> 'e run_error" where
  "failed_tag e cause = Of_Type (Failed_At cause e)"

definition of_container :: "string \<Rightarrow> string option \<Rightarrow> (string \<Rightarrow> cleanup_cause) \<Rightarrow> cleanup_cause" where
  "of_container name reports cause = (case reports of Some checked \<Rightarrow> Not_Healthy checked | None \<Rightarrow> cause name)"

function failed_step :: "'e run_error \<Rightarrow> cleanup_cause option" where
  "failed_step e = (case downcast_run_error Failed e of
       Some (Failed_At cause _) \<Rightarrow> Some cause
     | _ \<Rightarrow> (case downcast_run_error FailureReported e of
           Some (Failure_Reported inner) \<Rightarrow> failed_step inner | _ \<Rightarrow> None))"
  by pat_completeness auto
termination
  by (relation "measure size") (auto dest: downcast_smaller)

function is_not_ready :: "'e run_error \<Rightarrow> bool" where
  "is_not_ready e = (downcast_run_error NotReady e \<noteq> None \<or>
     (case downcast_run_error Failed e of Some (Failed_At _ inner) \<Rightarrow> is_not_ready inner | _ \<Rightarrow> False))"
  by pat_completeness auto
termination
  by (relation "measure size") (auto dest: downcast_smaller)

declare failed_step.simps [simp del] is_not_ready.simps [simp del]

lemma failed_step_simps [simp]:
  "failed_step (Foreign x) = None" "failed_step (Told m') = None"
  "failed_step (Spec_Failed se) = None" "failed_step (Cache_Failed ce) = None" "failed_step (Mapping_Failed me) = None"
  "failed_step (Of_Type (Failed_At c e)) = Some c" "failed_step (Of_Type (Not_Ready m)) = None"
  "failed_step (Of_Type (Failure_Reported e)) = failed_step e" "failed_step (Of_Type (Task_Interrupted_By s)) = None"
  by (simp_all add: failed_step.simps)

lemma failed_step_context [simp]:
  "failed_step (In_Context m e) = failed_step e" "failed_step (In_Not_Ready_Context m e) = failed_step e"
  unfolding failed_step.simps[of "In_Context m e"] failed_step.simps[of "In_Not_Ready_Context m e"] failed_step.simps[of e]
    downcast_run_error.simps by simp_all

lemma is_not_ready_simps [simp]:
  "\<not> is_not_ready (Spec_Failed se)" "\<not> is_not_ready (Cache_Failed ce)" "\<not> is_not_ready (Mapping_Failed me)"
  "\<not> is_not_ready (Foreign x)" "\<not> is_not_ready (Told m')" "is_not_ready (Of_Type (Not_Ready m))"
  "is_not_ready (In_Not_Ready_Context m e)" "is_not_ready (Of_Type (Failed_At c e)) \<longleftrightarrow> is_not_ready e"
  "\<not> is_not_ready (Of_Type (Task_Interrupted_By s))"
  by (subst is_not_ready.simps, simp)+

lemma is_not_ready_context [simp]: "is_not_ready (In_Context m e) \<longleftrightarrow> is_not_ready e"
  unfolding is_not_ready.simps[of "In_Context m e"] is_not_ready.simps[of e] downcast_run_error.simps by simp

definition flattened :: "('e run_error \<Rightarrow> string) \<Rightarrow> 'e run_error \<Rightarrow> 'e run_error" where
  "flattened debug e =
     (let text = (if is_not_ready e then Of_Type (Not_Ready (debug e)) else Told (Flattened (debug e))) in
      case failed_step e of Some cause \<Rightarrow> failed_tag text cause | None \<Rightarrow> text)"

definition unshare :: "('e run_error \<Rightarrow> string) \<Rightarrow> ('e run_error, 'a) result \<Rightarrow> ('e run_error, 'a) result" where
  "unshare debug r = map_err (flattened debug) r"

lemma unshare_simps [simp]: "unshare debug (Inr a) = Inr a" "unshare debug (Inl e) = Inl (flattened debug e)"
  by (simp_all add: unshare_def)

lemma flattened_keeps_marks [simp]:
  "failed_step (flattened debug e) = failed_step e" "is_not_ready (flattened debug e) = is_not_ready e"
  by (auto simp: flattened_def Let_def failed_tag_def split: option.splits)

section \<open>What is reported\<close>

definition RERUN_WITHOUT_CLEANUP_HINT :: string where
  "RERUN_WITHOUT_CLEANUP_HINT = ''You can re-run the task with --no-cleanup-after-failure to leave its containers in place and diagnose the failure.''"

text \<open>The text of the \<open>Error:\<close> line posted before cleanup, and the cause the opening cleanup line names.\<close>

definition error_report :: "('e run_error \<Rightarrow> string) \<Rightarrow> bool \<Rightarrow> 'e run_error \<Rightarrow> string" where
  "error_report debug after_failure e = debug e @
     (if after_failure \<and> is_not_ready e then [CHR 10, CHR 10] @ RERUN_WITHOUT_CLEANUP_HINT else [])"

definition cause_of_cleanup :: "string \<Rightarrow> ('e run_error, unit) result \<Rightarrow> cleanup_cause option" where
  "cause_of_cleanup task r =
     (let interrupted_or_closed = (case r of Inl e \<Rightarrow> is_error run_error_crate TaskInterrupted e \<or> is_error run_error_crate StdoutClosed e
            | Inr _ \<Rightarrow> False) in
      if interrupted_or_closed then None
      else case own_exit_code run_error_crate r of
          Some code \<Rightarrow> if code = 0 then None else Some (Cause_Exited task code)
        | None \<Rightarrow> Some (case fst (report_failure run_error_crate r) of Inr _ \<Rightarrow> Cause_Failed task
             | Inl e \<Rightarrow> (case failed_step e of Some cause \<Rightarrow> cause | None \<Rightarrow> Cause_Failed task)))"

end
