(* ===== verification/Startup.thy ===== *)
theory Startup
  imports Failures Create_Request Cleanup Output_Lines User_Files
begin

text \<open>
  From the task's network to its containers being ready (\<open>src/ratect-core/src/engine.rs\<close>):
  \<open>ensure_container_created\<close>, \<open>ensure_container_ready\<close>, \<open>run_setup_commands\<close>, and the part of \<open>run_task_internal\<close> that
  runs them for every container of the graph at once. Each function is memoised per container, so a container has one
  creation and one readiness under way at a time: the stage each has reached is the state, the daemon's answers and the
  code's own turns are events, and \<open>startup_step\<close> is the transition. When the run fails or a signal ends it, what is
  under way is dropped, except the create requests already sent, which register what they created.
\<close>

section \<open>Setup commands\<close>

record setup_context =
  sx_name :: string
  sx_container_id :: string
  sx_working_directory :: "string option"
  sx_environment :: "string index_map option"
  sx_process_user :: "string option"
  sx_dependency_ids :: "string index_map"

record exec_request =
  xr_container_id :: string
  xr_command :: string
  xr_working_directory :: "string option"
  xr_environment :: "string index_map option"
  xr_process_user :: "string option"

record exec_result =
  er_exit_code :: "64 word"
  er_output :: string

definition quoted :: "string \<Rightarrow> string" where
  "quoted s = [CHR 39] @ s @ [CHR 39]"

definition show_i64 :: "64 word \<Rightarrow> string" where
  "show_i64 w = (if sint w < 0 then ''-'' @ show_nat (nat (- sint w)) else show_nat (nat (sint w)))"

definition elsewhere :: "setup_context \<Rightarrow> setup_command \<Rightarrow> string option" where
  "elsewhere ctx sc = (case sc_run_in sc of Some target \<Rightarrow> if target \<noteq> sx_name ctx then Some target else None | None \<Rightarrow> None)"

definition exec_target :: "setup_context \<Rightarrow> setup_command \<Rightarrow> ('e run_error, exec_request \<times> string) result" where
  "exec_target ctx sc = (case elsewhere ctx sc of
       Some target \<Rightarrow> (case im_get (sx_dependency_ids ctx) target of
           None \<Rightarrow> Err (Told (Run_In_Not_Started (sc_command sc) (sx_name ctx) target))
         | Some i \<Rightarrow> Ok (\<lparr>xr_container_id = i, xr_command = sc_command sc,
             xr_working_directory = sc_working_directory sc, xr_environment = None, xr_process_user = None\<rparr>,
             quoted target @ '' (a setup command of container '' @ quoted (sx_name ctx) @ '')''))
     | None \<Rightarrow> Ok (\<lparr>xr_container_id = sx_container_id ctx, xr_command = sc_command sc,
         xr_working_directory = opt_or (sc_working_directory sc) (sx_working_directory ctx),
         xr_environment = sx_environment ctx, xr_process_user = sx_process_user ctx\<rparr>, quoted (sx_name ctx)))"

text \<open>The daemon's answer to the command of the given index, counted from 0.\<close>

definition setup_answer ::
  "setup_context \<Rightarrow> nat \<Rightarrow> setup_command \<Rightarrow> string \<Rightarrow> ('e, exec_result) result \<Rightarrow> ('e run_error, unit) result" where
  "setup_answer ctx i sc description answer = (case answer of
       Inl e \<Rightarrow> Err (failed_tag (In_Not_Ready_Context (''Failed to run setup command '' @ quoted (sc_command sc) @
             '' in container '' @ description) (Foreign e)) (Setup_Command_Not_Run (sx_name ctx) (i + 1)))
     | Inr r \<Rightarrow> if er_exit_code r = 0 then Ok ()
         else Err (failed_tag (Of_Type (Not_Ready (''Setup command '' @ quoted (sc_command sc) @ '' in container '' @ description @
             '' exited with code '' @ show_i64 (er_exit_code r) @
             (if trim (er_output r) = [] then '', and did not produce any output''
              else '', with output:'' @ [CHR 10] @ trim (er_output r)))))
           (Setup_Command_Exited (sx_name ctx) (i + 1) (er_exit_code r))))"

section \<open>What the run tells and asks\<close>

datatype task_event =
    Image_Resolved string
  | Container_Creating string
  | Container_Created string
  | Dependency_Starting string
  | Dependency_Started string
  | Container_Became_Healthy string
  | Dependency_Completed string
  | Running_Setup_Command string string nat nat "string option"
  | Setup_Command_Output string nat string
  | Setup_Commands_Completed string
  | Remap_Warning string daemon_class
  | Identity_Warning "string \<times> string \<times> daemon_class"

definition setup_output :: "bool \<Rightarrow> string \<Rightarrow> nat \<Rightarrow> string \<Rightarrow> task_event list" where
  "setup_output wanted name i output = (if \<not> wanted then [] else
     (case buffer_push new_buffer output of (b, ls) \<Rightarrow> case buffer_flush b of (_, ls') \<Rightarrow>
       map (Setup_Command_Output name (i + 1)) (ls @ ls')))"

text \<open>The requests sent to the daemon for a container, and the answers that bring it forward, in order.\<close>

datatype startup_log =
    Create_Sent string container_spec
  | Created_With_Id string string
  | Start_Sent string
  | Was_Started string
  | Is_Healthy string
  | Exited_With string "64 word"
  | Exec_Sent string nat exec_request
  | Exec_Succeeded string nat
  | Is_Ready string
  | Image_Refused string
  | Create_Refused string
  | Start_Refused string
  | Health_Refused string
  | Exec_Refused string nat
  | Exec_Exited string nat "64 word"

section \<open>The stages of a container\<close>

datatype 'e create_stage =
    Uncreated
  | Asking_Host_User
  | Asking_Class "current_user option"
  | Resolving_Image "current_user option"
  | Awaiting_Target "current_user option" string
  | Awaiting_Create_Permit container_spec
  | Creating container_spec
  | Applying_Identity string container_spec
  | Create_Done "('e run_error, string \<times> container_spec) result"

datatype 'e ready_stage =
    Not_Reached
  | Awaiting_Dependencies
  | Awaiting_Created
  | Awaiting_Start_Permit string container_spec
  | Starting string container_spec
  | Awaiting_Exit string
  | Reading_Output string
  | Awaiting_Health string container_spec
  | Awaiting_Exec_Permit string container_spec nat
  | Executing string container_spec nat
  | Ready_Done "('e run_error, string) result"

datatype 'e startup_phase = Starting_Up | All_Ready | Ended_With "'e run_error"

record 'e startup_env =
  se_context :: run_context
  se_graph :: dep_graph
  se_max_parallelism :: "nat option"
  se_progress_detail :: bool
  se_debug :: "'e run_error \<Rightarrow> string"
  se_cache_options :: cache_options

record 'e startup_state =
  su_create :: "string \<Rightarrow> 'e create_stage"
  su_ready :: "string \<Rightarrow> 'e ready_stage"
  su_created :: "string index_map"
  su_started :: "string set"
  su_watched :: "string list"
  su_warned :: "task_event set"
  su_cache_key :: "string option"
  su_cache_effects :: "cache_effect list"
  su_phase :: "'e startup_phase"
  su_posted :: "task_event list"
  su_log :: "startup_log list"

datatype 'e startup_event =
    Begin_Create string
  | Host_User_Answer string "('e, current_user option) result"
  | Class_Answer string "('e, daemon_class) result"
  | Image_Answer string "('e, string) result"
  | Prepare string "('e, current_user) result" "'e cache_answers"
  | Create_Permit string
  | Create_Answer string "(string option \<times> 'e, string) result"
  | Identity_Answer string "(string \<times> string \<times> daemon_class) list" "('e, unit) result"
  | Begin_Ready string
  | Dependency_Failed string string
  | Dependencies_Ready string
  | Created_Awaited string
  | Start_Permit string
  | Start_Answer string "('e, unit) result"
  | Exit_Answer string "('e, 64 word) result"
  | Output_Answer string "('e, string) result"
  | Health_Answer string "('e, unit) result"
  | Exec_Permit string
  | Exec_Answer string "('e, exec_result) result"
  | Creation_Failed string
  | Readiness_Failed string
  | Joined
  | Signal_Arrived termination_signal

section \<open>The operations\<close>

definition root_of :: "'e startup_env \<Rightarrow> string" where
  "root_of env = tr_container (rc_run (se_context env))"

definition config_of :: "'e startup_env \<Rightarrow> string \<Rightarrow> container option" where
  "config_of env name = im_get (rc_containers (se_context env)) name"

definition task_names_of :: "'e startup_env \<Rightarrow> string list" where
  "task_names_of env = im_keys (se_graph env)"

definition post :: "task_event list \<Rightarrow> 'e startup_state \<Rightarrow> 'e startup_state" where
  "post es st = st\<lparr>su_posted := su_posted st @ es\<rparr>"

definition logged :: "startup_log \<Rightarrow> 'e startup_state \<Rightarrow> 'e startup_state" where
  "logged l st = st\<lparr>su_log := su_log st @ [l]\<rparr>"

definition narrate :: "container \<Rightarrow> task_event \<Rightarrow> 'e startup_state \<Rightarrow> 'e startup_state" where
  "narrate c e st = (if reports_readiness_for c = None then post [e] st else st)"

definition warn_once :: "task_event \<Rightarrow> 'e startup_state \<Rightarrow> 'e startup_state" where
  "warn_once w st = (if w \<in> su_warned st then st else post [w] (st\<lparr>su_warned := insert w (su_warned st)\<rparr>))"

definition set_create :: "string \<Rightarrow> 'e create_stage \<Rightarrow> 'e startup_state \<Rightarrow> 'e startup_state" where
  "set_create name stage st = st\<lparr>su_create := (su_create st)(name := stage)\<rparr>"

definition set_ready :: "string \<Rightarrow> 'e ready_stage \<Rightarrow> 'e startup_state \<Rightarrow> 'e startup_state" where
  "set_ready name stage st = st\<lparr>su_ready := (su_ready st)(name := stage)\<rparr>"

definition fail_create :: "string \<Rightarrow> 'e run_error \<Rightarrow> 'e startup_state \<Rightarrow> 'e startup_state" where
  "fail_create name e = set_create name (Create_Done (Err e))"

definition fail_ready :: "string \<Rightarrow> 'e run_error \<Rightarrow> 'e startup_state \<Rightarrow> 'e startup_state" where
  "fail_ready name e = set_ready name (Ready_Done (Err e))"

text \<open>\<open>acquire_parallelism_permit\<close>: a permit is held around a create, a start and a setup command.\<close>

fun creating :: "'e create_stage \<Rightarrow> bool" where
  "creating (Creating _) = True"
| "creating (Applying_Identity _ _) = True"
| "creating _ = False"

fun asking_daemon :: "'e ready_stage \<Rightarrow> bool" where
  "asking_daemon (Starting _ _) = True"
| "asking_daemon (Executing _ _ _) = True"
| "asking_daemon _ = False"

definition permits_held :: "'e startup_env \<Rightarrow> 'e startup_state \<Rightarrow> nat" where
  "permits_held env st = length (filter (\<lambda>n. creating (su_create st n)) (task_names_of env)) +
     length (filter (\<lambda>n. asking_daemon (su_ready st n)) (task_names_of env))"

definition permit_free :: "'e startup_env \<Rightarrow> 'e startup_state \<Rightarrow> bool" where
  "permit_free env st = (case se_max_parallelism env of None \<Rightarrow> True | Some k \<Rightarrow> permits_held env st < k)"

definition network_target :: "container \<Rightarrow> string option" where
  "network_target c = (case network_mode c of Some (Container_Network t) \<Rightarrow> Some t | _ \<Rightarrow> None)"

subsection \<open>Creating a container\<close>

definition begin_create :: "'e startup_env \<Rightarrow> string \<Rightarrow> 'e startup_state \<Rightarrow> 'e startup_state" where
  "begin_create env name st = (case config_of env name of
       None \<Rightarrow> fail_create name (Told (Undeclared_Container name)) st
     | Some c \<Rightarrow> set_create name (if identity c \<noteq> None then Asking_Host_User
         else if user c \<noteq> None then Asking_Class None else Resolving_Image None) st)"

definition host_user_answer :: "string \<Rightarrow> ('e, current_user option) result \<Rightarrow> 'e startup_state \<Rightarrow> 'e startup_state" where
  "host_user_answer name answer st = (case answer of
       Inl e \<Rightarrow> fail_create name (Foreign e) st | Inr u \<Rightarrow> set_create name (Asking_Class u) st)"

text \<open>Whether \<open>remapped_daemon_warning\<close> has something to say; its text names the container and the class.\<close>

definition remapped_daemon_warning :: "string \<Rightarrow> container \<Rightarrow> daemon_class \<Rightarrow> task_event option" where
  "remapped_daemon_warning name c class =
     (if identity c \<noteq> None then (if class = Userns_Remap then Some (Remap_Warning name class) else None)
      else case user c of None \<Rightarrow> None
        | Some u \<Rightarrow> if is_root_user u \<or> \<not> is_remapped class then None else Some (Remap_Warning name class))"

definition class_answer ::
  "string \<Rightarrow> container \<Rightarrow> current_user option \<Rightarrow> ('e, daemon_class) result \<Rightarrow> 'e startup_state \<Rightarrow> 'e startup_state" where
  "class_answer name c u answer st = set_create name (Resolving_Image u)
     (case answer of Inl _ \<Rightarrow> st
      | Inr class \<Rightarrow> (case remapped_daemon_warning name c class of None \<Rightarrow> st | Some w \<Rightarrow> warn_once w st))"

definition image_answer ::
  "'e startup_env \<Rightarrow> string \<Rightarrow> container \<Rightarrow> current_user option \<Rightarrow> ('e, string) result \<Rightarrow> 'e startup_state \<Rightarrow> 'e startup_state" where
  "image_answer env name c u answer st = (case answer of
       Inl e \<Rightarrow> fail_create name (flattened (se_debug env) (failed_tag (Foreign e) (of_container name (reports_readiness_for c)
           (if build_directory c \<noteq> None then Image_Build_Failed else Image_Pull_Failed)))) (logged (Image_Refused name) st)
     | Inr i \<Rightarrow> set_create name (Awaiting_Target u i) (narrate c (Image_Resolved name) st))"

text \<open>The id of the container whose network is shared, once that container is created; \<open>None\<close> while it is not.\<close>

definition target_created ::
  "'e startup_env \<Rightarrow> container \<Rightarrow> 'e startup_state \<Rightarrow> ('e run_error, string index_map) result option" where
  "target_created env c st = (case network_target c of
       None \<Rightarrow> Some (Ok [])
     | Some t \<Rightarrow> (case su_create st t of
           Create_Done r \<Rightarrow> Some (rbind (unshare (se_debug env) r) (\<lambda>(i, _). Ok [(t, i)])) | _ \<Rightarrow> None))"

definition prepared_spec ::
  "'e startup_env \<Rightarrow> string \<Rightarrow> container \<Rightarrow> string index_map \<Rightarrow> current_user option \<Rightarrow> string \<Rightarrow>
     ('e, current_user) result \<Rightarrow> 'e cache_answers \<Rightarrow> 'e startup_state \<Rightarrow> ('e run_error, container_spec) result \<times> 'e startup_state" where
  "prepared_spec env name c ids u i current ans st =
     (case rbind (map_err Spec_Failed (resolve_network (network_mode c) (rc_network (se_context env)) ids)) (\<lambda>network.
           rbind (map_err Mapping_Failed (resolve_user_mapping current c)) (\<lambda>mapping. Ok (network, mapping))) of
        Inl e \<Rightarrow> (Err e, st)
      | Inr (network, mapping) \<Rightarrow>
          (case resolve_volumes ans (se_cache_options env) (su_cache_key st) (volumes c) of
             (Inl e, effects) \<Rightarrow> (Err (Cache_Failed e), st\<lparr>su_cache_effects := su_cache_effects st @ effects\<rparr>)
           | (Inr (mounts, key), effects) \<Rightarrow>
               (Ok (derive_spec (spec_inputs_for (se_context env) \<lparr>cf_image = i, cf_created_ids = (\<lambda>t. unwrap_or (im_get ids t) []),
                    cf_user_mapping = mapping, cf_identity_host_user = u, cf_volumes = mounts\<rparr> name c network)),
                st\<lparr>su_cache_key := key, su_cache_effects := su_cache_effects st @ effects\<rparr>)))"

definition prepare_create ::
  "'e startup_env \<Rightarrow> string \<Rightarrow> container \<Rightarrow> current_user option \<Rightarrow> string \<Rightarrow> ('e, current_user) result \<Rightarrow> 'e cache_answers \<Rightarrow>
     'e startup_state \<Rightarrow> 'e startup_state option" where
  "prepare_create env name c u i current ans st = (case target_created env c st of
       None \<Rightarrow> None
     | Some (Inl e) \<Rightarrow> Some (fail_create name e st)
     | Some (Inr ids) \<Rightarrow> (case prepared_spec env name c ids u i current ans st of
           (Inl e, st') \<Rightarrow> Some (fail_create name e st')
         | (Inr spec, st') \<Rightarrow> Some (set_create name (Awaiting_Create_Permit spec) st')))"

definition send_create :: "string \<Rightarrow> container \<Rightarrow> container_spec \<Rightarrow> 'e startup_state \<Rightarrow> 'e startup_state" where
  "send_create name c spec st =
     set_create name (Creating spec) (logged (Create_Sent name spec) (narrate c (Container_Creating name) st))"

definition create_failed :: "string \<Rightarrow> container \<Rightarrow> 'e \<Rightarrow> 'e startup_state \<Rightarrow> 'e startup_state" where
  "create_failed name c e st = fail_create name (failed_tag (Foreign e) (of_container name (reports_readiness_for c) Create_Failed))
     (logged (Create_Refused name) st)"

definition register :: "string \<Rightarrow> string \<Rightarrow> 'e startup_state \<Rightarrow> 'e startup_state" where
  "register name i st = logged (Created_With_Id name i) (st\<lparr>su_created := im_insert (su_created st) name i\<rparr>)"

definition create_answer ::
  "string \<Rightarrow> container \<Rightarrow> container_spec \<Rightarrow> (string option \<times> 'e, string) result \<Rightarrow> 'e startup_state \<Rightarrow> 'e startup_state" where
  "create_answer name c spec answer st = (case answer of
       Inr i \<Rightarrow> set_create name (Applying_Identity i spec) (register name i st)
     | Inl (Some i, e) \<Rightarrow> create_failed name c e (register name i st)
     | Inl (None, e) \<Rightarrow> create_failed name c e st)"

definition identity_answer ::
  "string \<Rightarrow> container \<Rightarrow> string \<Rightarrow> container_spec \<Rightarrow> (string \<times> string \<times> daemon_class) list \<Rightarrow> ('e, unit) result \<Rightarrow>
     'e startup_state \<Rightarrow> 'e startup_state" where
  "identity_answer name c i spec warnings answer st =
     (let st' = foldl (\<lambda>st w. warn_once (Identity_Warning w) st) st warnings in
      case answer of
        Inl e \<Rightarrow> create_failed name c e st'
      | Inr _ \<Rightarrow> set_create name (Create_Done (Ok (i, spec))) (narrate c (Container_Created name) st'))"


subsection \<open>Bringing a container to readiness\<close>

definition dependency_ids :: "'e startup_env \<Rightarrow> string \<Rightarrow> 'e startup_state \<Rightarrow> string index_map" where
  "dependency_ids env name st = List.map_filter (\<lambda>d. case su_ready st d of
       Ready_Done (Inr i) \<Rightarrow> Some (d, i) | _ \<Rightarrow> None) (graph_succs (se_graph env) name)"

definition setup_context_of :: "'e startup_env \<Rightarrow> string \<Rightarrow> string \<Rightarrow> container_spec \<Rightarrow> 'e startup_state \<Rightarrow> setup_context" where
  "setup_context_of env name i spec st = \<lparr>sx_name = name, sx_container_id = i,
     sx_working_directory = co_working_directory (sc_options (cs_shared spec)),
     sx_environment = sc_environment (cs_shared spec), sx_process_user = sc_process_user (cs_shared spec),
     sx_dependency_ids = dependency_ids env name st\<rparr>"

definition became_ready :: "string \<Rightarrow> string \<Rightarrow> 'e startup_state \<Rightarrow> 'e startup_state" where
  "became_ready name i st = set_ready name (Ready_Done (Ok i)) (logged (Is_Ready name) st)"

text \<open>The setup command of the given index is announced, or, after the last, the container is ready and watched.\<close>

definition next_setup_command ::
  "'e startup_env \<Rightarrow> string \<Rightarrow> container \<Rightarrow> string \<Rightarrow> container_spec \<Rightarrow> nat \<Rightarrow> 'e startup_state \<Rightarrow> 'e startup_state" where
  "next_setup_command env name c i spec k st =
     (let cmds = or_empty (setup_commands c); ctx = setup_context_of env name i spec st in
      if k < length cmds then
        (case exec_target ctx (cmds ! k) of
           Inl e \<Rightarrow> fail_ready name e st
         | Inr _ \<Rightarrow> set_ready name (Awaiting_Exec_Permit i spec k)
             (post [Running_Setup_Command name (sc_command (cmds ! k)) (k + 1) (length cmds) (elsewhere ctx (cmds ! k))] st))
      else became_ready name i ((if cmds = [] then id else post [Setup_Commands_Completed name])
             (st\<lparr>su_watched := su_watched st @ [name]\<rparr>)))"

definition dependencies_ready :: "'e startup_env \<Rightarrow> string \<Rightarrow> 'e startup_state \<Rightarrow> 'e startup_state" where
  "dependencies_ready env name st = (case config_of env name of
       None \<Rightarrow> fail_ready name (Told (Undeclared_Container name)) st | Some _ \<Rightarrow> set_ready name Awaiting_Created st)"

definition created_awaited ::
  "'e startup_env \<Rightarrow> string \<Rightarrow> ('e run_error, string \<times> container_spec) result \<Rightarrow> 'e startup_state \<Rightarrow> 'e startup_state" where
  "created_awaited env name r st = (case unshare (se_debug env) r of
       Inl e \<Rightarrow> fail_ready name e st | Inr (i, spec) \<Rightarrow> set_ready name (Awaiting_Start_Permit i spec) st)"

definition send_start :: "string \<Rightarrow> container \<Rightarrow> string \<Rightarrow> container_spec \<Rightarrow> 'e startup_state \<Rightarrow> 'e startup_state" where
  "send_start name c i spec st =
     set_ready name (Starting i spec) (logged (Start_Sent name) (narrate c (Dependency_Starting name) st))"

definition start_answer ::
  "'e startup_env \<Rightarrow> string \<Rightarrow> container \<Rightarrow> string \<Rightarrow> container_spec \<Rightarrow> ('e, unit) result \<Rightarrow> 'e startup_state \<Rightarrow> 'e startup_state" where
  "start_answer env name c i spec answer st = (case answer of
       Inl e \<Rightarrow> fail_ready name (failed_tag (Foreign e) (of_container name (reports_readiness_for c) Start_Failed))
         (logged (Start_Refused name) st)
     | Inr _ \<Rightarrow>
         (let st' = narrate c (Dependency_Started name) (logged (Was_Started name) (st\<lparr>su_started := insert name (su_started st)\<rparr>)) in
          if run_to_completion c = Some True then set_ready name (Awaiting_Exit i) st'
          else if external_health_check c = None then set_ready name (Awaiting_Health i spec) st'
          else next_setup_command env name c i spec 0 st'))"

definition exit_answer ::
  "string \<Rightarrow> container \<Rightarrow> string \<Rightarrow> ('e, 64 word) result \<Rightarrow> 'e startup_state \<Rightarrow> 'e startup_state" where
  "exit_answer name c i answer st = (case answer of
       Inl e \<Rightarrow> fail_ready name (In_Context (''Container '' @ quoted name @ '' did not run to completion'') (Foreign e)) st
     | Inr code \<Rightarrow>
         (let st' = logged (Exited_With name code) st in
          if code = 0 then became_ready name i (post [case reports_readiness_for c of
              Some checked \<Rightarrow> Container_Became_Healthy checked | None \<Rightarrow> Dependency_Completed name] st')
          else if reports_readiness_for c \<noteq> None then set_ready name (Reading_Output i) st'
          else fail_ready name (failed_tag (Told (Ran_To_Completion_With name code)) (Dependency_Exited name code)) st'))"

definition output_answer ::
  "string \<Rightarrow> string \<Rightarrow> ('e, string) result \<Rightarrow> 'e startup_state \<Rightarrow> 'e startup_state" where
  "output_answer name checked answer st =
     (let detail = trim (case answer of Inr text \<Rightarrow> text | Inl _ \<Rightarrow> []) in
      fail_ready name (failed_tag (Told (Check_Failed checked name
        (if detail = [] then ''its external health check failed'' else detail))) (Not_Healthy checked)) st)"

definition health_answer ::
  "'e startup_env \<Rightarrow> string \<Rightarrow> container \<Rightarrow> string \<Rightarrow> container_spec \<Rightarrow> ('e, unit) result \<Rightarrow> 'e startup_state \<Rightarrow> 'e startup_state" where
  "health_answer env name c i spec answer st = (case answer of
       Inl e \<Rightarrow> fail_ready name (failed_tag (In_Not_Ready_Context (''Container '' @ quoted name @ '' did not become healthy'') (Foreign e))
           (Not_Healthy name)) (logged (Health_Refused name) st)
     | Inr _ \<Rightarrow> next_setup_command env name c i spec 0
         (post [Container_Became_Healthy name] (logged (Is_Healthy name) st)))"

definition send_exec ::
  "'e startup_env \<Rightarrow> string \<Rightarrow> container \<Rightarrow> string \<Rightarrow> container_spec \<Rightarrow> nat \<Rightarrow> 'e startup_state \<Rightarrow> 'e startup_state option" where
  "send_exec env name c i spec k st =
     (case exec_target (setup_context_of env name i spec st) (or_empty (setup_commands c) ! k) :: ('e run_error, exec_request \<times> string) result of
        Inl _ \<Rightarrow> None | Inr (request, _) \<Rightarrow> Some (set_ready name (Executing i spec k) (logged (Exec_Sent name k request) st)))"

definition exec_answer ::
  "'e startup_env \<Rightarrow> string \<Rightarrow> container \<Rightarrow> string \<Rightarrow> container_spec \<Rightarrow> nat \<Rightarrow> ('e, exec_result) result \<Rightarrow>
     'e startup_state \<Rightarrow> 'e startup_state" where
  "exec_answer env name c i spec k answer st =
     (let sc = or_empty (setup_commands c) ! k; ctx = setup_context_of env name i spec st;
          description = (case exec_target ctx sc :: ('e run_error, exec_request \<times> string) result of Inr (_, d) \<Rightarrow> d | Inl _ \<Rightarrow> []);
          st' = post (case answer of Inr r \<Rightarrow> setup_output (se_progress_detail env) name k (er_output r) | Inl _ \<Rightarrow> []) st in
      case setup_answer ctx k sc description answer of
        Inl e \<Rightarrow> fail_ready name e (logged (case answer of Inl _ \<Rightarrow> Exec_Refused name k | Inr r \<Rightarrow> Exec_Exited name k (er_exit_code r)) st')
      | Inr _ \<Rightarrow> next_setup_command env name c i spec (k + 1) (logged (Exec_Succeeded name k) st'))"

subsection \<open>The run\<close>

text \<open>Who asks for a container: the two fan-outs, a container that shares its network, one that depends on it.\<close>

definition wants_create :: "'e startup_env \<Rightarrow> string \<Rightarrow> 'e startup_state \<Rightarrow> bool" where
  "wants_create env name st \<longleftrightarrow> name \<in> set (task_names_of env) \<or>
     list_ex (\<lambda>m. (case su_create st m of
         Awaiting_Target _ _ \<Rightarrow> Option.bind (config_of env m) network_target = Some name | _ \<Rightarrow> False))
       (im_keys (rc_containers (se_context env))) \<or>
     (case su_ready st name of Awaiting_Created \<Rightarrow> True | _ \<Rightarrow> False)"

definition wants_ready :: "'e startup_env \<Rightarrow> string \<Rightarrow> 'e startup_state \<Rightarrow> bool" where
  "wants_ready env name st \<longleftrightarrow> name \<in> set (graph_succs (se_graph env) (root_of env)) \<or>
     list_ex (\<lambda>m. (case su_ready st m of Awaiting_Dependencies \<Rightarrow> name \<in> set (graph_succs (se_graph env) m) | _ \<Rightarrow> False))
       (task_names_of env)"

definition is_created :: "'e create_stage \<Rightarrow> bool" where
  "is_created s = (case s of Create_Done (Inr _) \<Rightarrow> True | _ \<Rightarrow> False)"

definition is_ready :: "'e ready_stage \<Rightarrow> bool" where
  "is_ready s = (case s of Ready_Done (Inr _) \<Rightarrow> True | _ \<Rightarrow> False)"

definition start_startup :: "string option \<Rightarrow> task_event set \<Rightarrow> 'e startup_state" where
  "start_startup key warned = \<lparr>su_create = (\<lambda>_. Uncreated), su_ready = (\<lambda>_. Not_Reached), su_created = [], su_started = {},
     su_watched = [], su_warned = warned, su_cache_key = key, su_cache_effects = [], su_phase = Starting_Up,
     su_posted = [], su_log = []\<rparr>"


definition running :: "'e startup_state \<Rightarrow> bool" where
  "running st = (case su_phase st of Starting_Up \<Rightarrow> True | _ \<Rightarrow> False)"

definition with_config :: "'e startup_env \<Rightarrow> string \<Rightarrow> (container \<Rightarrow> 'a option) \<Rightarrow> 'a option" where
  "with_config env name f = Option.bind (config_of env name) f"

text \<open>
  One step: the two fan-outs and the joins that await them, the daemon's answers, and the signal that ends the
  run. Once the run has ended, only the creates already sent go on.
\<close>

fun running_step :: "'e startup_env \<Rightarrow> 'e startup_event \<Rightarrow> 'e startup_state \<Rightarrow> 'e startup_state option" where
  "running_step env (Begin_Create n) st = (case su_create st n of
       Uncreated \<Rightarrow> if wants_create env n st then Some (begin_create env n st) else None | _ \<Rightarrow> None)"
| "running_step env (Host_User_Answer n r) st = (case su_create st n of
       Asking_Host_User \<Rightarrow> Some (host_user_answer n r st) | _ \<Rightarrow> None)"
| "running_step env (Class_Answer n r) st = with_config env n (\<lambda>c. case su_create st n of
       Asking_Class u \<Rightarrow> Some (class_answer n c u r st) | _ \<Rightarrow> None)"
| "running_step env (Image_Answer n r) st = with_config env n (\<lambda>c. case su_create st n of
       Resolving_Image u \<Rightarrow> Some (image_answer env n c u r st) | _ \<Rightarrow> None)"
| "running_step env (Prepare n current ans) st = with_config env n (\<lambda>c. case su_create st n of
       Awaiting_Target u i \<Rightarrow> prepare_create env n c u i current ans st | _ \<Rightarrow> None)"
| "running_step env (Create_Permit n) st = with_config env n (\<lambda>c. case su_create st n of
       Awaiting_Create_Permit spec \<Rightarrow> if permit_free env st then Some (send_create n c spec st) else None | _ \<Rightarrow> None)"
| "running_step env (Begin_Ready n) st = (case su_ready st n of
       Not_Reached \<Rightarrow> if wants_ready env n st then Some (set_ready n Awaiting_Dependencies st) else None | _ \<Rightarrow> None)"
| "running_step env (Dependency_Failed n d) st = (case su_ready st n of
       Awaiting_Dependencies \<Rightarrow> (case su_ready st d of
           Ready_Done (Inl e) \<Rightarrow> if d \<in> set (graph_succs (se_graph env) n)
             then Some (fail_ready n (flattened (se_debug env) e) st) else None
         | _ \<Rightarrow> None)
     | _ \<Rightarrow> None)"
| "running_step env (Dependencies_Ready n) st = (case su_ready st n of
       Awaiting_Dependencies \<Rightarrow> if list_all (\<lambda>d. is_ready (su_ready st d)) (graph_succs (se_graph env) n)
         then Some (dependencies_ready env n st) else None
     | _ \<Rightarrow> None)"
| "running_step env (Created_Awaited n) st = (case su_ready st n of
       Awaiting_Created \<Rightarrow> (case su_create st n of Create_Done r \<Rightarrow> Some (created_awaited env n r st) | _ \<Rightarrow> None)
     | _ \<Rightarrow> None)"
| "running_step env (Start_Permit n) st = with_config env n (\<lambda>c. case su_ready st n of
       Awaiting_Start_Permit i spec \<Rightarrow> if permit_free env st then Some (send_start n c i spec st) else None | _ \<Rightarrow> None)"
| "running_step env (Start_Answer n r) st = with_config env n (\<lambda>c. case su_ready st n of
       Starting i spec \<Rightarrow> Some (start_answer env n c i spec r st) | _ \<Rightarrow> None)"
| "running_step env (Exit_Answer n r) st = with_config env n (\<lambda>c. case su_ready st n of
       Awaiting_Exit i \<Rightarrow> Some (exit_answer n c i r st) | _ \<Rightarrow> None)"
| "running_step env (Output_Answer n r) st = with_config env n (\<lambda>c. case su_ready st n of
       Reading_Output i \<Rightarrow> map_option (\<lambda>checked. output_answer n checked r st) (reports_readiness_for c) | _ \<Rightarrow> None)"
| "running_step env (Health_Answer n r) st = with_config env n (\<lambda>c. case su_ready st n of
       Awaiting_Health i spec \<Rightarrow> Some (health_answer env n c i spec r st) | _ \<Rightarrow> None)"
| "running_step env (Exec_Permit n) st = with_config env n (\<lambda>c. case su_ready st n of
       Awaiting_Exec_Permit i spec k \<Rightarrow> if permit_free env st then send_exec env n c i spec k st else None | _ \<Rightarrow> None)"
| "running_step env (Exec_Answer n r) st = with_config env n (\<lambda>c. case su_ready st n of
       Executing i spec k \<Rightarrow> Some (exec_answer env n c i spec k r st) | _ \<Rightarrow> None)"
| "running_step env (Creation_Failed n) st = (case su_create st n of
       Create_Done (Inl e) \<Rightarrow> if n \<in> set (task_names_of env)
         then Some (st\<lparr>su_phase := Ended_With (flattened (se_debug env) e)\<rparr>) else None
     | _ \<Rightarrow> None)"
| "running_step env (Readiness_Failed d) st = (case su_ready st d of
       Ready_Done (Inl e) \<Rightarrow> if d \<in> set (graph_succs (se_graph env) (root_of env))
         then Some (st\<lparr>su_phase := Ended_With (flattened (se_debug env) e)\<rparr>) else None
     | _ \<Rightarrow> None)"
| "running_step env Joined st =
     (if list_all (\<lambda>n. is_created (su_create st n)) (task_names_of env) \<and>
         list_all (\<lambda>d. is_ready (su_ready st d)) (graph_succs (se_graph env) (root_of env))
      then Some (st\<lparr>su_phase := All_Ready\<rparr>) else None)"
| "running_step env (Signal_Arrived s) st = Some (st\<lparr>su_phase := Ended_With (Of_Type (Task_Interrupted_By s))\<rparr>)"
| "running_step env (Create_Answer n r) st = None"
| "running_step env (Identity_Answer n ws r) st = None"

text \<open>A create request that was sent, with the run or after it.\<close>

fun sent_step :: "'e startup_env \<Rightarrow> 'e startup_event \<Rightarrow> 'e startup_state \<Rightarrow> 'e startup_state option" where
  "sent_step env (Create_Answer n r) st = with_config env n (\<lambda>c. case su_create st n of
       Creating spec \<Rightarrow> Some (create_answer n c spec r st) | _ \<Rightarrow> None)"
| "sent_step env (Identity_Answer n ws r) st = with_config env n (\<lambda>c. case su_create st n of
       Applying_Identity i spec \<Rightarrow> Some (identity_answer n c i spec ws r st) | _ \<Rightarrow> None)"
| "sent_step env _ st = None"

definition startup_step :: "'e startup_env \<Rightarrow> 'e startup_event \<Rightarrow> 'e startup_state \<Rightarrow> 'e startup_state option" where
  "startup_step env e st = (case sent_step env e st of
       Some st' \<Rightarrow> Some st' | None \<Rightarrow> if running st then running_step env e st else None)"

end
