(* ===== verification/Startup_Order.thy ===== *)
theory Startup_Order
  imports Startup Machines
begin

text \<open>
  The order of a startup. Everything the daemon is asked and every answer that brings a container forward is in the
  log; \<open>startup_inv\<close> relates each container's stages to it, and \<open>orderly_startup\<close> is what the log shows: dependencies are ready
  before a container starts, nothing is asked twice, and a setup command runs after the one before it succeeded.
\<close>

section \<open>The log\<close>

fun log_name :: "startup_log \<Rightarrow> string" where
  "log_name (Create_Sent n spec) = n"
| "log_name (Created_With_Id n i) = n"
| "log_name (Start_Sent n) = n"
| "log_name (Was_Started n) = n"
| "log_name (Is_Healthy n) = n"
| "log_name (Exited_With n code) = n"
| "log_name (Exec_Sent n k request) = n"
| "log_name (Exec_Succeeded n k) = n"
| "log_name (Is_Ready n) = n"
| "log_name (Image_Refused n) = n"
| "log_name (Create_Refused n) = n"
| "log_name (Start_Refused n) = n"
| "log_name (Health_Refused n) = n"
| "log_name (Exec_Refused n k) = n"
| "log_name (Exec_Exited n k code) = n"

fun about_creation :: "startup_log \<Rightarrow> bool" where
  "about_creation (Create_Sent n spec) = True"
| "about_creation (Created_With_Id n i) = True"
| "about_creation (Image_Refused n) = True"
| "about_creation (Create_Refused n) = True"
| "about_creation _ = False"

definition conf :: "'e startup_env \<Rightarrow> string \<Rightarrow> container" where
  "conf env n = (case config_of env n of Some c \<Rightarrow> c | None \<Rightarrow> container_default)"

definition commands_of :: "'e startup_env \<Rightarrow> string \<Rightarrow> setup_command list" where
  "commands_of env n = or_empty (setup_commands (conf env n))"

definition completes :: "'e startup_env \<Rightarrow> string \<Rightarrow> bool" where
  "completes env n \<longleftrightarrow> run_to_completion (conf env n) = Some True"

definition deps_ready :: "'e startup_env \<Rightarrow> startup_log list \<Rightarrow> string \<Rightarrow> bool" where
  "deps_ready env log n \<longleftrightarrow> (\<forall>d \<in> set (graph_succs (se_graph env) n). Is_Ready d \<in> set log)"

definition passed_checks :: "'e startup_env \<Rightarrow> startup_log list \<Rightarrow> string \<Rightarrow> bool" where
  "passed_checks env log n \<longleftrightarrow> Was_Started n \<in> set log \<and>
     (external_health_check (conf env n) = None \<longrightarrow> Is_Healthy n \<in> set log)"

definition ran_before :: "startup_log list \<Rightarrow> string \<Rightarrow> nat \<Rightarrow> bool" where
  "ran_before log n k \<longleftrightarrow> (\<forall>j < k. Exec_Succeeded n j \<in> set log)"

text \<open>A setup command runs in its own container, or in a dependency that is ready, whose id it is given.\<close>

definition runs_where :: "'e startup_env \<Rightarrow> startup_log list \<Rightarrow> string \<Rightarrow> nat \<Rightarrow> exec_request \<Rightarrow> bool" where
  "runs_where env log n k request \<longleftrightarrow> k < length (commands_of env n) \<and>
     (let sc = commands_of env n ! k; place = (case sc_run_in sc of None \<Rightarrow> n | Some t \<Rightarrow> t) in
      xr_command request = sc_command sc \<and> Created_With_Id place (xr_container_id request) \<in> set log \<and>
      (place \<noteq> n \<longrightarrow> place \<in> set (graph_succs (se_graph env) n) \<and> Is_Ready place \<in> set log))"

fun entry_ok :: "'e startup_env \<Rightarrow> startup_log list \<Rightarrow> startup_log \<Rightarrow> bool" where
  "entry_ok env log (Create_Sent n spec) \<longleftrightarrow> (\<forall>spec'. Create_Sent n spec' \<notin> set log) \<and>
     (\<forall>t. network_target (conf env n) = Some t \<longrightarrow>
        (\<exists>i. Created_With_Id t i \<in> set log \<and> sc_network (cs_shared spec) = On_Container i))"
| "entry_ok env log (Created_With_Id n i) \<longleftrightarrow> (\<exists>spec. Create_Sent n spec \<in> set log) \<and> (\<forall>i'. Created_With_Id n i' \<notin> set log)"
| "entry_ok env log (Start_Sent n) \<longleftrightarrow> Start_Sent n \<notin> set log \<and> (\<exists>i. Created_With_Id n i \<in> set log) \<and> deps_ready env log n"
| "entry_ok env log (Was_Started n) \<longleftrightarrow> Start_Sent n \<in> set log \<and> Was_Started n \<notin> set log"
| "entry_ok env log (Is_Healthy n) \<longleftrightarrow> Was_Started n \<in> set log"
| "entry_ok env log (Exited_With n code) \<longleftrightarrow> Was_Started n \<in> set log \<and> completes env n"
| "entry_ok env log (Exec_Sent n k request) \<longleftrightarrow> (\<forall>request'. Exec_Sent n k request' \<notin> set log) \<and>
     passed_checks env log n \<and> ran_before log n k \<and> runs_where env log n k request"
| "entry_ok env log (Exec_Succeeded n k) \<longleftrightarrow> (\<exists>request. Exec_Sent n k request \<in> set log)"
| "entry_ok env log (Is_Ready n) \<longleftrightarrow> Is_Ready n \<notin> set log \<and>
     (if completes env n then Exited_With n 0 \<in> set log
      else passed_checks env log n \<and> ran_before log n (length (commands_of env n)))"
| "entry_ok env log (Image_Refused n) \<longleftrightarrow> (\<forall>spec. Create_Sent n spec \<notin> set log)"
| "entry_ok env log (Create_Refused n) \<longleftrightarrow> (\<exists>spec. Create_Sent n spec \<in> set log)"
| "entry_ok env log (Start_Refused n) \<longleftrightarrow> Start_Sent n \<in> set log \<and> Was_Started n \<notin> set log"
| "entry_ok env log (Health_Refused n) \<longleftrightarrow> Was_Started n \<in> set log"
| "entry_ok env log (Exec_Refused n k) \<longleftrightarrow> (\<exists>request. Exec_Sent n k request \<in> set log)"
| "entry_ok env log (Exec_Exited n k code) \<longleftrightarrow> code \<noteq> 0 \<and> (\<exists>request. Exec_Sent n k request \<in> set log)"

definition orderly_startup :: "'e startup_env \<Rightarrow> startup_log list \<Rightarrow> bool" where
  "orderly_startup env log \<longleftrightarrow> (\<forall>a x b. log = a @ x # b \<longrightarrow> entry_ok env a x)"

lemma orderly_startup_nil [simp]: "orderly_startup env []"
  by (simp add: orderly_startup_def)

lemma orderly_startup_snoc: "orderly_startup env (log @ [x]) \<longleftrightarrow> orderly_startup env log \<and> entry_ok env log x"
proof
  assume o: "orderly_startup env (log @ [x])"
  have "entry_ok env a y" if "log = a @ y # b" for a y b
    using o that unfolding orderly_startup_def by (metis append.assoc append_Cons)
  moreover have "entry_ok env log x" using o unfolding orderly_startup_def by blast
  ultimately show "orderly_startup env log \<and> entry_ok env log x" by (simp add: orderly_startup_def)
next
  assume o: "orderly_startup env log \<and> entry_ok env log x"
  have "entry_ok env a y" if "log @ [x] = a @ y # b" for a y b
    using that o by (cases b rule: rev_cases) (auto simp: orderly_startup_def simp flip: append_assoc append_Cons)
  then show "orderly_startup env (log @ [x])" by (simp add: orderly_startup_def)
qed

section \<open>Stages and the log\<close>

definition none_of :: "(startup_log \<Rightarrow> bool) \<Rightarrow> startup_log list \<Rightarrow> string \<Rightarrow> bool" where
  "none_of P log n \<longleftrightarrow> (\<forall>x \<in> set log. log_name x = n \<longrightarrow> \<not> P x)"

definition begun :: "startup_log \<Rightarrow> bool" where
  "begun x \<longleftrightarrow> \<not> about_creation x"

fun beyond_start :: "startup_log \<Rightarrow> bool" where
  "beyond_start (Start_Sent n) = False"
| "beyond_start x = (\<not> about_creation x)"

fun beyond_started :: "startup_log \<Rightarrow> bool" where
  "beyond_started (Start_Sent n) = False"
| "beyond_started (Was_Started n) = False"
| "beyond_started x = (\<not> about_creation x)"

fun from_command :: "nat \<Rightarrow> startup_log \<Rightarrow> bool" where
  "from_command k (Exec_Sent n j request) = (k \<le> j)"
| "from_command k (Is_Ready n) = True"
| "from_command k _ = False"

definition create_answered :: "startup_log list \<Rightarrow> string \<Rightarrow> bool" where
  "create_answered log n \<longleftrightarrow> (\<forall>spec. Create_Sent n spec \<in> set log \<longrightarrow>
     (\<exists>i. Created_With_Id n i \<in> set log) \<or> Create_Refused n \<in> set log)"

fun create_facts :: "'e startup_env \<Rightarrow> startup_log list \<Rightarrow> string \<Rightarrow> 'e create_stage \<Rightarrow> bool" where
  "create_facts env log n (Awaiting_Create_Permit spec) \<longleftrightarrow> none_of about_creation log n \<and>
     (\<forall>t. network_target (conf env n) = Some t \<longrightarrow>
        (\<exists>i. Created_With_Id t i \<in> set log \<and> sc_network (cs_shared spec) = On_Container i))"
| "create_facts env log n (Creating spec) \<longleftrightarrow> Create_Sent n spec \<in> set log \<and> (\<forall>i. Created_With_Id n i \<notin> set log)"
| "create_facts env log n (Applying_Identity i spec) \<longleftrightarrow> Create_Sent n spec \<in> set log \<and> Created_With_Id n i \<in> set log"
| "create_facts env log n (Create_Done r) \<longleftrightarrow> (case r of Inl _ \<Rightarrow> create_answered log n
     | Inr (i, spec) \<Rightarrow> Create_Sent n spec \<in> set log \<and> Created_With_Id n i \<in> set log)"
| "create_facts env log n _ \<longleftrightarrow> none_of about_creation log n"

fun ready_facts :: "'e startup_env \<Rightarrow> startup_log list \<Rightarrow> string \<Rightarrow> 'e ready_stage \<Rightarrow> bool" where
  "ready_facts env log n Not_Reached \<longleftrightarrow> none_of begun log n"
| "ready_facts env log n Awaiting_Dependencies \<longleftrightarrow> none_of begun log n"
| "ready_facts env log n Awaiting_Created \<longleftrightarrow> none_of begun log n \<and> deps_ready env log n"
| "ready_facts env log n (Awaiting_Start_Permit i spec) \<longleftrightarrow> none_of begun log n \<and> deps_ready env log n \<and>
     Created_With_Id n i \<in> set log"
| "ready_facts env log n (Starting i spec) \<longleftrightarrow> none_of beyond_start log n \<and> deps_ready env log n \<and>
     Created_With_Id n i \<in> set log \<and> Start_Sent n \<in> set log"
| "ready_facts env log n (Awaiting_Exit i) \<longleftrightarrow> none_of beyond_started log n \<and> completes env n \<and> deps_ready env log n \<and>
     Created_With_Id n i \<in> set log \<and> Was_Started n \<in> set log"
| "ready_facts env log n (Reading_Output i) \<longleftrightarrow> (\<exists>code. code \<noteq> 0 \<and> Exited_With n code \<in> set log) \<and> Is_Ready n \<notin> set log"
| "ready_facts env log n (Awaiting_Health i spec) \<longleftrightarrow> none_of beyond_started log n \<and> \<not> completes env n \<and> deps_ready env log n \<and>
     external_health_check (conf env n) = None \<and> Created_With_Id n i \<in> set log \<and> Was_Started n \<in> set log"
| "ready_facts env log n (Awaiting_Exec_Permit i spec k) \<longleftrightarrow> none_of (from_command k) log n \<and> \<not> completes env n \<and> deps_ready env log n \<and>
     Created_With_Id n i \<in> set log \<and> passed_checks env log n \<and> ran_before log n k \<and> k < length (commands_of env n)"
| "ready_facts env log n (Executing i spec k) \<longleftrightarrow> none_of (from_command (Suc k)) log n \<and> \<not> completes env n \<and> deps_ready env log n \<and>
     Created_With_Id n i \<in> set log \<and> passed_checks env log n \<and> ran_before log n k \<and> k < length (commands_of env n) \<and>
     (\<exists>request. Exec_Sent n k request \<in> set log)"
| "ready_facts env log n (Ready_Done r) \<longleftrightarrow> (case r of Inl _ \<Rightarrow> Is_Ready n \<notin> set log | Inr i \<Rightarrow> Created_With_Id n i \<in> set log \<and> Is_Ready n \<in> set log)"

definition startup_inv :: "'e startup_env \<Rightarrow> 'e startup_state \<Rightarrow> bool" where
  "startup_inv env st \<longleftrightarrow> orderly_startup env (su_log st) \<and>
     (\<forall>n. create_facts env (su_log st) n (su_create st n)) \<and> (\<forall>n. ready_facts env (su_log st) n (su_ready st n))"

section \<open>Rules for the operations\<close>

text \<open>The invariant with the creations in \<open>C\<close> and the readinesses in \<open>R\<close> under revision.\<close>

definition inv_apart :: "'e startup_env \<Rightarrow> string set \<Rightarrow> string set \<Rightarrow> 'e startup_state \<Rightarrow> bool" where
  "inv_apart env C R st \<longleftrightarrow> orderly_startup env (su_log st) \<and>
     (\<forall>n. n \<notin> C \<longrightarrow> create_facts env (su_log st) n (su_create st n)) \<and>
     (\<forall>n. n \<notin> R \<longrightarrow> ready_facts env (su_log st) n (su_ready st n))"

lemma startup_inv_apart: "startup_inv env st \<Longrightarrow> inv_apart env C R st"
  by (simp add: startup_inv_def inv_apart_def)

lemma create_facts_frame:
  "create_facts env log m s \<Longrightarrow> log_name x \<noteq> m \<or> \<not> about_creation x \<Longrightarrow> create_facts env (log @ [x]) m s"
  by (cases s) (auto simp: none_of_def create_answered_def split: sum.splits)

lemma never_sent [simp]: "none_of about_creation log n \<Longrightarrow> create_answered log n"
  by (fastforce simp: none_of_def create_answered_def)

lemma deps_ready_mono [intro]: "deps_ready env log m \<Longrightarrow> deps_ready env (log @ xs) m"
  by (simp add: deps_ready_def)

lemma passed_checks_mono [intro]: "passed_checks env log m \<Longrightarrow> passed_checks env (log @ xs) m"
  by (simp add: passed_checks_def)

lemma ran_before_mono [intro]: "ran_before log m k \<Longrightarrow> ran_before (log @ xs) m k"
  by (simp add: ran_before_def)

lemma none_of_snoc [simp]: "none_of P (log @ [x]) m \<longleftrightarrow> none_of P log m \<and> (log_name x = m \<longrightarrow> \<not> P x)"
  by (auto simp: none_of_def)

lemma creation_entries: "about_creation x \<Longrightarrow> \<not> begun x \<and> \<not> beyond_start x \<and> \<not> beyond_started x \<and> \<not> from_command k x"
  by (cases x) (simp_all add: begun_def)

lemma stage_order:
  "beyond_start x \<Longrightarrow> begun x" "beyond_started x \<Longrightarrow> beyond_start x" "from_command k x \<Longrightarrow> beyond_started x"
  "from_command (Suc k) x \<Longrightarrow> from_command k x"
  by (cases x; simp add: begun_def)+

lemma none_of_later: "none_of P log n \<Longrightarrow> (\<And>x. Q x \<Longrightarrow> P x) \<Longrightarrow> none_of Q log n"
  by (auto simp: none_of_def)

lemma not_ready_yet [simp]:
  "none_of begun log n \<Longrightarrow> Is_Ready n \<notin> set log" "none_of beyond_start log n \<Longrightarrow> Is_Ready n \<notin> set log"
  "none_of beyond_started log n \<Longrightarrow> Is_Ready n \<notin> set log" "none_of (from_command k) log n \<Longrightarrow> Is_Ready n \<notin> set log"
  by (auto simp: none_of_def begun_def dest!: bspec[where x = "Is_Ready n"])

lemma ready_facts_frame:
  assumes "ready_facts env log m s" "log_name x \<noteq> m \<or> about_creation x"
  shows "ready_facts env (log @ [x]) m s"
  using assms creation_entries[of x] by (cases s) (auto split: sum.splits)

lemma apart_logged:
  assumes "inv_apart env C R st" "entry_ok env (su_log st) x" "about_creation x \<Longrightarrow> log_name x \<in> C" "\<not> about_creation x \<Longrightarrow> log_name x \<in> R"
  shows "inv_apart env C R (logged x st)"
proof -
  have "create_facts env (su_log st @ [x]) m (su_create st m)" if "m \<notin> C" for m
    using that assms(1,3) create_facts_frame[of env "su_log st" m "su_create st m" x] by (auto simp: inv_apart_def)
  moreover have "ready_facts env (su_log st @ [x]) m (su_ready st m)" if "m \<notin> R" for m
    using that assms(1,4) ready_facts_frame[of env "su_log st" m "su_ready st m" x] by (auto simp: inv_apart_def)
  ultimately show ?thesis using assms(1,2) by (simp add: inv_apart_def logged_def orderly_startup_snoc)
qed

lemma apart_set_create:
  "inv_apart env {n} {} st \<Longrightarrow> create_facts env (su_log st) n s \<Longrightarrow> startup_inv env (set_create n s st)"
  by (simp add: inv_apart_def startup_inv_def set_create_def)

lemma apart_set_ready:
  "inv_apart env {} {n} st \<Longrightarrow> ready_facts env (su_log st) n s \<Longrightarrow> startup_inv env (set_ready n s st)"
  by (simp add: inv_apart_def startup_inv_def set_ready_def)

lemma apart_fail [simp]:
  "inv_apart env {n} {} st \<Longrightarrow> create_answered (su_log st) n \<Longrightarrow> startup_inv env (fail_create n e st)" "inv_apart env {} {n} st \<Longrightarrow> Is_Ready n \<notin> set (su_log st) \<Longrightarrow> startup_inv env (fail_ready n e st)"
  by (simp_all add: fail_create_def fail_ready_def apart_set_create apart_set_ready)

text \<open>What the operations leave alone.\<close>

lemma startup_frame [simp]:
  "su_log (post es st) = su_log st" "su_create (post es st) = su_create st" "su_ready (post es st) = su_ready st"
  "su_log (narrate c e st) = su_log st" "su_create (narrate c e st) = su_create st" "su_ready (narrate c e st) = su_ready st"
  "su_log (warn_once w st) = su_log st" "su_create (warn_once w st) = su_create st" "su_ready (warn_once w st) = su_ready st"
  "su_log (logged x st) = su_log st @ [x]" "su_create (logged x st) = su_create st" "su_ready (logged x st) = su_ready st"
  "su_log (set_create n s st) = su_log st" "su_ready (set_create n s st) = su_ready st" "su_create (set_create n s st) = (su_create st)(n := s)"
  "su_log (set_ready n r st) = su_log st" "su_create (set_ready n r st) = su_create st" "su_ready (set_ready n r st) = (su_ready st)(n := r)"
  by (simp_all add: post_def narrate_def warn_once_def logged_def set_create_def set_ready_def)

lemma inv_apart_cong:
  "su_log st = su_log st' \<Longrightarrow> su_create st = su_create st' \<Longrightarrow> su_ready st = su_ready st' \<Longrightarrow> inv_apart env C R st = inv_apart env C R st'"
  by (simp add: inv_apart_def)

lemma inv_apart_frame [simp]:
  "inv_apart env C R (post es st) = inv_apart env C R st" "inv_apart env C R (narrate c e st) = inv_apart env C R st"
  "inv_apart env C R (warn_once w st) = inv_apart env C R st" "inv_apart env C R (st\<lparr>su_started := x\<rparr>) = inv_apart env C R st"
  "inv_apart env C R (st\<lparr>su_created := m\<rparr>) = inv_apart env C R st" "inv_apart env C R (st\<lparr>su_watched := w'\<rparr>) = inv_apart env C R st"
  "inv_apart env C R (st\<lparr>su_cache_key := k, su_cache_effects := es'\<rparr>) = inv_apart env C R st"
  "inv_apart env C R (st\<lparr>su_cache_effects := es'\<rparr>) = inv_apart env C R st" "inv_apart env C R (st\<lparr>su_phase := p\<rparr>) = inv_apart env C R st"
  by (rule inv_apart_cong; simp)+

lemma startup_inv_phase [simp]: "startup_inv env (st\<lparr>su_phase := p\<rparr>) = startup_inv env st"
  by (simp add: startup_inv_def)


section \<open>Creating keeps the invariant\<close>

lemma inv_create_facts: "startup_inv env st \<Longrightarrow> create_facts env (su_log st) n (su_create st n)"
  by (simp add: startup_inv_def)

lemma inv_ready_facts: "startup_inv env st \<Longrightarrow> ready_facts env (su_log st) n (su_ready st n)"
  by (simp add: startup_inv_def)

lemma begin_create_inv: "startup_inv env st \<Longrightarrow> su_create st n = Uncreated \<Longrightarrow> startup_inv env (begin_create env n st)"
  using inv_create_facts[of env st n]
  by (auto simp: begin_create_def startup_inv_apart intro!: apart_set_create split: option.splits)

lemma host_user_answer_inv:
  "startup_inv env st \<Longrightarrow> su_create st n = Asking_Host_User \<Longrightarrow> startup_inv env (host_user_answer n r st)"
  using inv_create_facts[of env st n]
  by (auto simp: host_user_answer_def startup_inv_apart intro!: apart_set_create split: sum.splits)

lemma class_answer_inv:
  "startup_inv env st \<Longrightarrow> su_create st n = Asking_Class u \<Longrightarrow> startup_inv env (class_answer n c u r st)"
  using inv_create_facts[of env st n]
  by (auto simp: class_answer_def startup_inv_apart intro!: apart_set_create split: sum.splits option.splits)

lemma image_answer_inv:
  assumes "startup_inv env st" "su_create st n = Resolving_Image u"
  shows "startup_inv env (image_answer env n c u r st)"
proof -
  have facts: "none_of about_creation (su_log st) n" using inv_create_facts[OF assms(1), of n] assms(2) by simp
  then have "inv_apart env {n} {} (logged (Image_Refused n) st)"
    by (intro apart_logged startup_inv_apart assms(1)) (auto simp: none_of_def)
  moreover have "create_answered (su_log st @ [Image_Refused n]) n" using never_sent[OF facts] by (simp add: create_answered_def)
  ultimately show ?thesis using facts
    by (auto simp: image_answer_def startup_inv_apart[OF assms(1)] intro!: apart_set_create split: sum.splits)
qed

lemma target_id:
  assumes inv: "startup_inv env st" and target: "target_created env c st = Some (Inr ids)" "network_target c = Some t"
  shows "\<exists>i. im_get ids t = Some i \<and> Created_With_Id t i \<in> set (su_log st)"
proof -
  from target obtain i spec where "su_create st t = Create_Done (Inr (i, spec))" "ids = [(t, i)]"
    by (auto simp: target_created_def split: create_stage.splits sum.splits prod.splits) (metis Inl_Inr_False sumE unshare_simps)
  then show ?thesis using inv_create_facts[OF inv, of t] by (auto simp: im_get_def)
qed

lemma prepared_spec_facts:
  assumes "prepared_spec env n c ids u i current ans st = (r, st')"
  shows "su_log st' = su_log st" "inv_apart env C R st' = inv_apart env C R st"
    "\<And>spec t. r = Inr spec \<Longrightarrow> network_target c = Some t \<Longrightarrow> \<exists>j. im_get ids t = Some j \<and> sc_network (cs_shared spec) = On_Container j"
proof -
  have frame: "su_log st' = su_log st \<and> su_create st' = su_create st \<and> su_ready st' = su_ready st"
    using assms unfolding prepared_spec_def by (auto split: sum.splits prod.splits)
  then show "su_log st' = su_log st" "inv_apart env C R st' = inv_apart env C R st" by (simp_all add: inv_apart_def)
  fix spec t
  assume "r = Inr spec" and t: "network_target c = Some t"
  with assms obtain network where net: "resolve_network (network_mode c) (rc_network (se_context env)) ids = Inr network"
    and spec: "sc_network (cs_shared spec) = network"
    unfolding prepared_spec_def
    by (cases "resolve_network (network_mode c) (rc_network (se_context env)) ids"; cases "resolve_user_mapping current c")
      (auto simp: derive_spec_def spec_inputs_for_def Let_def split: sum.splits prod.splits)
  from t have "network_mode c = Some (Container_Network t)"
    by (auto simp: network_target_def split: option.splits network_mode.splits)
  with net spec show "\<exists>j. im_get ids t = Some j \<and> sc_network (cs_shared spec) = On_Container j"
    by (auto simp: resolve_network_def split: option.splits)
qed

lemma prepare_create_inv:
  assumes inv: "startup_inv env st" and stage: "su_create st n = Awaiting_Target u i" and c: "conf env n = c"
    and step: "prepare_create env n c u i current ans st = Some st'"
  shows "startup_inv env st'"
proof (cases "target_created env c st")
  case (Some r)
  show ?thesis
  proof (cases r)
    case (Inr ids)
    obtain r' st1 where p: "prepared_spec env n c ids u i current ans st = (r', st1)" by fastforce
    have apart: "inv_apart env {n} {} st1" using prepared_spec_facts(2)[OF p] startup_inv_apart[OF inv] by blast
    have quiet: "create_answered (su_log st1) n" using prepared_spec_facts(1)[OF p] inv_create_facts[OF inv, of n] stage by auto
    show ?thesis
    proof (cases r')
      case (Inr spec)
      have "create_facts env (su_log st1) n (Awaiting_Create_Permit spec)"
        using inv_create_facts[OF inv, of n] stage prepared_spec_facts(1)[OF p] prepared_spec_facts(3)[OF p Inr]
          target_id[OF inv Some[unfolded \<open>r = Inr ids\<close>]] c by fastforce
      with apart step Some \<open>r = Inr ids\<close> p Inr show ?thesis by (auto simp: prepare_create_def intro: apart_set_create)
    qed (use step Some Inr p apart quiet in \<open>auto simp: prepare_create_def\<close>)
  qed (use step Some inv inv_create_facts[OF inv, of n] stage in \<open>auto simp: prepare_create_def startup_inv_apart\<close>)
qed (use step in \<open>simp add: prepare_create_def\<close>)

lemma send_create_inv:
  assumes inv: "startup_inv env st" and stage: "su_create st n = Awaiting_Create_Permit spec"
  shows "startup_inv env (send_create n c spec st)"
proof -
  have "none_of about_creation (su_log st) n" and t: "\<forall>t. network_target (conf env n) = Some t \<longrightarrow>
        (\<exists>i. Created_With_Id t i \<in> set (su_log st) \<and> sc_network (cs_shared spec) = On_Container i)"
    using inv_create_facts[OF inv, of n] stage by simp_all
  then have no: "Create_Sent n s \<notin> set (su_log st)" "Created_With_Id n j \<notin> set (su_log st)" for s j
    by (fastforce simp: none_of_def)+
  with t have "inv_apart env {n} {} (logged (Create_Sent n spec) (narrate c (Container_Creating n) st))"
    by (intro apart_logged) (simp_all add: startup_inv_apart[OF inv])
  then show ?thesis unfolding send_create_def using no by (intro apart_set_create) auto
qed

lemma create_failed_inv:
  assumes "inv_apart env {n} {} st" "Create_Sent n spec \<in> set (su_log st)"
  shows "startup_inv env (create_failed n c e st)"
  unfolding create_failed_def by (intro apart_fail(1) apart_logged assms(1)) (use assms(2) in \<open>auto simp: create_answered_def\<close>)

lemma register_apart:
  assumes "startup_inv env st" "su_create st n = Creating spec"
  shows "inv_apart env {n} {} (register n i st)"
  using inv_create_facts[OF assms(1), of n] assms(2) unfolding register_def
  by (intro apart_logged) (auto simp: startup_inv_apart[OF assms(1)])

lemma register_frame [simp]: "su_log (register n i st) = su_log st @ [Created_With_Id n i]"
    "su_create (register n i st) = su_create st" "su_ready (register n i st) = su_ready st"
  by (simp_all add: register_def)

lemma create_answer_inv:
  assumes inv: "startup_inv env st" and stage: "su_create st n = Creating spec"
  shows "startup_inv env (create_answer n c spec r st)"
proof -
  have sent: "Create_Sent n spec \<in> set (su_log st)" using inv_create_facts[OF inv, of n] stage by simp
  note apart = register_apart[OF inv stage]
  show ?thesis using sent apart startup_inv_apart[OF inv, of "{n}" "{}"]
    by (auto simp: create_answer_def intro!: apart_set_create create_failed_inv split: sum.splits option.splits)
qed

lemma warnings_frame [simp]:
  "su_log (foldl (\<lambda>st w. warn_once (f w) st) st ws) = su_log st" "su_create (foldl (\<lambda>st w. warn_once (f w) st) st ws) = su_create st"
  "su_ready (foldl (\<lambda>st w. warn_once (f w) st) st ws) = su_ready st"
  by (induction ws arbitrary: st) simp_all

lemma identity_answer_inv:
  assumes inv: "startup_inv env st" and stage: "su_create st n = Applying_Identity i spec"
  shows "startup_inv env (identity_answer n c i spec ws r st)"
proof -
  let ?st = "foldl (\<lambda>st w. warn_once (Identity_Warning w) st) st ws"
  have "inv_apart env {n} {} ?st" using inv by (simp add: inv_apart_def startup_inv_def)
  with inv_create_facts[OF inv, of n] stage show ?thesis
    by (auto simp: identity_answer_def Let_def intro!: apart_set_create create_failed_inv split: sum.splits)
qed


section \<open>Readiness keeps the invariant\<close>

lemma is_ready_iff: "is_ready s \<longleftrightarrow> (\<exists>i. s = Ready_Done (Inr i))"
  by (auto simp: is_ready_def split: ready_stage.splits sum.splits)

lemma is_created_iff: "is_created s \<longleftrightarrow> (\<exists>i spec. s = Create_Done (Inr (i, spec)))"
  by (auto simp: is_created_def split: create_stage.splits sum.splits)

lemma in_map_filter: "y \<in> set (List.map_filter f xs) \<longleftrightarrow> (\<exists>x \<in> set xs. f x = Some y)"
  by (force simp: List.map_filter_def)

lemma in_dependency_ids:
  "(d, i) \<in> set (dependency_ids env n st) \<longleftrightarrow> d \<in> set (graph_succs (se_graph env) n) \<and> su_ready st d = Ready_Done (Inr i)"
proof -
  have "(case s of Ready_Done (Inr i) \<Rightarrow> Some (d', i) | _ \<Rightarrow> None) = Some (d, i) \<longleftrightarrow> d' = d \<and> s = Ready_Done (Inr i)"
    for s :: "'a ready_stage" and d'
    by (auto split: ready_stage.splits sum.splits)
  then show ?thesis unfolding dependency_ids_def in_map_filter by auto
qed

lemma dependency_ids_ready:
  assumes "startup_inv env st" "im_get (dependency_ids env n st) d = Some i"
  shows "d \<in> set (graph_succs (se_graph env) n) \<and> Created_With_Id d i \<in> set (su_log st) \<and> Is_Ready d \<in> set (su_log st)"
proof -
  from assms(2) have "(d, i) \<in> set (dependency_ids env n st)" by (auto simp: im_get_def dest: map_of_SomeD)
  then show ?thesis using inv_ready_facts[OF assms(1), of d] by (simp add: in_dependency_ids)
qed

lemma exec_target_where:
  assumes inv: "startup_inv env st" and own: "Created_With_Id n i \<in> set (su_log st)" and k: "k < length (commands_of env n)"
    and target: "exec_target (setup_context_of env n i spec st) (commands_of env n ! k) = Inr (request, d)"
  shows "runs_where env (su_log st) n k request"
proof (cases "elsewhere (setup_context_of env n i spec st) (commands_of env n ! k)")
  case None
  with target have r: "xr_container_id request = i" "xr_command request = sc_command (commands_of env n ! k)"
    by (auto simp: exec_target_def setup_context_of_def)
  from None have "sc_run_in (commands_of env n ! k) = None \<or> sc_run_in (commands_of env n ! k) = Some n"
    by (auto simp: elsewhere_def setup_context_of_def split: option.splits if_splits)
  with r own k show ?thesis by (auto simp: runs_where_def Let_def)
next
  case (Some t)
  then have t: "sc_run_in (commands_of env n ! k) = Some t" "t \<noteq> n"
    by (auto simp: elsewhere_def setup_context_of_def split: option.splits if_splits)
  from target Some have "im_get (dependency_ids env n st) t = Some (xr_container_id request)"
    "xr_command request = sc_command (commands_of env n ! k)"
    by (auto simp: exec_target_def setup_context_of_def split: option.splits)
  with dependency_ids_ready[OF inv this(1)] t k show ?thesis by (auto simp: runs_where_def Let_def)
qed

lemma became_ready_inv:
  assumes apart: "inv_apart env {} {n} st" and id: "Created_With_Id n i \<in> set (su_log st)"
    and ready: "entry_ok env (su_log st) (Is_Ready n)"
  shows "startup_inv env (became_ready n i st)"
proof -
  have "inv_apart env {} {n} (logged (Is_Ready n) st)" using ready by (intro apart_logged apart) simp_all
  then show ?thesis unfolding became_ready_def using id by (intro apart_set_ready) simp_all
qed

lemma next_setup_command_inv:
  assumes apart: "inv_apart env {} {n} st" and c: "conf env n = c"
    and facts: "none_of (from_command k) (su_log st) n" "\<not> completes env n" "deps_ready env (su_log st) n"
      "Created_With_Id n i \<in> set (su_log st)" "passed_checks env (su_log st) n" "ran_before (su_log st) n k" "k \<le> length (commands_of env n)"
  shows "startup_inv env (next_setup_command env n c i spec k st)"
proof (cases "k < length (commands_of env n)")
  case True
  let ?target = "exec_target (setup_context_of env n i spec st) (commands_of env n ! k) :: ('a run_error, exec_request \<times> string) result"
  show ?thesis
  proof (cases ?target)
    case (Inl e)
    with True apart c facts(1) show ?thesis by (simp add: next_setup_command_def Let_def commands_of_def)
  next
    case (Inr x)
    with True apart c facts show ?thesis
      by (auto simp: next_setup_command_def Let_def commands_of_def intro!: apart_set_ready)
  qed
next
  case False
  with facts(7) have k: "k = length (commands_of env n)" by simp
  let ?st = "(if commands_of env n = [] then id else post [Setup_Commands_Completed n]) (st\<lparr>su_watched := su_watched st @ [n]\<rparr>)"
  have "entry_ok env (su_log ?st) (Is_Ready n)" using facts k by (auto simp: none_of_def)
  then have "startup_inv env (became_ready n i ?st)"
    using apart facts(4) by (intro became_ready_inv) auto
  with False c show ?thesis by (simp add: next_setup_command_def Let_def commands_of_def)
qed

lemma dependencies_ready_inv:
  assumes inv: "startup_inv env st" and stage: "su_ready st n = Awaiting_Dependencies"
    and deps: "list_all (\<lambda>d. is_ready (su_ready st d)) (graph_succs (se_graph env) n)"
  shows "startup_inv env (dependencies_ready env n st)"
proof -
  have "Is_Ready d \<in> set (su_log st)" if "d \<in> set (graph_succs (se_graph env) n)" for d
    using that deps inv_ready_facts[OF inv, of d]
    by (auto simp: list_all_iff is_ready_iff)
  then have "deps_ready env (su_log st) n" by (simp add: deps_ready_def)
  with inv_ready_facts[OF inv, of n] stage show ?thesis
    by (auto simp: dependencies_ready_def startup_inv_apart[OF inv] intro!: apart_set_ready split: option.splits)
qed

lemma created_awaited_inv:
  assumes inv: "startup_inv env st" and stage: "su_ready st n = Awaiting_Created" "su_create st n = Create_Done r"
  shows "startup_inv env (created_awaited env n r st)"
  using inv_ready_facts[OF inv, of n] inv_create_facts[OF inv, of n] stage
  by (cases r) (auto simp: created_awaited_def startup_inv_apart[OF inv] intro!: apart_set_ready)

lemma send_start_inv:
  assumes inv: "startup_inv env st" and stage: "su_ready st n = Awaiting_Start_Permit i spec"
  shows "startup_inv env (send_start n c i spec st)"
proof -
  have facts: "none_of begun (su_log st) n" "deps_ready env (su_log st) n" "Created_With_Id n i \<in> set (su_log st)"
    using inv_ready_facts[OF inv, of n] stage by simp_all
  then have "Start_Sent n \<notin> set (su_log st)" by (fastforce simp: none_of_def begun_def)
  with facts have "inv_apart env {} {n} (logged (Start_Sent n) (narrate c (Dependency_Starting n) st))"
    by (intro apart_logged) (auto simp: startup_inv_apart[OF inv])
  moreover have "none_of beyond_start (su_log st) n"
    using facts(1) stage_order(1) by (rule none_of_later)
  ultimately show ?thesis using facts unfolding send_start_def by (intro apart_set_ready) auto
qed


lemma start_answer_inv:
  assumes inv: "startup_inv env st" and stage: "su_ready st n = Starting i spec" and c: "conf env n = c"
  shows "startup_inv env (start_answer env n c i spec r st)"
proof -
  have facts: "none_of beyond_start (su_log st) n" "deps_ready env (su_log st) n" "Created_With_Id n i \<in> set (su_log st)"
      "Start_Sent n \<in> set (su_log st)"
    using inv_ready_facts[OF inv, of n] stage by simp_all
  then have new: "Was_Started n \<notin> set (su_log st)" by (fastforce simp: none_of_def)
  have beyond: "none_of beyond_started (su_log st) n" using facts(1) stage_order(2) by (rule none_of_later)
  have commands: "none_of (from_command 0) (su_log st) n" using beyond stage_order(3) by (rule none_of_later)
  have refused: "inv_apart env {} {n} (logged (Start_Refused n) st)"
    using facts(4) new by (intro apart_logged) (auto simp: startup_inv_apart[OF inv])
  let ?st = "narrate c (Dependency_Started n) (logged (Was_Started n) (st\<lparr>su_started := insert n (su_started st)\<rparr>))"
  have log: "su_log ?st = su_log st @ [Was_Started n]" by simp
  have apart: "inv_apart env {} {n} ?st"
    using facts(4) new by (simp, intro apart_logged) (auto simp: startup_inv_apart[OF inv])
  show ?thesis
  proof (cases r)
    case (Inl e)
    then show ?thesis using refused facts(1) by (simp add: start_answer_def)
  next
    case (Inr u)
    consider "run_to_completion c = Some True" | "run_to_completion c \<noteq> Some True" "external_health_check c = None"
      | "run_to_completion c \<noteq> Some True" "external_health_check c \<noteq> None" by blast
    then show ?thesis
    proof cases
      case 1
      then have "startup_inv env (set_ready n (Awaiting_Exit i) ?st)" using c facts beyond
        by (intro apart_set_ready[OF apart]) (auto simp: completes_def)
      with 1 Inr show ?thesis by (simp add: start_answer_def Let_def)
    next
      case 2
      then have "startup_inv env (set_ready n (Awaiting_Health i spec) ?st)" using c facts beyond
        by (intro apart_set_ready[OF apart]) (auto simp: completes_def)
      with 2 Inr show ?thesis by (simp add: start_answer_def Let_def)
    next
      case 3
      then have "startup_inv env (next_setup_command env n c i spec 0 ?st)" using c facts commands
        by (intro next_setup_command_inv[OF apart]) (auto simp: completes_def passed_checks_def ran_before_def)
      with 3 Inr show ?thesis by (auto simp: start_answer_def Let_def)
    qed
  qed
qed

lemma exit_answer_inv:
  assumes inv: "startup_inv env st" and stage: "su_ready st n = Awaiting_Exit i"
  shows "startup_inv env (exit_answer n c i r st)"
proof -
  have facts: "none_of beyond_started (su_log st) n" "completes env n" "Created_With_Id n i \<in> set (su_log st)" "Was_Started n \<in> set (su_log st)"
    using inv_ready_facts[OF inv, of n] stage by simp_all
  have apart: "inv_apart env {} {n} (logged (Exited_With n code) st)" for code
    using facts by (intro apart_logged) (auto simp: startup_inv_apart[OF inv])
  have new: "Is_Ready n \<notin> set (su_log st)" using facts(1) by simp
  then have ok: "startup_inv env (became_ready n i (post es (logged (Exited_With n 0) st)))" for es
    using apart[of 0] facts by (intro became_ready_inv) auto
  show ?thesis using apart ok new
    by (auto simp: exit_answer_def Let_def startup_inv_apart[OF inv] intro!: apart_set_ready split: sum.splits)
qed

lemma health_answer_inv:
  assumes inv: "startup_inv env st" and stage: "su_ready st n = Awaiting_Health i spec" and c: "conf env n = c"
  shows "startup_inv env (health_answer env n c i spec r st)"
proof -
  have facts: "none_of beyond_started (su_log st) n" "\<not> completes env n" "deps_ready env (su_log st) n"
      "Created_With_Id n i \<in> set (su_log st)" "Was_Started n \<in> set (su_log st)"
    using inv_ready_facts[OF inv, of n] stage by simp_all
  have apart: "inv_apart env {} {n} (logged x st)" if "x = Is_Healthy n \<or> x = Health_Refused n" for x
    using facts that by (intro apart_logged) (auto simp: startup_inv_apart[OF inv])
  have "none_of (from_command 0) (su_log st) n"
    using facts(1) stage_order(3) by (rule none_of_later)
  then have "startup_inv env (next_setup_command env n c i spec 0 (post es (logged (Is_Healthy n) st)))" for es
    using apart facts c by (intro next_setup_command_inv) (auto simp: passed_checks_def ran_before_def)
  with apart facts(1) show ?thesis by (auto simp: health_answer_def split: sum.splits)
qed

lemma send_exec_inv:
  assumes inv: "startup_inv env st" and stage: "su_ready st n = Awaiting_Exec_Permit i spec k" and c: "conf env n = c"
    and step: "send_exec env n c i spec k st = Some st'"
  shows "startup_inv env st'"
proof -
  have facts: "none_of (from_command k) (su_log st) n" "\<not> completes env n" "deps_ready env (su_log st) n" "Created_With_Id n i \<in> set (su_log st)"
      "passed_checks env (su_log st) n" "ran_before (su_log st) n k" "k < length (commands_of env n)"
    using inv_ready_facts[OF inv, of n] stage by simp_all
  from step c obtain request d where
    target: "exec_target (setup_context_of env n i spec st) (commands_of env n ! k) = (Inr (request, d) :: ('a run_error, exec_request \<times> string) result)"
    and st': "st' = set_ready n (Executing i spec k) (logged (Exec_Sent n k request) st)"
    by (auto simp: send_exec_def commands_of_def split: sum.splits)
  have new: "Exec_Sent n k request' \<notin> set (su_log st)" for request' using facts(1) by (fastforce simp: none_of_def)
  have "inv_apart env {} {n} (logged (Exec_Sent n k request) st)"
    using new facts exec_target_where[OF inv facts(4,7) target] by (intro apart_logged) (auto simp: startup_inv_apart[OF inv])
  moreover have "none_of (from_command (Suc k)) (su_log st) n"
    using facts(1) stage_order(4) by (rule none_of_later)
  ultimately show ?thesis unfolding st' using facts by (intro apart_set_ready) auto
qed

lemma setup_answer_cases:
  "setup_answer ctx k sc d (Inl e) = Inl x \<Longrightarrow> failed_step x = Some (Setup_Command_Not_Run (sx_name ctx) (k + 1))"
  "is_ok (setup_answer ctx k sc d (Inr r)) \<longleftrightarrow> er_exit_code r = 0"
  by (auto simp: setup_answer_def failed_tag_def)

lemma exec_answer_inv:
  assumes inv: "startup_inv env st" and stage: "su_ready st n = Executing i spec k" and c: "conf env n = c"
  shows "startup_inv env (exec_answer env n c i spec k r st)"
proof -
  have facts: "none_of (from_command (Suc k)) (su_log st) n" "\<not> completes env n" "deps_ready env (su_log st) n" "Created_With_Id n i \<in> set (su_log st)"
      "passed_checks env (su_log st) n" "ran_before (su_log st) n k" "k < length (commands_of env n)" "\<exists>request. Exec_Sent n k request \<in> set (su_log st)"
    using inv_ready_facts[OF inv, of n] stage by simp_all
  have apart: "inv_apart env {} {n} (logged x (post es st))"
    if "x = Exec_Succeeded n k \<or> x = Exec_Refused n k \<or> (\<exists>code. code \<noteq> 0 \<and> x = Exec_Exited n k code)" for x es
    using facts that by (intro apart_logged) (auto simp: startup_inv_apart[OF inv])
  have next_one: "startup_inv env (next_setup_command env n c i spec (k + 1) (logged (Exec_Succeeded n k) (post es st)))" for es
    using apart facts c by (intro next_setup_command_inv) (auto simp: ran_before_def less_Suc_eq)
  show ?thesis
  proof (cases r)
    case (Inl e)
    then show ?thesis using apart facts(1) by (simp add: exec_answer_def Let_def setup_answer_def)
  next
    case (Inr x)
    then show ?thesis using apart next_one facts(1) by (auto simp: exec_answer_def Let_def setup_answer_def)
  qed
qed


section \<open>The machine\<close>

lemma with_config_Some: "with_config env n f = Some y \<longleftrightarrow> (\<exists>c. config_of env n = Some c \<and> conf env n = c \<and> f c = Some y)"
  by (cases "config_of env n") (auto simp: with_config_def conf_def)

lemma startup_inv_start: "startup_inv env (start_startup key warned)"
  by (simp add: startup_inv_def start_startup_def none_of_def)

lemma sent_step_inv: "startup_inv env st \<Longrightarrow> sent_step env e st = Some st' \<Longrightarrow> startup_inv env st'"
  by (cases "(env, e, st)" rule: sent_step.cases)
    (auto simp: with_config_Some create_answer_inv identity_answer_inv split: create_stage.splits)

lemma running_step_inv:
  assumes inv: "startup_inv env st" and step: "running_step env e st = Some st'"
  shows "startup_inv env st'"
proof (cases e)
  case (Begin_Create n) with assms show ?thesis by (auto simp: begin_create_inv split: create_stage.splits if_splits)
next case (Host_User_Answer n r) with assms show ?thesis by (auto simp: host_user_answer_inv split: create_stage.splits)
next case (Class_Answer n r) with assms show ?thesis by (auto simp: with_config_Some class_answer_inv split: create_stage.splits)
next case (Image_Answer n r) with assms show ?thesis by (auto simp: with_config_Some image_answer_inv split: create_stage.splits)
next case (Prepare n current ans)
  with assms show ?thesis by (auto simp: with_config_Some split: create_stage.splits intro: prepare_create_inv)
next case (Create_Permit n)
  with assms show ?thesis by (auto simp: with_config_Some send_create_inv split: create_stage.splits if_splits)
next case (Begin_Ready n)
  with assms show ?thesis using inv_ready_facts[OF inv, of n]
    by (auto simp: startup_inv_apart intro!: apart_set_ready split: ready_stage.splits if_splits)
next case (Dependency_Failed n d)
  with assms show ?thesis using inv_ready_facts[OF inv, of n]
    by (auto simp: startup_inv_apart split: ready_stage.splits sum.splits if_splits)
next case (Dependencies_Ready n) with assms show ?thesis by (auto simp: dependencies_ready_inv split: ready_stage.splits if_splits)
next case (Created_Awaited n)
  with assms show ?thesis by (auto simp: created_awaited_inv split: ready_stage.splits create_stage.splits)
next case (Start_Permit n) with assms show ?thesis by (auto simp: with_config_Some send_start_inv split: ready_stage.splits if_splits)
next case (Start_Answer n r) with assms show ?thesis by (auto simp: with_config_Some start_answer_inv split: ready_stage.splits)
next case (Exit_Answer n r) with assms show ?thesis by (auto simp: with_config_Some exit_answer_inv split: ready_stage.splits)
next case (Output_Answer n r)
  with assms show ?thesis using inv_ready_facts[OF inv, of n]
    by (auto simp: with_config_Some output_answer_def Let_def startup_inv_apart split: ready_stage.splits)
next case (Health_Answer n r) with assms show ?thesis by (auto simp: with_config_Some health_answer_inv split: ready_stage.splits)
next case (Exec_Permit n)
  with assms show ?thesis by (auto simp: with_config_Some split: ready_stage.splits if_splits intro: send_exec_inv)
next case (Exec_Answer n r) with assms show ?thesis by (auto simp: with_config_Some exec_answer_inv split: ready_stage.splits)
next case (Creation_Failed n) with assms show ?thesis by (auto split: create_stage.splits sum.splits if_splits)
next case (Readiness_Failed d) with assms show ?thesis by (auto split: ready_stage.splits sum.splits if_splits)
qed (use assms in \<open>auto split: if_splits\<close>)

section \<open>What was created and started\<close>

text \<open>The two registries cleanup reads are what the log says.\<close>

fun register_entry :: "string index_map \<Rightarrow> startup_log \<Rightarrow> string index_map" where
  "register_entry m (Created_With_Id n i) = im_insert m n i"
| "register_entry m _ = m"

definition registry_ok :: "'e startup_state \<Rightarrow> bool" where
  "registry_ok st \<longleftrightarrow> su_created st = foldl register_entry [] (su_log st) \<and> su_started st = {n. Was_Started n \<in> set (su_log st)}"

lemma registry_frame [simp]:
  "registry_ok (post es st) = registry_ok st" "registry_ok (narrate c e st) = registry_ok st" "registry_ok (warn_once w st) = registry_ok st"
  "registry_ok (set_create n s st) = registry_ok st" "registry_ok (set_ready n r st) = registry_ok st"
  "registry_ok (fail_create n e' st) = registry_ok st" "registry_ok (fail_ready n e' st) = registry_ok st"
  "registry_ok (st\<lparr>su_watched := w'\<rparr>) = registry_ok st" "registry_ok (st\<lparr>su_phase := p\<rparr>) = registry_ok st"
  "registry_ok (st\<lparr>su_cache_key := k, su_cache_effects := es'\<rparr>) = registry_ok st" "registry_ok (st\<lparr>su_cache_effects := es'\<rparr>) = registry_ok st"
  "registry_ok (st\<lparr>su_cache_key := k\<rparr>) = registry_ok st"
  by (simp_all add: registry_ok_def post_def narrate_def warn_once_def set_create_def set_ready_def fail_create_def fail_ready_def)

lemma registry_warnings [simp]: "registry_ok (foldl (\<lambda>st w. warn_once (f w) st) st ws) = registry_ok st"
  by (induction ws arbitrary: st) simp_all

lemma registry_logged:
  "registry_ok st \<Longrightarrow> (\<forall>n i. x \<noteq> Created_With_Id n i) \<Longrightarrow> (\<forall>n. x \<noteq> Was_Started n) \<Longrightarrow> registry_ok (logged x st)"
  by (cases x) (auto simp: registry_ok_def logged_def)

lemma registry_register: "registry_ok st \<Longrightarrow> registry_ok (register n i st)"
  by (auto simp: registry_ok_def register_def logged_def)

lemma registry_started: "registry_ok st \<Longrightarrow> registry_ok (logged (Was_Started n) (st\<lparr>su_started := insert n (su_started st)\<rparr>))"
  by (auto simp: registry_ok_def logged_def)

lemma registry_next_command: "registry_ok st \<Longrightarrow> registry_ok (next_setup_command env n c i spec k st)"
  by (auto simp: next_setup_command_def became_ready_def Let_def registry_logged split: sum.splits)

lemma registry_prepare: "registry_ok st \<Longrightarrow> prepare_create env n c u i current ans st = Some st' \<Longrightarrow> registry_ok st'"
  by (auto simp: prepare_create_def prepared_spec_def split: option.splits sum.splits prod.splits)

lemmas operation_defs = begin_create_def host_user_answer_def class_answer_def image_answer_def send_create_def create_failed_def
  create_answer_def identity_answer_def dependencies_ready_def created_awaited_def send_start_def start_answer_def exit_answer_def
  output_answer_def health_answer_def send_exec_def exec_answer_def became_ready_def Let_def

lemmas registry_rules = registry_logged registry_register registry_started registry_next_command

lemma registry_running: "registry_ok st \<Longrightarrow> running_step env e st = Some st' \<Longrightarrow> registry_ok st'"
  by (cases e) (auto simp: with_config_Some operation_defs registry_rules registry_prepare
      split: create_stage.splits ready_stage.splits if_splits sum.splits option.splits)

lemma registry_sent: "registry_ok st \<Longrightarrow> sent_step env e st = Some st' \<Longrightarrow> registry_ok st'"
  by (cases "(env, e, st)" rule: sent_step.cases)
    (auto simp: with_config_Some operation_defs registry_rules split: create_stage.splits sum.splits option.splits)

lemma registry_step: "registry_ok st \<Longrightarrow> startup_step env e st = Some st' \<Longrightarrow> registry_ok st'"
  using registry_sent[of st env e st'] registry_running[of st env e st'] by (auto simp: startup_step_def split: option.splits if_splits)

interpretation startup: event_machine "startup_step env" "start_startup key warned" "\<lambda>st. startup_inv env st \<and> registry_ok st"
  for env key warned
proof
  show "startup_inv env (start_startup key warned) \<and> registry_ok (start_startup key warned)"
    by (simp add: startup_inv_start) (simp add: registry_ok_def start_startup_def)
  show "startup_inv env st' \<and> registry_ok st'" if "startup_inv env st \<and> registry_ok st" "startup_step env e st = Some st'" for st e st'
    using that sent_step_inv[of env st e st'] running_step_inv[of env st e st'] registry_step[of st env e st']
    by (auto simp: startup_step_def split: option.splits if_splits)
qed

lemma registered_ids:
  assumes "orderly_startup env log"
  shows "im_get (foldl register_entry [] log) n = Some i \<longleftrightarrow> Created_With_Id n i \<in> set log" "im_ok (foldl register_entry [] log)"
proof -
  have "(\<forall>n i. im_get (foldl register_entry [] log) n = Some i \<longleftrightarrow> Created_With_Id n i \<in> set log) \<and> im_ok (foldl register_entry [] log)"
    using assms
  proof (induction log rule: rev_induct)
    case (snoc x log)
    then have ih: "\<forall>n i. im_get (foldl register_entry [] log) n = Some i \<longleftrightarrow> Created_With_Id n i \<in> set log"
      and ok: "im_ok (foldl register_entry [] log)" "entry_ok env log x" by (simp_all add: orderly_startup_snoc)
    show ?case
    proof (cases "\<exists>m j. x = Created_With_Id m j")
      case True
      then obtain m j where x: "x = Created_With_Id m j" by blast
      with ok have "Created_With_Id m j' \<notin> set log" for j' by simp
      with ih ok(1) x show ?thesis by (auto split: if_splits)
    next
      case False
      then have "register_entry r x = r" for r by (cases x) auto
      with ih ok(1) False show ?thesis by auto
    qed
  qed simp
  then show "im_get (foldl register_entry [] log) n = Some i \<longleftrightarrow> Created_With_Id n i \<in> set log" "im_ok (foldl register_entry [] log)"
    by blast+
qed

text \<open>
  C7 (startup_order): however the daemon's answers and the containers' turns interleave, and however the run ends, no
  container is created or started twice; a container starts only once it has been created and every one of its
  dependencies is ready, and one that shares another's network is created on that container's id. A container is ready
  only after it started and passed its own check, or ran to completion with exit code 0, and after each of its setup commands
  succeeded, each run once, in order, in the container itself or in a dependency that is ready.
\<close>

theorem startup_order:
  assumes "machine_reach (startup_step env) (start_startup key warned) st"
  shows "orderly_startup env (su_log st)"
  using startup.reach_invar[OF assms] by (simp add: startup_inv_def)

text \<open>The creates that were sent and have neither been answered nor made a container known.\<close>

definition unanswered :: "'e startup_state \<Rightarrow> string list" where
  "unanswered st = sort_dedup (filter (\<lambda>n. creating (su_create st n) \<and> \<not> im_contains (su_created st) n)
     (List.map_filter (\<lambda>x. case x of Create_Sent n _ \<Rightarrow> Some n | _ \<Rightarrow> None) (su_log st)))"

lemma in_sent_names: "n \<in> set (List.map_filter (\<lambda>x. case x of Create_Sent n _ \<Rightarrow> Some n | _ \<Rightarrow> None) log) \<longleftrightarrow> (\<exists>spec. Create_Sent n spec \<in> set log)"
proof -
  have "(case x of Create_Sent m _ \<Rightarrow> Some m | _ \<Rightarrow> None) = Some n \<longleftrightarrow> (\<exists>spec. x = Create_Sent n spec)" for x by (cases x) auto
  then show ?thesis unfolding in_map_filter by auto
qed

text \<open>What the cleanup of a run is given.\<close>

definition cleanup_of ::
  "'e startup_env \<Rightarrow> string option \<Rightarrow> tracker \<Rightarrow> termination_signal option \<Rightarrow> 'e startup_state \<Rightarrow> cleanup_env" where
  "cleanup_of env network tracker signal st = \<lparr>ce_graph = se_graph env, ce_containers = rc_containers (se_context env),
     ce_root = root_of env, ce_created = su_created st, ce_started = su_started st, ce_network = network,
     ce_tracker = tracker, ce_interrupted_by = signal\<rparr>"

lemma created_facts:
  assumes "machine_reach (startup_step env) (start_startup key warned) st"
  shows "im_get (su_created st) n = Some i \<longleftrightarrow> Created_With_Id n i \<in> set (su_log st)" "im_ok (su_created st)"
    "su_started st = {n. Was_Started n \<in> set (su_log st)}"
    "Create_Sent n spec \<in> set (su_log st) \<Longrightarrow>
       (\<exists>i. Created_With_Id n i \<in> set (su_log st)) \<or> Create_Refused n \<in> set (su_log st) \<or> n \<in> set (unanswered st)"
proof -
  from startup.reach_invar[OF assms] have inv: "startup_inv env st" and reg: "registry_ok st" by simp_all
  then have o: "orderly_startup env (su_log st)" by (simp add: startup_inv_def)
  show ids: "im_get (su_created st) n = Some i \<longleftrightarrow> Created_With_Id n i \<in> set (su_log st)" for n i
    using reg registered_ids(1)[OF o] by (simp add: registry_ok_def)
  show "im_ok (su_created st)" using reg registered_ids(2)[OF o] by (simp add: registry_ok_def)
  show "su_started st = {n. Was_Started n \<in> set (su_log st)}" using reg by (simp add: registry_ok_def)
  assume sent: "Create_Sent n spec \<in> set (su_log st)"
  show "(\<exists>i. Created_With_Id n i \<in> set (su_log st)) \<or> Create_Refused n \<in> set (su_log st) \<or> n \<in> set (unanswered st)"
  proof (cases "\<exists>s. su_create st n = Creating s")
    case True
    then have "n \<notin> set (im_keys (su_created st))"
      using inv_create_facts[OF inv, of n] ids[of n] im_get_key[of n "su_created st"] by auto
    with True sent in_sent_names[of n "su_log st"] show ?thesis by (auto simp: unanswered_def im_contains_def)
  next
    case False
    with sent inv_create_facts[OF inv, of n] show ?thesis
      by (cases "su_create st n") (fastforce simp: none_of_def create_answered_def split: sum.splits)+
  qed
qed


end
