(* ===== verification/Startup_End.thy ===== *)
theory Startup_End
  imports Startup_Order
begin

text \<open>
  How a startup ends: what it created is accounted for by the cleanup that follows, a failure names the container and the
  step that failed, and the daemon's answers bring every startup to its end.
\<close>

section \<open>Nothing created is forgotten\<close>

text \<open>What an answer of the daemon says it made, and that a log never forgets an entry.\<close>

fun made_by :: "'e startup_event \<Rightarrow> (string \<times> string) option" where
  "made_by (Create_Answer n (Inr i)) = Some (n, i)"
| "made_by (Create_Answer n (Inl (Some i, _))) = Some (n, i)"
| "made_by _ = None"

lemma fail_log [simp]: "su_log (fail_create n e st) = su_log st" "su_log (fail_ready n e st) = su_log st"
  by (simp_all add: fail_create_def fail_ready_def)

lemma kept_next_command: "x \<in> set (su_log st) \<Longrightarrow> x \<in> set (su_log (next_setup_command env n c i spec k st))"
  by (auto simp: next_setup_command_def became_ready_def Let_def split: sum.splits)

lemma kept_prepare: "prepare_create env n c u i current ans st = Some st' \<Longrightarrow> su_log st' = su_log st"
  by (auto simp: prepare_create_def prepared_spec_def split: option.splits sum.splits prod.splits)

lemma kept_running: "x \<in> set (su_log st) \<Longrightarrow> running_step env e st = Some st' \<Longrightarrow> x \<in> set (su_log st')"
  by (cases e) (auto simp: with_config_Some operation_defs kept_next_command dest: kept_prepare
      split: create_stage.splits ready_stage.splits if_splits sum.splits option.splits)

lemma kept_sent: "x \<in> set (su_log st) \<Longrightarrow> sent_step env e st = Some st' \<Longrightarrow> x \<in> set (su_log st')"
  by (cases "(env, e, st)" rule: sent_step.cases)
    (auto simp: with_config_Some operation_defs split: create_stage.splits sum.splits option.splits)

lemma kept_step: "x \<in> set (su_log st) \<Longrightarrow> startup_step env e st = Some st' \<Longrightarrow> x \<in> set (su_log st')"
  using kept_sent[of x st env e st'] kept_running[of x st env e st'] by (auto simp: startup_step_def split: option.splits if_splits)

lemma made_is_logged:
  assumes "made_by e = Some (n, i)" and "startup_step env e st = Some st'"
  shows "Created_With_Id n i \<in> set (su_log st')"
  using assms by (cases e rule: made_by.cases) (auto simp: startup_step_def with_config_Some operation_defs register_def
      split: create_stage.splits option.splits if_splits)

lemma kept_run: "x \<in> set (su_log st) \<Longrightarrow> run_events (startup_step env) es st = Some st' \<Longrightarrow> x \<in> set (su_log st')"
  by (induction es arbitrary: st) (auto split: option.splits dest: kept_step)

lemma made_in_run:
  "run_events (startup_step env) es st = Some st' \<Longrightarrow> e \<in> set es \<Longrightarrow> made_by e = Some (n, i) \<Longrightarrow> Created_With_Id n i \<in> set (su_log st')"
  by (induction es arbitrary: st) (auto split: option.splits dest: made_is_logged kept_run)

lemma registered_is_removed:
  assumes reach: "machine_reach (startup_step env) (start_startup key warned) st"
    and graph: "build_dependency_graph (rc_containers (se_context env)) (root_of env) tdeps = Inr (se_graph env)"
    and ids: "\<forall>a b i. Created_With_Id a i \<in> set (su_log st) \<and> Created_With_Id b i \<in> set (su_log st) \<longrightarrow> a = b"
    and cleaned: "cleanup_reach (cleanup_of env network tracker signal st) fin" "cs_phase fin = Finished"
    and i: "Created_With_Id n i \<in> set (su_log st)"
  shows "i \<in> cs_removed fin \<or> (n, i) \<in> set (lb_containers (left_of (cleanup_of env network tracker signal st) fin)) \<and>
     Cleanup_Error (failure_message (left_of (cleanup_of env network tracker signal st) fin) (cs_abandoned fin) (cs_refusals fin))
       \<in> set (cs_posted fin)"
proof -
  let ?cenv = "cleanup_of env network tracker signal st"
  note facts = created_facts[OF reach]
  have "distinct (map snd (su_created st))"
  proof -
    have "inj_on snd (set (su_created st))"
      using ids facts(1) im_get_ok[OF facts(2)] unfolding inj_on_def by (metis prod.collapse)
    moreover have "distinct (su_created st)" using facts(2) by (simp add: im_ok_def im_keys_def distinct_map)
    ultimately show ?thesis by (simp add: distinct_map)
  qed
  then have ok: "cleanup_ok ?cenv" using facts(2) graph by (auto simp: cleanup_ok_def cleanup_of_def im_ok_def)
  from i have "removal_of ?cenv n i \<in> set (removals ?cenv)" using facts(1) by (auto simp: removals_in cleanup_of_def)
  then have "(n, i) \<in> set (to_remove ?cenv)" by (force simp: to_remove_def removal_of_def)
  then have "i \<in> cs_removed fin \<or> (n, i) \<in> set (lb_containers (left_of ?cenv fin))" by (auto simp: left_of_def)
  moreover have "cs_failed fin" if "(n, i) \<in> set (lb_containers (left_of ?cenv fin))"
    using that cleanup_finished[OF ok cleaned] by (auto simp: left_behind_is_empty_def)
  ultimately show ?thesis using cleanup_finished[OF ok cleaned] by blast
qed

text \<open>
  C8 (created_containers_accounted): what a run made is accounted for when the run is over and has been cleaned up, however the
  startup ended. Every container the daemon said it made, in a create it answered or in one it failed, is removed, or cleanup
  failed and its error lists it. And every create request that was sent was answered, with a container or with a refusal, or the
  wait for its answer was cut short and the container is among those a warning names. The graph is the task's own, and the
  daemon gives no id twice.
\<close>

theorem created_containers_accounted:
  assumes run: "run_events (startup_step env) es (start_startup key warned) = Some st"
    and graph: "build_dependency_graph (rc_containers (se_context env)) (root_of env) tdeps = Inr (se_graph env)"
    and ids: "\<forall>a b i. Created_With_Id a i \<in> set (su_log st) \<and> Created_With_Id b i \<in> set (su_log st) \<longrightarrow> a = b"
    and cleaned: "cleanup_reach (cleanup_of env network tracker signal st) fin" "cs_phase fin = Finished"
  shows "(\<forall>n i. (n, i) \<in> set (List.map_filter made_by es) \<longrightarrow>
            i \<in> cs_removed fin \<or>
            (n, i) \<in> set (lb_containers (left_of (cleanup_of env network tracker signal st) fin)) \<and>
            Cleanup_Error (failure_message (left_of (cleanup_of env network tracker signal st) fin) (cs_abandoned fin)
              (cs_refusals fin)) \<in> set (cs_posted fin)) \<and>
         (\<forall>n spec. Create_Sent n spec \<in> set (su_log st) \<longrightarrow>
            (\<exists>i. Created_With_Id n i \<in> set (su_log st)) \<or> Create_Refused n \<in> set (su_log st) \<or> n \<in> set (unanswered st))"
proof (intro conjI allI impI)
  note reach = run_events_reach[OF reach_start run]
  fix n i
  assume "(n, i) \<in> set (List.map_filter made_by es)"
  then have "Created_With_Id n i \<in> set (su_log st)" using made_in_run[OF run] by (auto simp: in_map_filter)
  from registered_is_removed[OF reach graph ids cleaned this]
  show "i \<in> cs_removed fin \<or> (n, i) \<in> set (lb_containers (left_of (cleanup_of env network tracker signal st) fin)) \<and>
    Cleanup_Error (failure_message (left_of (cleanup_of env network tracker signal st) fin) (cs_abandoned fin) (cs_refusals fin))
      \<in> set (cs_posted fin)" .
qed (use created_facts(4)[OF run_events_reach[OF reach_start run]] in blast)

section \<open>Failures name what failed\<close>

text \<open>What the log must show for a cause to be true. A companion is never named: the container it checks is.\<close>

definition companion_failed :: "startup_log list \<Rightarrow> string \<Rightarrow> bool" where
  "companion_failed log m \<longleftrightarrow> Image_Refused m \<in> set log \<or> Create_Refused m \<in> set log \<or> Start_Refused m \<in> set log \<or>
     (\<exists>code. code \<noteq> 0 \<and> Exited_With m code \<in> set log)"

fun cause_true :: "'e startup_env \<Rightarrow> startup_log list \<Rightarrow> cleanup_cause \<Rightarrow> bool" where
  "cause_true env log (Image_Pull_Failed m) \<longleftrightarrow> Image_Refused m \<in> set log \<and> reports_readiness_for (conf env m) = None \<and> build_directory (conf env m) = None"
| "cause_true env log (Image_Build_Failed m) \<longleftrightarrow> Image_Refused m \<in> set log \<and> reports_readiness_for (conf env m) = None \<and> build_directory (conf env m) \<noteq> None"
| "cause_true env log (Create_Failed m) \<longleftrightarrow> Create_Refused m \<in> set log \<and> reports_readiness_for (conf env m) = None"
| "cause_true env log (Start_Failed m) \<longleftrightarrow> Start_Refused m \<in> set log \<and> reports_readiness_for (conf env m) = None"
| "cause_true env log (Not_Healthy m) \<longleftrightarrow> Health_Refused m \<in> set log \<or>
     (\<exists>companion. reports_readiness_for (conf env companion) = Some m \<and> companion_failed log companion)"
| "cause_true env log (Setup_Command_Exited m k code) \<longleftrightarrow> 0 < k \<and> Exec_Exited m (k - 1) code \<in> set log"
| "cause_true env log (Setup_Command_Not_Run m k) \<longleftrightarrow> 0 < k \<and> Exec_Refused m (k - 1) \<in> set log"
| "cause_true env log (Dependency_Exited m code) \<longleftrightarrow> code \<noteq> 0 \<and> Exited_With m code \<in> set log \<and> reports_readiness_for (conf env m) = None"
| "cause_true env log (Cause_Exited t code) \<longleftrightarrow> False"
| "cause_true env log (Cause_Failed t) \<longleftrightarrow> False"

definition error_true :: "'e startup_env \<Rightarrow> startup_log list \<Rightarrow> 'e run_error \<Rightarrow> bool" where
  "error_true env log e \<longleftrightarrow> (\<forall>cause. failed_step e = Some cause \<longrightarrow> cause_true env log cause)"

definition ends_run :: "'e startup_env \<Rightarrow> 'e run_error \<Rightarrow> bool" where
  "ends_run env e \<longleftrightarrow> (\<exists>e'. e = flattened (se_debug env) e') \<or> (\<exists>s. e = Of_Type (Task_Interrupted_By s))"

definition errors_ok :: "'e startup_env \<Rightarrow> 'e startup_state \<Rightarrow> bool" where
  "errors_ok env st \<longleftrightarrow> (\<forall>n e. su_create st n = Create_Done (Inl e) \<longrightarrow> error_true env (su_log st) e) \<and>
     (\<forall>n e. su_ready st n = Ready_Done (Inl e) \<longrightarrow> error_true env (su_log st) e) \<and>
     (\<forall>e. su_phase st = Ended_With e \<longrightarrow> error_true env (su_log st) e \<and> ends_run env e)"

lemma ends_run_simps [simp]: "ends_run env (flattened (se_debug env) e)" "ends_run env (Of_Type (Task_Interrupted_By s))"
  by (auto simp: ends_run_def)

lemma cause_of_ended:
  assumes "ends_run env e" "cause_of_cleanup task (Inl e) = Some cause"
  shows "cause = Cause_Failed task \<or> failed_step e = Some cause"
proof -
  have "own_exit_code run_error_crate (Inl e) = None"
    using assms(1) by (auto simp: ends_run_def own_exit_code_def run_error_crate_def flattened_def failed_tag_def Let_def split: option.splits if_splits)
  moreover have "failed_step (Of_Type (Failure_Reported e)) = failed_step e" by simp
  ultimately show ?thesis using assms(2)
    by (auto simp: cause_of_cleanup_def report_failure_def Let_def run_error_crate_def split: if_splits option.splits)
qed

lemma cause_true_mono: "cause_true env log cause \<Longrightarrow> cause_true env (log @ xs) cause"
  by (cases cause) (auto simp: companion_failed_def)

lemma error_true_simps [simp]:
  "error_true env log (Foreign x)" "error_true env log (Told m)" "error_true env log (Spec_Failed se)" "error_true env log (Cache_Failed ce)"
  "error_true env log (Mapping_Failed me)" "error_true env log (In_Context m' e) = error_true env log e"
  "error_true env log (Of_Type (Task_Interrupted_By s))" "error_true env log (flattened debug e) = error_true env log e"
  "error_true env log (failed_tag e cause) = cause_true env log cause"
  by (simp_all add: error_true_def failed_tag_def)

lemma error_true_mono: "error_true env log e \<Longrightarrow> error_true env (log @ xs) e"
  by (simp add: error_true_def cause_true_mono)

lemma errors_logged: "errors_ok env st \<Longrightarrow> errors_ok env (logged x st)"
  by (auto simp: errors_ok_def logged_def intro: error_true_mono)

lemma errors_set_create: "errors_ok env st \<Longrightarrow> (\<forall>e. s = Create_Done (Inl e) \<longrightarrow> error_true env (su_log st) e) \<Longrightarrow> errors_ok env (set_create n s st)"
  by (auto simp: errors_ok_def set_create_def)

lemma errors_set_ready: "errors_ok env st \<Longrightarrow> (\<forall>e. s = Ready_Done (Inl e) \<longrightarrow> error_true env (su_log st) e) \<Longrightarrow> errors_ok env (set_ready n s st)"
  by (auto simp: errors_ok_def set_ready_def)

lemma errors_fail:
  "errors_ok env st \<Longrightarrow> error_true env (su_log st) e \<Longrightarrow> errors_ok env (fail_create n e st)"
  "errors_ok env st \<Longrightarrow> error_true env (su_log st) e \<Longrightarrow> errors_ok env (fail_ready n e st)"
  by (auto simp: fail_create_def fail_ready_def intro!: errors_set_create errors_set_ready)

lemma errors_frame [simp]:
  "errors_ok env (post es st) = errors_ok env st" "errors_ok env (narrate c e st) = errors_ok env st" "errors_ok env (warn_once w st) = errors_ok env st"
  "errors_ok env (st\<lparr>su_watched := w'\<rparr>) = errors_ok env st" "errors_ok env (st\<lparr>su_started := x\<rparr>) = errors_ok env st"
  "errors_ok env (st\<lparr>su_created := m\<rparr>) = errors_ok env st" "errors_ok env (st\<lparr>su_cache_key := k\<rparr>) = errors_ok env st"
  "errors_ok env (st\<lparr>su_cache_effects := es'\<rparr>) = errors_ok env st"
  by (simp_all add: errors_ok_def post_def narrate_def warn_once_def)

lemma errors_warnings [simp]: "errors_ok env (foldl (\<lambda>st w. warn_once (f w) st) st ws) = errors_ok env st"
  by (induction ws arbitrary: st) simp_all

lemma errors_register: "errors_ok env st \<Longrightarrow> errors_ok env (register n i st)"
  by (simp add: register_def errors_logged)

lemma of_container_true:
  assumes "conf env n = c" "reports_readiness_for c = None \<Longrightarrow> cause_true env log (cause n)" "companion_failed log n"
  shows "cause_true env log (of_container n (reports_readiness_for c) cause)"
  using assms by (auto simp: of_container_def split: option.splits)

lemma exec_target_error: "exec_target ctx sc = Inl e \<Longrightarrow> error_true env log e"
  by (auto simp: exec_target_def split: option.splits)

lemma errors_next_command: "errors_ok env st \<Longrightarrow> errors_ok env (next_setup_command env n c i spec k st)"
  by (auto simp: next_setup_command_def became_ready_def Let_def exec_target_error split: sum.splits
      intro!: errors_fail errors_set_ready errors_logged)

lemma errors_image_answer: "errors_ok env st \<Longrightarrow> conf env n = c \<Longrightarrow> errors_ok env (image_answer env n c u r st)"
  by (auto simp: image_answer_def companion_failed_def split: sum.splits
      intro!: errors_fail errors_logged errors_set_create of_container_true)

lemma errors_prepare:
  assumes "errors_ok env st" "prepare_create env n c u i current ans st = Some st'"
  shows "errors_ok env st'"
proof -
  have target: "error_true env (su_log st) e" if "target_created env c st = Some (Inl e)" for e
  proof -
    from that obtain t e0 where "su_create st t = Create_Done (Inl e0)" "e = flattened (se_debug env) e0"
      by (auto simp: target_created_def split: option.splits create_stage.splits sum.splits prod.splits)
        (metis Inl_Inr_False map_err.simps sumE sum.inject(1) unshare_def)
    with assms(1) show ?thesis by (auto simp: errors_ok_def)
  qed
  have spec: "errors_ok env st1 \<and> (\<forall>e. r = Inl e \<longrightarrow> error_true env (su_log st1) e)"
    if "prepared_spec env n c ids u i current ans st = (r, st1)" for ids r st1
    using that assms(1) unfolding prepared_spec_def
    by (cases "resolve_network (network_mode c) (rc_network (se_context env)) ids"; cases "resolve_user_mapping current c")
      (auto split: sum.splits prod.splits)
  show ?thesis using assms target spec
    by (fastforce simp: prepare_create_def split: option.splits sum.splits prod.splits intro!: errors_fail errors_set_create)
qed

lemma errors_create_failed:
  "errors_ok env st \<Longrightarrow> conf env n = c \<Longrightarrow> errors_ok env (create_failed n c e st)"
  by (auto simp: create_failed_def companion_failed_def intro!: errors_fail errors_logged of_container_true)

lemma errors_start_answer: "errors_ok env st \<Longrightarrow> conf env n = c \<Longrightarrow> errors_ok env (start_answer env n c i spec r st)"
  by (auto simp: start_answer_def Let_def companion_failed_def split: sum.splits
      intro!: errors_fail errors_logged errors_set_ready errors_next_command of_container_true)

lemma errors_exit_answer: "errors_ok env st \<Longrightarrow> conf env n = c \<Longrightarrow> errors_ok env (exit_answer n c i r st)"
  by (auto simp: exit_answer_def became_ready_def Let_def split: sum.splits
      intro!: errors_fail errors_logged errors_set_ready)

lemma errors_health_answer: "errors_ok env st \<Longrightarrow> errors_ok env (health_answer env n c i spec r st)"
  by (auto simp: health_answer_def split: sum.splits intro!: errors_fail errors_logged errors_next_command)

lemma errors_exec_answer: "errors_ok env st \<Longrightarrow> errors_ok env (exec_answer env n c i spec k r st)"
  by (auto simp: exec_answer_def Let_def setup_answer_def setup_context_of_def split: sum.splits
      intro!: errors_fail errors_logged errors_next_command)

lemma errors_output_answer:
  assumes "errors_ok env st" "startup_inv env st" "su_ready st n = Reading_Output i" "reports_readiness_for (conf env n) = Some checked"
  shows "errors_ok env (output_answer n checked r st)"
proof -
  have "companion_failed (su_log st) n" using inv_ready_facts[OF assms(2), of n] assms(3) by (auto simp: companion_failed_def)
  with assms(4) have "cause_true env (su_log st) (Not_Healthy checked)" by auto
  then show ?thesis using assms(1) by (auto simp: output_answer_def Let_def intro!: errors_fail simp del: cause_true.simps)
qed

lemma errors_end: "errors_ok env st \<Longrightarrow> (\<forall>e. p = Ended_With e \<longrightarrow> error_true env (su_log st) e \<and> ends_run env e) \<Longrightarrow> errors_ok env (st\<lparr>su_phase := p\<rparr>)"
  by (simp add: errors_ok_def)

lemmas errors_rules = errors_image_answer errors_prepare errors_start_answer errors_exit_answer errors_health_answer
  errors_exec_answer errors_output_answer

lemma errors_of_stage:
  "errors_ok env st \<Longrightarrow> su_create st n = Create_Done (Inl e) \<Longrightarrow> error_true env (su_log st) e"
  "errors_ok env st \<Longrightarrow> su_ready st n = Ready_Done (Inl e) \<Longrightarrow> error_true env (su_log st) e"
  by (auto simp: errors_ok_def)

lemma errors_created_awaited:
  "errors_ok env st \<Longrightarrow> su_create st n = Create_Done r \<Longrightarrow> errors_ok env (created_awaited env n r st)"
  by (cases r) (auto simp: created_awaited_def intro!: errors_fail errors_set_ready dest: errors_of_stage)

lemma errors_running:
  assumes "errors_ok env st" "startup_inv env st" "running_step env e st = Some st'"
  shows "errors_ok env st'"
proof (cases e)
  case (Creation_Failed n)
  with assms show ?thesis by (auto split: create_stage.splits sum.splits if_splits intro!: errors_end dest: errors_of_stage)
next
  case (Readiness_Failed n)
  with assms show ?thesis by (auto split: ready_stage.splits sum.splits if_splits intro!: errors_end dest: errors_of_stage)
next
  case (Dependency_Failed n d)
  with assms show ?thesis by (auto split: ready_stage.splits sum.splits if_splits intro!: errors_fail dest: errors_of_stage)
next
  case (Created_Awaited n)
  with assms show ?thesis by (auto simp: errors_created_awaited split: ready_stage.splits create_stage.splits)
qed (use assms in \<open>auto simp: with_config_Some begin_create_def host_user_answer_def class_answer_def send_create_def dependencies_ready_def
      send_start_def send_exec_def errors_rules split: create_stage.splits ready_stage.splits if_splits sum.splits option.splits
      intro!: errors_fail errors_set_create errors_set_ready errors_logged errors_end\<close>)

lemma errors_sent: "errors_ok env st \<Longrightarrow> sent_step env e st = Some st' \<Longrightarrow> errors_ok env st'"
  by (cases "(env, e, st)" rule: sent_step.cases)
    (auto simp: with_config_Some create_answer_def identity_answer_def Let_def split: create_stage.splits sum.splits option.splits
      intro!: errors_set_create errors_create_failed errors_register)

interpretation startup_errors: event_machine "startup_step env" "start_startup key warned" "\<lambda>st. startup_inv env st \<and> errors_ok env st"
  for env key warned
proof
  show "startup_inv env (start_startup key warned) \<and> errors_ok env (start_startup key warned)"
    by (simp add: startup_inv_start) (simp add: errors_ok_def start_startup_def)
  show "startup_inv env st' \<and> errors_ok env st'" if "startup_inv env st \<and> errors_ok env st" "startup_step env e st = Some st'" for st e st'
    using that sent_step_inv[of env st e st'] running_step_inv[of env st e st'] errors_sent[of env st e st'] errors_running[of env st e st']
    by (auto simp: startup_step_def split: option.splits if_splits)
qed


end
