(* ===== verification/Startup_Progress.thy ===== *)
theory Startup_Progress
  imports Startup_Order
begin

text \<open>
  That a startup ends. Every step moves the creation or the readiness of one container of the graph forward, or ends the run;
  a permit is held by no more requests than the cap allows; and as long as the run is not over, some answer of the daemon or
  turn of the program is due, because the container with nothing left to wait for among those under way is not waiting.
\<close>

section \<open>What a step moves\<close>

fun create_rank :: "'e create_stage \<Rightarrow> nat" where
  "create_rank Uncreated = 8"
| "create_rank Asking_Host_User = 7"
| "create_rank (Asking_Class _) = 6"
| "create_rank (Resolving_Image _) = 5"
| "create_rank (Awaiting_Target _ _) = 4"
| "create_rank (Awaiting_Create_Permit _) = 3"
| "create_rank (Creating _) = 2"
| "create_rank (Applying_Identity _ _) = 1"
| "create_rank (Create_Done _) = 0"

text \<open>The rank of a readiness, for a container with that many setup commands.\<close>

fun ready_rank :: "nat \<Rightarrow> 'e ready_stage \<Rightarrow> nat" where
  "ready_rank l Not_Reached = 2 * l + 9"
| "ready_rank l Awaiting_Dependencies = 2 * l + 8"
| "ready_rank l Awaiting_Created = 2 * l + 7"
| "ready_rank l (Awaiting_Start_Permit _ _) = 2 * l + 6"
| "ready_rank l (Starting _ _) = 2 * l + 5"
| "ready_rank l (Awaiting_Exit _) = 2 * l + 4"
| "ready_rank l (Reading_Output _) = 2 * l + 3"
| "ready_rank l (Awaiting_Health _ _) = 2 * l + 3"
| "ready_rank l (Awaiting_Exec_Permit _ _ k) = 2 * (l - k) + 2"
| "ready_rank l (Executing _ _ k) = 2 * (l - k) + 1"
| "ready_rank l (Ready_Done _) = 0"

text \<open>What the stage of a container says of its configuration and of its dependencies.\<close>

fun stage_ok :: "'e startup_env \<Rightarrow> 'e startup_state \<Rightarrow> string \<Rightarrow> 'e ready_stage \<Rightarrow> bool" where
  "stage_ok env st n (Reading_Output _) \<longleftrightarrow> reports_readiness_for (conf env n) \<noteq> None"
| "stage_ok env st n (Awaiting_Exec_Permit i spec k) \<longleftrightarrow>
     is_ok (exec_target (setup_context_of env n i spec st) (commands_of env n ! k) :: ('e run_error, exec_request \<times> string) result)"
| "stage_ok env st n _ \<longleftrightarrow> True"

definition creation_moved :: "'e startup_env \<Rightarrow> 'e startup_state \<Rightarrow> 'e startup_state \<Rightarrow> bool" where
  "creation_moved env st st' \<longleftrightarrow> (\<exists>n s. su_create st' = (su_create st)(n := s) \<and> su_ready st' = su_ready st \<and>
     su_phase st' = su_phase st \<and> create_rank s < create_rank (su_create st n) \<and>
     (su_create st n = Uncreated \<longrightarrow> wants_create env n st) \<and>
     (creating s \<longrightarrow> creating (su_create st n) \<or> permit_free env st))"

definition readiness_moved :: "'e startup_env \<Rightarrow> 'e startup_state \<Rightarrow> 'e startup_state \<Rightarrow> bool" where
  "readiness_moved env st st' \<longleftrightarrow> (\<exists>n s. su_ready st' = (su_ready st)(n := s) \<and> su_create st' = su_create st \<and>
     su_phase st' = su_phase st \<and> ready_rank (length (commands_of env n)) s < ready_rank (length (commands_of env n)) (su_ready st n) \<and>
     stage_ok env st n s \<and> (su_ready st n = Not_Reached \<longrightarrow> wants_ready env n st) \<and>
     (asking_daemon s \<longrightarrow> asking_daemon (su_ready st n) \<or> permit_free env st))"

definition run_ended :: "'e startup_state \<Rightarrow> 'e startup_state \<Rightarrow> bool" where
  "run_ended st st' \<longleftrightarrow> su_create st' = su_create st \<and> su_ready st' = su_ready st \<and> running st \<and> \<not> running st'"

lemma creation_movedI:
  assumes "su_create st' = (su_create st)(n := s)" "su_ready st' = su_ready st" "su_phase st' = su_phase st"
    "create_rank s < create_rank (su_create st n)" "su_create st n = Uncreated \<Longrightarrow> wants_create env n st"
    "creating s \<Longrightarrow> creating (su_create st n) \<or> permit_free env st"
  shows "creation_moved env st st'"
  using assms unfolding creation_moved_def by blast

lemma readiness_movedI:
  assumes "su_ready st' = (su_ready st)(n := s)" "su_create st' = su_create st" "su_phase st' = su_phase st"
    "ready_rank (length (commands_of env n)) s < ready_rank (length (commands_of env n)) (su_ready st n)"
    "stage_ok env st n s" "su_ready st n = Not_Reached \<Longrightarrow> wants_ready env n st"
    "asking_daemon s \<Longrightarrow> asking_daemon (su_ready st n) \<or> permit_free env st"
  shows "readiness_moved env st st'"
  using assms unfolding readiness_moved_def by blast

lemma phase_frame [simp]:
  "su_phase (post es st) = su_phase st" "su_phase (narrate c e st) = su_phase st" "su_phase (warn_once w st) = su_phase st"
  "su_phase (logged x st) = su_phase st" "su_phase (set_create n s st) = su_phase st" "su_phase (set_ready n r st) = su_phase st"
  "su_phase (register n i st) = su_phase st"
  by (simp_all add: post_def narrate_def warn_once_def logged_def set_create_def set_ready_def register_def)

lemma phase_warnings [simp]:
  "su_phase (foldl (\<lambda>st w. warn_once (f w) st) st ws) = su_phase st"
  by (induction ws arbitrary: st) simp_all

lemma set_create_moved:
  assumes "su_create st1 = su_create st" "su_ready st1 = su_ready st" "su_phase st1 = su_phase st"
    "create_rank s < create_rank (su_create st n)" "su_create st n = Uncreated \<Longrightarrow> wants_create env n st"
    "creating s \<Longrightarrow> creating (su_create st n) \<or> permit_free env st"
  shows "creation_moved env st (set_create n s st1)"
  using assms by (intro creation_movedI[of _ _ n s]) simp_all

lemma set_ready_moved:
  assumes "su_ready st1 = su_ready st" "su_create st1 = su_create st" "su_phase st1 = su_phase st"
    "ready_rank (length (commands_of env n)) s < ready_rank (length (commands_of env n)) (su_ready st n)"
    "stage_ok env st n s" "su_ready st n = Not_Reached \<Longrightarrow> wants_ready env n st"
    "asking_daemon s \<Longrightarrow> asking_daemon (su_ready st n) \<or> permit_free env st"
  shows "readiness_moved env st (set_ready n s st1)"
  using assms by (intro readiness_movedI[of _ _ n s]) simp_all

lemma prepare_moved:
  assumes "prepare_create env n c u i current ans st = Some st'" "su_create st n = Awaiting_Target u i"
  shows "creation_moved env st st'"
  using assms by (auto simp: prepare_create_def prepared_spec_def fail_create_def split: option.splits sum.splits prod.splits
      intro!: set_create_moved)

lemma context_cong: "su_ready st1 = su_ready st \<Longrightarrow> setup_context_of env n i spec st1 = setup_context_of env n i spec st"
  by (simp add: setup_context_of_def dependency_ids_def)

lemma commands_conf: "c = conf env n \<Longrightarrow> or_empty (setup_commands c) = commands_of env n"
  by (simp add: commands_of_def)

text \<open>Whatever was logged and posted before it, the next setup command moves the readiness, and nothing else.\<close>

lemma next_command_effect:
  assumes c: "c = conf env n" and frame: "su_ready st1 = su_ready st" "su_create st1 = su_create st" "su_phase st1 = su_phase st"
  obtains s where "su_ready (next_setup_command env n c i spec k st1) = (su_ready st)(n := s)"
    "su_create (next_setup_command env n c i spec k st1) = su_create st"
    "su_phase (next_setup_command env n c i spec k st1) = su_phase st"
    "stage_ok env st n s" "\<not> asking_daemon s"
    "ready_rank (length (commands_of env n)) s = 0 \<or>
     ready_rank (length (commands_of env n)) s = 2 * (length (commands_of env n) - k) + 2 \<and> k < length (commands_of env n)"
proof (cases "k < length (commands_of env n)")
  case True
  show thesis
  proof (cases "exec_target (setup_context_of env n i spec st) (commands_of env n ! k) :: ('a run_error, exec_request \<times> string) result")
    case (Inl e)
    with True show thesis
      by (intro that[of "Ready_Done (Err e)"])
        (simp_all add: next_setup_command_def commands_conf[OF c] context_cong[OF frame(1)] frame fail_ready_def Let_def)
  next
    case (Inr y)
    with True show thesis
      by (intro that[of "Awaiting_Exec_Permit i spec k"])
        (simp_all add: next_setup_command_def commands_conf[OF c] context_cong[OF frame(1)] frame Let_def)
  qed
next
  case False
  then show thesis
    by (intro that[of "Ready_Done (Ok i)"])
      (simp_all add: next_setup_command_def commands_conf[OF c] frame became_ready_def Let_def)
qed

lemma next_command_moved:
  assumes "c = conf env n" "su_ready st1 = su_ready st" "su_create st1 = su_create st" "su_phase st1 = su_phase st"
    and "2 * (length (commands_of env n) - k) + 2 < ready_rank (length (commands_of env n)) (su_ready st n) \<or>
      \<not> k < length (commands_of env n) \<and> 0 < ready_rank (length (commands_of env n)) (su_ready st n)"
    and "su_ready st n \<noteq> Not_Reached"
  shows "readiness_moved env st (next_setup_command env n c i spec k st1)"
  by (rule next_command_effect[OF assms(1-4), of i spec k], rule readiness_movedI) (use assms(5,6) in auto)

lemma running_moves:
  assumes "running_step env e st = Some st'" "running st"
  shows "creation_moved env st st' \<or> readiness_moved env st st' \<or> run_ended st st'"
proof (cases e)
  case (Prepare n current ans)
  with assms show ?thesis by (auto simp: with_config_Some split: create_stage.splits dest: prepare_moved)
next
  case (Start_Answer n r)
  with assms show ?thesis by (auto simp: with_config_Some start_answer_def fail_ready_def Let_def split: ready_stage.splits sum.splits
        intro!: next_command_moved set_ready_moved)
next
  case (Health_Answer n r)
  with assms show ?thesis by (auto simp: with_config_Some health_answer_def fail_ready_def split: ready_stage.splits sum.splits
        intro!: next_command_moved set_ready_moved)
next
  case (Exec_Answer n r)
  with assms show ?thesis by (auto simp: with_config_Some exec_answer_def fail_ready_def Let_def split: ready_stage.splits sum.splits
        intro!: next_command_moved set_ready_moved)
next
  case (Exit_Answer n r)
  with assms show ?thesis by (auto simp: with_config_Some exit_answer_def became_ready_def fail_ready_def Let_def split: ready_stage.splits sum.splits
        intro!: set_ready_moved)
next
  case (Output_Answer n r)
  with assms show ?thesis by (auto simp: with_config_Some output_answer_def fail_ready_def Let_def split: ready_stage.splits
        intro!: set_ready_moved)
next
  case (Image_Answer n r)
  with assms show ?thesis by (auto simp: with_config_Some image_answer_def fail_create_def split: create_stage.splits sum.splits
        intro!: set_create_moved)
next
  case (Begin_Create n)
  with assms show ?thesis by (auto simp: begin_create_def fail_create_def split: create_stage.splits if_splits option.splits
        intro!: set_create_moved)
next
  case (Creation_Failed n)
  with assms show ?thesis by (auto simp: run_ended_def running_def split: create_stage.splits sum.splits if_splits)
next
  case (Readiness_Failed n)
  with assms show ?thesis by (auto simp: run_ended_def running_def split: ready_stage.splits sum.splits if_splits)
next
  case Joined
  with assms show ?thesis by (auto simp: run_ended_def running_def split: if_splits)
next
  case (Signal_Arrived sig)
  with assms show ?thesis by (auto simp: run_ended_def running_def)
qed (use assms in \<open>auto simp: with_config_Some host_user_answer_def class_answer_def send_create_def
      dependencies_ready_def created_awaited_def send_start_def send_exec_def fail_create_def fail_ready_def
      split: create_stage.splits ready_stage.splits if_splits sum.splits option.splits
      intro!: set_create_moved set_ready_moved\<close>)

lemma sent_moves:
  assumes "sent_step env e st = Some st'"
  shows "creation_moved env st st'"
  using assms by (cases "(env, e, st)" rule: sent_step.cases)
    (auto simp: with_config_Some create_answer_def create_failed_def identity_answer_def fail_create_def Let_def
      split: create_stage.splits sum.splits option.splits intro!: set_create_moved)

lemma startup_moves:
  "startup_step env e st = Some st' \<Longrightarrow> creation_moved env st st' \<or> readiness_moved env st st' \<or> run_ended st st'"
  by (auto simp: startup_step_def split: option.splits if_splits dest: sent_moves running_moves)


section \<open>The graph bounds the startup\<close>

text \<open>
  The graph is the one built for the task, a container shares the network of one of its own dependencies only, which the loader's
  checks see to, and the cap, where one is given, is at least one.
\<close>

definition startup_ok :: "'e startup_env \<Rightarrow> string list option \<Rightarrow> bool" where
  "startup_ok env tdeps \<longleftrightarrow>
     build_dependency_graph (rc_containers (se_context env)) (root_of env) tdeps = Inr (se_graph env) \<and>
     (\<forall>n c t. config_of env n = Some c \<longrightarrow> network_target c = Some t \<longrightarrow> t \<in> set (or_empty (dependencies c))) \<and>
     se_max_parallelism env \<noteq> Some 0"

lemma topological_distinct: "topological g \<Longrightarrow> distinct (im_keys g)"
  by (induction rule: topological.induct) (simp_all add: im_keys_def)

lemma startup_ok_facts:
  assumes "startup_ok env tdeps"
  shows "topological (se_graph env)" and "n \<in> set (task_names_of env) \<Longrightarrow> \<exists>c. config_of env n = Some c"
    and "n \<in> set (task_names_of env) \<Longrightarrow> config_of env n = Some c \<Longrightarrow> network_target c = Some t \<Longrightarrow>
      t \<in> set (graph_succs (se_graph env) n)"
    and "d \<in> set (graph_succs (se_graph env) n) \<Longrightarrow> d \<in> set (task_names_of env)"
    and "root_of env \<in> set (task_names_of env)" and "distinct (task_names_of env)"
proof -
  from assms have g: "build_dependency_graph (rc_containers (se_context env)) (root_of env) tdeps = Inr (se_graph env)"
    by (simp add: startup_ok_def)
  note facts = build_graph_facts[OF g]
  show "topological (se_graph env)" by (rule facts(1))
  show "\<exists>c. config_of env n = Some c" if "n \<in> set (task_names_of env)"
    using that facts(4) by (auto simp: config_of_def task_names_of_def dest: im_get_key)
  show "d \<in> set (task_names_of env)" if "d \<in> set (graph_succs (se_graph env) n)"
    using that topological_rank[OF facts(1)] by (auto simp: task_names_of_def)
  show "t \<in> set (graph_succs (se_graph env) n)"
    if "n \<in> set (task_names_of env)" "config_of env n = Some c" "network_target c = Some t"
    using that assms facts(2) facts(3)[of n] by (auto simp: startup_ok_def task_names_of_def config_of_def deps_of_def)
  show "root_of env \<in> set (task_names_of env)"
    using facts(2) reachable_from_start[of "{root_of env}"] by (auto simp: task_names_of_def task_reach[symmetric])
  show "distinct (task_names_of env)" using topological_distinct[OF facts(1)] by (simp add: task_names_of_def)
qed

definition confined :: "'e startup_env \<Rightarrow> 'e startup_state \<Rightarrow> bool" where
  "confined env st \<longleftrightarrow> (\<forall>n. n \<notin> set (task_names_of env) \<longrightarrow> su_create st n = Uncreated \<and> su_ready st n = Not_Reached)"

definition stages_ok :: "'e startup_env \<Rightarrow> 'e startup_state \<Rightarrow> bool" where
  "stages_ok env st \<longleftrightarrow> (\<forall>n. stage_ok env st n (su_ready st n))"

definition startup_rank :: "'e startup_env \<Rightarrow> 'e startup_state \<Rightarrow> nat" where
  "startup_rank env st = (\<Sum>n \<in> set (task_names_of env). create_rank (su_create st n) + ready_rank (length (commands_of env n)) (su_ready st n)) +
     (if running st then 1 else 0)"


lemma awaiting_cases:
  "(case s of Awaiting_Target _ _ \<Rightarrow> P | _ \<Rightarrow> False) \<longleftrightarrow> (\<exists>u i. s = Awaiting_Target u i) \<and> P"
  "(case r of Awaiting_Created \<Rightarrow> True | _ \<Rightarrow> False) \<longleftrightarrow> r = Awaiting_Created"
  "(case r of Awaiting_Dependencies \<Rightarrow> P | _ \<Rightarrow> False) \<longleftrightarrow> r = Awaiting_Dependencies \<and> P"
  by (cases s; simp) (cases r; simp)+

lemmas wants_defs = wants_create_def[unfolded list_ex_iff awaiting_cases] wants_ready_def[unfolded list_ex_iff awaiting_cases]

lemma confined_step:
  assumes "startup_ok env tdeps" "confined env st" "startup_step env e st = Some st'"
  shows "confined env st'"
proof -
  have awaited: "n \<in> set (task_names_of env)"
    if "su_create st m = Awaiting_Target u i" "Option.bind (config_of env m) network_target = Some n" for n m u i
  proof -
    from that(1) assms(2) have "m \<in> set (task_names_of env)" by (force simp: confined_def)
    moreover from that(2) obtain c where "config_of env m = Some c" "network_target c = Some n" by (auto simp: bind_eq_Some_conv)
    ultimately show ?thesis using startup_ok_facts(3)[OF assms(1)] startup_ok_facts(4)[OF assms(1)] by blast
  qed
  have created: "n \<in> set (task_names_of env)" if "wants_create env n st" for n
    using that assms(2) awaited by (auto simp: wants_defs confined_def)
  have ready: "n \<in> set (task_names_of env)" if "wants_ready env n st" for n
    using that startup_ok_facts(4)[OF assms(1)] by (auto simp: wants_defs)
  consider (c) "creation_moved env st st'" | (r) "readiness_moved env st st'" | (e) "run_ended st st'"
    using startup_moves[OF assms(3)] by blast
  then show ?thesis
  proof cases
    case c
    then obtain n s where n: "su_create st' = (su_create st)(n := s)" "su_ready st' = su_ready st"
      "su_create st n = Uncreated \<longrightarrow> wants_create env n st" by (auto simp: creation_moved_def)
    with created[of n] assms(2) have "n \<in> set (task_names_of env)" by (auto simp: confined_def)
    with n assms(2) show ?thesis by (auto simp: confined_def)
  next
    case r
    then obtain n s where n: "su_ready st' = (su_ready st)(n := s)" "su_create st' = su_create st"
      "su_ready st n = Not_Reached \<longrightarrow> wants_ready env n st" by (auto simp: readiness_moved_def)
    with ready[of n] assms(2) have "n \<in> set (task_names_of env)" by (auto simp: confined_def)
    with n assms(2) show ?thesis by (auto simp: confined_def)
  qed (use assms(2) in \<open>simp add: confined_def run_ended_def\<close>)
qed

lemma has_dependency_id:
  "im_get (dependency_ids env n st) t \<noteq> None \<longleftrightarrow> t \<in> set (graph_succs (se_graph env) n) \<and> is_ready (su_ready st t)"
proof -
  have "im_get (dependency_ids env n st) t \<noteq> None \<longleftrightarrow> (\<exists>i. (t, i) \<in> set (dependency_ids env n st))"
    unfolding im_get_def map_of_eq_None_iff by force
  then show ?thesis by (simp add: in_dependency_ids is_ready_iff)
qed

lemma target_ready:
  "is_ok (exec_target (setup_context_of env n i spec st) sc) \<longleftrightarrow>
     (\<forall>t. elsewhere (setup_context_of env n i spec st) sc = Some t \<longrightarrow>
        t \<in> set (graph_succs (se_graph env) n) \<and> is_ready (su_ready st t))"
proof (cases "elsewhere (setup_context_of env n i spec st) sc")
  case None
  then show ?thesis by (simp add: exec_target_def)
next
  case (Some t)
  then show ?thesis using has_dependency_id[of env n st t]
    by (cases "im_get (dependency_ids env n st) t") (simp_all add: exec_target_def setup_context_of_def)
qed

lemma elsewhere_frame: "elsewhere (setup_context_of env n i spec st) sc = elsewhere (setup_context_of env n i spec st') sc"
  by (simp add: elsewhere_def setup_context_of_def cong: option.case_cong)

lemma stages_ok_step:
  assumes "stages_ok env st" "startup_step env e st = Some st'"
  shows "stages_ok env st'"
  using startup_moves[OF assms(2)]
proof (elim disjE)
  assume "readiness_moved env st st'"
  then obtain m s where m: "su_ready st' = (su_ready st)(m := s)" "stage_ok env st m s"
    "ready_rank (length (commands_of env m)) s < ready_rank (length (commands_of env m)) (su_ready st m)"
    by (auto simp: readiness_moved_def)
  then have kept: "is_ready (su_ready st t) \<Longrightarrow> is_ready (su_ready st' t)" for t by (auto simp: is_ready_iff)
  have "stage_ok env st' n s'" if "stage_ok env st n s'" for n s'
    using that kept by (cases s') (auto simp: target_ready elsewhere_frame[of env n _ _ st' _ st])
  with m assms(1) show ?thesis by (simp add: stages_ok_def)
next
  have "stage_ok env st' n s \<longleftrightarrow> stage_ok env st n s" if "su_ready st' = su_ready st" for n s
    using context_cong[OF that] by (cases s) simp_all
  moreover assume "creation_moved env st st'"
  ultimately show ?thesis using assms(1) by (auto simp: stages_ok_def creation_moved_def)
next
  have "stage_ok env st' n s \<longleftrightarrow> stage_ok env st n s" if "su_ready st' = su_ready st" for n s
    using context_cong[OF that] by (cases s) simp_all
  moreover assume "run_ended st st'"
  ultimately show ?thesis using assms(1) by (auto simp: stages_ok_def run_ended_def)
qed


lemma sum_one_less:
  fixes f g :: "'a \<Rightarrow> nat"
  assumes "finite A" "n \<in> A" "f n < g n" "\<forall>m. m \<noteq> n \<longrightarrow> f m = g m"
  shows "sum f A < sum g A"
proof (rule sum_strict_mono_ex1)
  show "\<forall>m \<in> A. f m \<le> g m" using assms(3,4) by (metis le_less)
qed (use assms in auto)

lemma startup_rank_step:
  assumes "startup_ok env tdeps" "confined env st" "startup_step env e st = Some st'"
  shows "startup_rank env st' < startup_rank env st"
proof -
  note confined' = confined_step[OF assms]
  consider (c) "creation_moved env st st'" | (r) "readiness_moved env st st'" | (e) "run_ended st st'"
    using startup_moves[OF assms(3)] by blast
  then show ?thesis
  proof cases
    case c
    then obtain n s where n: "su_create st' = (su_create st)(n := s)" "su_ready st' = su_ready st" "su_phase st' = su_phase st"
      "create_rank s < create_rank (su_create st n)" by (auto simp: creation_moved_def)
    with assms(2) confined' have "n \<in> set (task_names_of env)" unfolding confined_def by (metis fun_upd_same less_irrefl)
    with n show ?thesis unfolding startup_rank_def running_def
      by - (rule add_less_le_mono, rule sum_one_less[of _ n], auto)
  next
    case r
    then obtain n s where n: "su_ready st' = (su_ready st)(n := s)" "su_create st' = su_create st" "su_phase st' = su_phase st"
      "ready_rank (length (commands_of env n)) s < ready_rank (length (commands_of env n)) (su_ready st n)"
      by (auto simp: readiness_moved_def)
    with assms(2) confined' have "n \<in> set (task_names_of env)" unfolding confined_def by (metis fun_upd_same less_irrefl)
    with n show ?thesis unfolding startup_rank_def running_def
      by - (rule add_less_le_mono, rule sum_one_less[of _ n], auto)
  qed (simp add: startup_rank_def run_ended_def)
qed

section \<open>The cap\<close>

definition within_cap :: "'e startup_env \<Rightarrow> 'e startup_state \<Rightarrow> bool" where
  "within_cap env st \<longleftrightarrow> (\<forall>k. se_max_parallelism env = Some k \<longrightarrow> permits_held env st \<le> k)"

lemma count_changed:
  assumes "distinct xs" "\<forall>m. m \<noteq> n \<longrightarrow> P' m = P m"
  shows "length (filter P' xs) \<le> length (filter P xs) + (if P' n \<and> \<not> P n then 1 else 0)"
  using assms
proof (induction xs)
  case (Cons x xs)
  show ?case
  proof (cases "x = n")
    case True
    then have "filter P' xs = filter P xs" using Cons.prems by (intro filter_cong refl) (metis distinct.simps(2))
    with True show ?thesis by simp
  qed (use Cons in auto)
qed simp

lemma within_cap_step:
  assumes "startup_ok env tdeps" "within_cap env st" "startup_step env e st = Some st'"
  shows "within_cap env st'"
proof -
  note distinct = startup_ok_facts(6)[OF assms(1)]
  let ?c = "\<lambda>st. length (filter (\<lambda>n. creating (su_create st n)) (task_names_of env))"
  let ?r = "\<lambda>st. length (filter (\<lambda>n. asking_daemon (su_ready st n)) (task_names_of env))"
  consider (c) "creation_moved env st st'" | (r) "readiness_moved env st st'" | (e) "run_ended st st'"
    using startup_moves[OF assms(3)] by blast
  then show ?thesis
  proof cases
    case c
    then obtain n s where n: "su_create st' = (su_create st)(n := s)" "su_ready st' = su_ready st"
      "creating s \<longrightarrow> creating (su_create st n) \<or> permit_free env st" by (auto simp: creation_moved_def)
    have "?c st' \<le> ?c st + (if creating (su_create st' n) \<and> \<not> creating (su_create st n) then 1 else 0)"
      by (rule count_changed[OF distinct]) (simp add: n)
    then have "permits_held env st' \<le> permits_held env st + (if creating (su_create st' n) \<and> \<not> creating (su_create st n) then 1 else 0)"
      using n(2) by (simp add: permits_held_def)
    with n(1,3) assms(2) show ?thesis by (auto simp: within_cap_def permit_free_def split: if_splits option.splits)
  next
    case r
    then obtain n s where n: "su_ready st' = (su_ready st)(n := s)" "su_create st' = su_create st"
      "asking_daemon s \<longrightarrow> asking_daemon (su_ready st n) \<or> permit_free env st" by (auto simp: readiness_moved_def)
    have "?r st' \<le> ?r st + (if asking_daemon (su_ready st' n) \<and> \<not> asking_daemon (su_ready st n) then 1 else 0)"
      by (rule count_changed[OF distinct]) (simp add: n)
    then have "permits_held env st' \<le> permits_held env st + (if asking_daemon (su_ready st' n) \<and> \<not> asking_daemon (su_ready st n) then 1 else 0)"
      using n(2) by (simp add: permits_held_def)
    with n(1,3) assms(2) show ?thesis by (auto simp: within_cap_def permit_free_def split: if_splits option.splits)
  qed (use assms(2) in \<open>simp add: within_cap_def permits_held_def run_ended_def\<close>)
qed

section \<open>Something is always due\<close>

definition startup_over :: "'e startup_env \<Rightarrow> 'e startup_state \<Rightarrow> bool" where
  "startup_over env st \<longleftrightarrow> \<not> running st \<and> list_all (\<lambda>n. \<not> creating (su_create st n)) (task_names_of env)"

fun stops_run :: "'e startup_event \<Rightarrow> bool" where
  "stops_run (Signal_Arrived _) = True"
| "stops_run _ = False"

definition due :: "'e startup_env \<Rightarrow> 'e startup_state \<Rightarrow> bool" where
  "due env st \<longleftrightarrow> (\<exists>e st'. \<not> stops_run e \<and> startup_step env e st = Some st')"

lemma dueI: "running st \<Longrightarrow> \<not> stops_run e \<Longrightarrow> sent_step env e st = None \<Longrightarrow> running_step env e st \<noteq> None \<Longrightarrow> due env st"
  unfolding due_def startup_step_def by (intro exI[of _ e]) auto

lemma due_sent: "\<not> stops_run e \<Longrightarrow> sent_step env e st \<noteq> None \<Longrightarrow> due env st"
  unfolding due_def startup_step_def by (intro exI[of _ e]) auto

lemma with_configI: "config_of env n = Some c \<Longrightarrow> with_config env n f = f c"
  by (simp add: with_config_def)

lemma creating_due:
  assumes "config_of env n = Some c" "creating (su_create st n)"
  shows "due env st"
proof (cases "su_create st n")
  case (Creating spec)
  then show ?thesis by (intro due_sent[of "Create_Answer n (Inr [])"]) (simp_all add: with_configI[OF assms(1)])
next
  case (Applying_Identity i spec)
  then show ?thesis by (intro due_sent[of "Identity_Answer n [] (Inr ())"]) (simp_all add: with_configI[OF assms(1)])
qed (use assms in simp_all)

lemma asking_due:
  assumes "running st" "config_of env n = Some c" "asking_daemon (su_ready st n)"
  shows "due env st"
proof (cases "su_ready st n")
  case (Starting i spec)
  then show ?thesis by (intro dueI[OF assms(1), of "Start_Answer n (Inr ())"]) (simp_all add: with_configI[OF assms(2)])
next
  case (Executing i spec k)
  then show ?thesis
    by (intro dueI[OF assms(1), of "Exec_Answer n (Inr \<lparr>er_exit_code = 0, er_output = []\<rparr>)"]) (simp_all add: with_configI[OF assms(2)])
qed (use assms in simp_all)

text \<open>Nothing under way at the daemon, so a permit is free: every creation that is not done goes on, or waits for another.\<close>

lemma creation_due:
  assumes "running st" "config_of env n = Some c" "permit_free env st" "\<not> creating (su_create st n)" "n \<in> set (task_names_of env)"
    and undone: "\<nexists>r. su_create st n = Create_Done r"
    and target: "\<And>t. network_target c = Some t \<Longrightarrow> \<exists>r. su_create st t = Create_Done r"
  shows "due env st"
proof (cases "su_create st n")
  case Uncreated
  with assms(5) show ?thesis by (intro dueI[OF assms(1), of "Begin_Create n"]) (simp_all add: wants_defs)
next
  case Asking_Host_User
  then show ?thesis by (intro dueI[OF assms(1), of "Host_User_Answer n (Inr None)"]) simp_all
next
  case (Asking_Class u)
  then show ?thesis by (intro dueI[OF assms(1), of "Class_Answer n (Inr Desktop)"]) (simp_all add: with_configI[OF assms(2)])
next
  case (Resolving_Image u)
  then show ?thesis by (intro dueI[OF assms(1), of "Image_Answer n (Inr [])"]) (simp_all add: with_configI[OF assms(2)])
next
  case (Awaiting_Target u i)
  have "target_created env c st \<noteq> None" using target by (cases "network_target c") (auto simp: target_created_def)
  then have "prepare_create env n c u i current ans st \<noteq> None" for current ans
    by (auto simp: prepare_create_def split: sum.splits prod.splits)
  with Awaiting_Target show ?thesis by (intro dueI[OF assms(1), of "Prepare n undefined undefined"]) (simp_all add: with_configI[OF assms(2)])
next
  case (Awaiting_Create_Permit spec)
  with assms(3) show ?thesis by (intro dueI[OF assms(1), of "Create_Permit n"]) (simp_all add: with_configI[OF assms(2)])
qed (use assms in auto)


lemma dependencies_due:
  assumes "running st" "su_ready st n = Awaiting_Dependencies" "n \<in> set (task_names_of env)"
    and settled: "\<forall>d \<in> set (graph_succs (se_graph env) n). su_ready st d = Not_Reached \<or> (\<exists>r. su_ready st d = Ready_Done r)"
  shows "due env st"
proof -
  let ?ds = "set (graph_succs (se_graph env) n)"
  consider (ready) "\<forall>d \<in> ?ds. is_ready (su_ready st d)" | (new) d where "d \<in> ?ds" "su_ready st d = Not_Reached"
    | (failed) d e where "d \<in> ?ds" "su_ready st d = Ready_Done (Inl e)"
    using settled by (metis is_ready_iff sum.exhaust)
  then show ?thesis
  proof cases
    case ready
    then show ?thesis by (intro dueI[OF assms(1), of "Dependencies_Ready n"]) (simp_all add: assms(2) list_all_iff)
  next
    case (new d)
    then show ?thesis using assms(2,3) by (intro dueI[OF assms(1), of "Begin_Ready d"]) (auto simp: wants_defs)
  next
    case (failed d e)
    then show ?thesis by (intro dueI[OF assms(1), of "Dependency_Failed n d"]) (simp_all add: assms(2))
  qed
qed

lemma readiness_due:
  assumes "running st" "config_of env n = Some c" "permit_free env st" "\<not> asking_daemon (su_ready st n)" "n \<in> set (task_names_of env)"
    and stage: "stage_ok env st n (su_ready st n)" and created: "su_create st n = Create_Done r"
    and under_way: "su_ready st n \<noteq> Not_Reached" "\<nexists>r. su_ready st n = Ready_Done r"
    and settled: "\<forall>d \<in> set (graph_succs (se_graph env) n). su_ready st d = Not_Reached \<or> (\<exists>r. su_ready st d = Ready_Done r)"
  shows "due env st"
proof -
  have c: "conf env n = c" using assms(2) by (simp add: conf_def config_of_def)
  show ?thesis
  proof (cases "su_ready st n")
    case Awaiting_Dependencies
    then show ?thesis by (rule dependencies_due[OF assms(1) _ assms(5) settled])
  next
    case Awaiting_Created
    then show ?thesis by (intro dueI[OF assms(1), of "Created_Awaited n"]) (simp_all add: created)
  next
    case (Awaiting_Start_Permit i spec)
    with assms(3) show ?thesis by (intro dueI[OF assms(1), of "Start_Permit n"]) (simp_all add: with_configI[OF assms(2)])
  next
    case (Awaiting_Exit i)
    then show ?thesis by (intro dueI[OF assms(1), of "Exit_Answer n (Inr 0)"]) (simp_all add: with_configI[OF assms(2)])
  next
    case (Reading_Output i)
    with stage c show ?thesis by (intro dueI[OF assms(1), of "Output_Answer n (Inr [])"]) (simp_all add: with_configI[OF assms(2)])
  next
    case (Awaiting_Health i spec)
    then show ?thesis by (intro dueI[OF assms(1), of "Health_Answer n (Inr ())"]) (simp_all add: with_configI[OF assms(2)])
  next
    case (Awaiting_Exec_Permit i spec k)
    with stage have "send_exec env n c i spec k st \<noteq> None"
      by (auto simp: send_exec_def commands_conf[of c env n, OF c[symmetric]] split: sum.splits)
    with Awaiting_Exec_Permit assms(3) show ?thesis
      by (intro dueI[OF assms(1), of "Exec_Permit n"]) (simp_all add: with_configI[OF assms(2)])
  qed (use assms in auto)
qed

text \<open>With everything created and everything asked for settled, the joins answer.\<close>

lemma join_due:
  assumes "running st" and created: "\<forall>n \<in> set (task_names_of env). \<exists>r. su_create st n = Create_Done r"
    and settled: "\<forall>d \<in> set (graph_succs (se_graph env) (root_of env)). su_ready st d = Not_Reached \<or> (\<exists>r. su_ready st d = Ready_Done r)"
  shows "due env st"
proof -
  let ?ds = "set (graph_succs (se_graph env) (root_of env))"
  consider (new) d where "d \<in> ?ds" "su_ready st d = Not_Reached" | (failed) d e where "d \<in> ?ds" "su_ready st d = Ready_Done (Inl e)"
    | (refused) n e where "n \<in> set (task_names_of env)" "su_create st n = Create_Done (Inl e)"
    | (joined) "\<forall>d \<in> ?ds. is_ready (su_ready st d)" "\<forall>n \<in> set (task_names_of env). is_created (su_create st n)"
    using created settled by (metis is_ready_iff is_created_iff sum.exhaust surj_pair)
  then show ?thesis
  proof cases
    case (new d)
    then show ?thesis by (intro dueI[OF assms(1), of "Begin_Ready d"]) (simp_all add: wants_defs)
  next
    case (failed d e)
    then show ?thesis by (intro dueI[OF assms(1), of "Readiness_Failed d"]) simp_all
  next
    case (refused n e)
    then show ?thesis by (intro dueI[OF assms(1), of "Creation_Failed n"]) simp_all
  next
    case joined
    then show ?thesis by (intro dueI[OF assms(1), of Joined]) (simp_all add: list_all_iff)
  qed
qed

lemma permit_free_idle:
  assumes "startup_ok env tdeps" "\<forall>n \<in> set (task_names_of env). \<not> creating (su_create st n)"
    "\<forall>n \<in> set (task_names_of env). \<not> asking_daemon (su_ready st n)"
  shows "permit_free env st"
proof -
  have "permits_held env st = 0" using assms(2,3) by (simp add: permits_held_def)
  with assms(1) show ?thesis by (auto simp: permit_free_def startup_ok_def split: option.splits)
qed

lemma idle_due:
  assumes ok: "startup_ok env tdeps" and stages: "stages_ok env st" and run: "running st"
    and idle: "\<forall>n \<in> set (task_names_of env). \<not> creating (su_create st n) \<and> \<not> asking_daemon (su_ready st n)"
  shows "due env st"
proof -
  let ?N = "set (task_names_of env)"
  note facts = startup_ok_facts[OF ok]
  have free: "permit_free env st" using idle permit_free_idle[OF ok] by blast
  obtain f :: "string \<Rightarrow> nat" where f: "\<And>a b. b \<in> set (graph_succs (se_graph env) a) \<Longrightarrow> f b < f a"
    using topological_rank[OF facts(1)] by blast
  let ?undone = "\<lambda>n. n \<in> ?N \<and> (\<nexists>r. su_create st n = Create_Done r)"
  let ?under_way = "\<lambda>n. n \<in> ?N \<and> su_ready st n \<noteq> Not_Reached \<and> (\<nexists>r. su_ready st n = Ready_Done r)"
  show ?thesis
  proof (cases "\<exists>n. ?undone n")
    case True
    then obtain n where n: "?undone n" and least: "\<And>m. ?undone m \<Longrightarrow> f n \<le> f m"
      using ex_has_least_nat[of ?undone _ f] by blast
    from n facts(2) obtain c where c: "config_of env n = Some c" by blast
    have "\<exists>r. su_create st t = Create_Done r" if "network_target c = Some t" for t
      using facts(3)[of n c t] facts(4) f least[of t] n c that by fastforce
    with n c idle show ?thesis by (intro creation_due[OF run c free]) auto
  next
    case created: False
    show ?thesis
    proof (cases "\<exists>n. ?under_way n")
      case True
      then obtain n where n: "?under_way n" and least: "\<And>m. ?under_way m \<Longrightarrow> f n \<le> f m"
        using ex_has_least_nat[of ?under_way _ f] by blast
      have settled: "su_ready st d = Not_Reached \<or> (\<exists>r. su_ready st d = Ready_Done r)" if "d \<in> set (graph_succs (se_graph env) n)" for d
        using facts(4)[OF that] f[OF that] least[of d] by fastforce
      from n created facts(2) obtain c r where "config_of env n = Some c" "su_create st n = Create_Done r" by blast
      with n settled idle stages show ?thesis
        by (intro readiness_due[OF run _ free]) (auto simp: stages_ok_def)
    next
      case False
      with created facts(4) show ?thesis by (intro join_due[OF run]) blast+
    qed
  qed
qed

lemma something_due:
  assumes ok: "startup_ok env tdeps" and stages: "stages_ok env st" and "\<not> startup_over env st"
  shows "due env st"
proof (cases "\<exists>n \<in> set (task_names_of env). creating (su_create st n)")
  case True
  then show ?thesis using startup_ok_facts(2)[OF ok] creating_due by blast
next
  case False
  with assms(3) have run: "running st" by (auto simp: startup_over_def list_all_iff)
  show ?thesis
  proof (cases "\<exists>n \<in> set (task_names_of env). asking_daemon (su_ready st n)")
    case True
    then show ?thesis using startup_ok_facts(2)[OF ok] asking_due[OF run] by blast
  qed (use False idle_due[OF ok stages run] in blast)
qed

section \<open>The startup ends\<close>

text \<open>The contract of a machine that ends, for every environment the loader accepts.\<close>

interpretation startup_machine: terminating_machine "startup_step env" "start_startup key warned"
    "\<lambda>st. startup_ok env tdeps \<longrightarrow> confined env st \<and> stages_ok env st \<and> within_cap env st"
    "\<lambda>e. stops_run e \<or> \<not> startup_ok env tdeps" "\<lambda>st. if startup_ok env tdeps then startup_rank env st else 0"
    "\<lambda>st. startup_ok env tdeps \<longrightarrow> startup_over env st" for env key warned tdeps
proof unfold_locales
  show "startup_ok env tdeps \<longrightarrow> confined env (start_startup key warned) \<and> stages_ok env (start_startup key warned) \<and>
      within_cap env (start_startup key warned)"
    by (simp add: confined_def stages_ok_def within_cap_def permits_held_def start_startup_def)
  show "(if startup_ok env tdeps then startup_rank env st' else 0) \<le> (if startup_ok env tdeps then startup_rank env st else 0)"
    if "startup_ok env tdeps \<longrightarrow> confined env st \<and> stages_ok env st \<and> within_cap env st" "startup_step env e st = Some st'" for st e st'
    using that startup_rank_step[of env tdeps st e st'] by auto
qed (use confined_step stages_ok_step within_cap_step startup_rank_step something_due in
    \<open>auto simp: due_def\<close>)



end
