(* ===== verification/Startup_Example.thy ===== *)
theory Startup_Example
  imports Startup_End Startup_Progress
begin

text \<open>
  Two runs of one task, evaluated: one in which a setup command exits with a code, and one that a signal cuts short while
  a create is unanswered, with the cleanup that follows.
\<close>

section \<open>The runs\<close>

text \<open>A web server and a probe in its network namespace; the server has one setup command.\<close>

definition example_setup :: setup_command where
  "example_setup = \<lparr>sc_command = ''seed'', sc_working_directory = None, sc_run_in = None\<rparr>"

definition example_startup :: "unit startup_env" where
  "example_startup = \<lparr>se_context = example_context\<lparr>rc_containers :=
       [(''web'', example_service\<lparr>setup_commands := Some [example_setup]\<rparr>), (''probe'', example_probe)]\<rparr>,
     se_graph = [(''web'', []), (''probe'', [''web''])], se_max_parallelism = Some 1, se_progress_detail = False,
     se_debug = (\<lambda>_. []), se_cache_options = \<lparr>ca_type = Volume_Cache, ca_project_directory = ''/p''\<rparr>\<rparr>"

definition example_startup_events :: "unit startup_event list" where
  "example_startup_events = [Begin_Create ''web'', Begin_Ready ''web'', Image_Answer ''web'' (Inr ''sha256:1''),
     Prepare ''web'' (Inl ()) example_answers, Create_Permit ''web'', Create_Answer ''web'' (Inr ''w1''), Dependencies_Ready ''web'',
     Identity_Answer ''web'' [] (Inr ()), Created_Awaited ''web'', Start_Permit ''web'', Start_Answer ''web'' (Inr ()),
     Health_Answer ''web'' (Inr ()), Exec_Permit ''web'', Exec_Answer ''web'' (Inr \<lparr>er_exit_code = 1, er_output = []\<rparr>), Readiness_Failed ''web'']"

definition example_cut_short :: "unit startup_event list" where
  "example_cut_short = [Begin_Create ''web'', Image_Answer ''web'' (Inr ''sha256:1''), Prepare ''web'' (Inl ()) example_answers,
     Create_Permit ''web'', Signal_Arrived Interrupt, Create_Answer ''web'' (Inr ''w1'')]"



lemma example_run_end:
  "map_option (\<lambda>st. case su_phase st of Ended_With e \<Rightarrow> cause_of_cleanup ''check'' (Inl e) | _ \<Rightarrow> None)
     (run_events (startup_step example_startup) example_startup_events (start_startup None {})) =
     Some (Some (Setup_Command_Exited ''web'' 1 1))"
  by code_simp

lemma example_reached:
  obtains st e where "machine_reach (startup_step example_startup) (start_startup None {}) st" "su_phase st = Ended_With e"
    "cause_of_cleanup ''check'' (Inl e) = Some (Setup_Command_Exited ''web'' 1 1)"
proof -
  from example_run_end obtain st where run: "run_events (startup_step example_startup) example_startup_events (start_startup None {}) = Some st"
    and st: "(case su_phase st of Ended_With e \<Rightarrow> cause_of_cleanup ''check'' (Inl e) | _ \<Rightarrow> None) = Some (Setup_Command_Exited ''web'' 1 1)"
    by auto
  from st obtain e where "su_phase st = Ended_With e" "cause_of_cleanup ''check'' (Inl e) = Some (Setup_Command_Exited ''web'' 1 1)"
    by (auto split: startup_phase.splits)
  then show thesis using that run_events_reach[OF reach_start run] by blast
qed


lemma example_started:
  "map_option (\<lambda>st. list_ex (\<lambda>x. case x of Start_Sent n \<Rightarrow> n = ''web'' | _ \<Rightarrow> False) (su_log st))
     (run_events (startup_step example_startup) (take 10 example_startup_events) (start_startup None {})) = Some True"
  by code_simp

lemma example_started_run:
  "\<exists>st. machine_reach (startup_step example_startup) (start_startup None {}) st \<and> Start_Sent ''web'' \<in> set (su_log st)"
proof -
  from example_started obtain st where run: "run_events (startup_step example_startup) (take 10 example_startup_events) (start_startup None {}) = Some st"
    and "list_ex (\<lambda>x. case x of Start_Sent n \<Rightarrow> n = ''web'' | _ \<Rightarrow> False) (su_log st)" by auto
  then obtain x where "x \<in> set (su_log st)" "case x of Start_Sent n \<Rightarrow> n = ''web'' | _ \<Rightarrow> False" by (auto simp: list_ex_iff)
  then have "Start_Sent ''web'' \<in> set (su_log st)" by (cases rule: startup_log.exhaust[of x]) auto
  with run_events_reach[OF reach_start run] show ?thesis by blast
qed

theorem startup_order_witness:
  "\<exists>st. machine_reach (startup_step example_startup) (start_startup None {}) st \<and> orderly_startup example_startup (su_log st) \<and>
     Start_Sent ''web'' \<in> set (su_log st)"
  using example_started_run startup_order by blast

lemma example_cut_run:
  "map_option (\<lambda>st. (su_created st, su_started st))
     (run_events (startup_step example_startup) example_cut_short (start_startup None {})) = Some ([(''web'', ''w1'')], {})"
  by code_simp

definition example_cut_cleanup :: cleanup_env where
  "example_cut_cleanup = \<lparr>ce_graph = se_graph example_startup, ce_containers = rc_containers (se_context example_startup),
     ce_root = root_of example_startup, ce_created = [(''web'', ''w1'')], ce_started = {}, ce_network = None,
     ce_tracker = record_signal Interrupt new_tracker, ce_interrupted_by = Some Interrupt\<rparr>"

lemma example_cut_cleaned:
  "map_option (\<lambda>st. (cs_phase st, cs_removed st))
     (run_events (cleanup_step example_cut_cleanup) [Turn, Stop_Answer ''w1'' (Inr ()), Turn, Turn, Turn, Turn] (start_cleanup example_cut_cleanup)) =
     Some (Finished, {''w1''})"
  by code_simp

lemma example_startup_graph:
  "build_dependency_graph (rc_containers (se_context example_startup)) (root_of example_startup) None = Inr (se_graph example_startup)"
  by code_simp

theorem created_containers_accounted_witness:
  "\<exists>st fin. run_events (startup_step example_startup) example_cut_short (start_startup None {}) = Some st \<and>
     (''w1'' \<in> cs_removed fin \<or> (''web'', ''w1'') \<in> set (lb_containers (left_of example_cut_cleanup fin))) \<and>
     (\<forall>n spec. Create_Sent n spec \<in> set (su_log st) \<longrightarrow>
        (\<exists>i. Created_With_Id n i \<in> set (su_log st)) \<or> Create_Refused n \<in> set (su_log st) \<or> n \<in> set (unanswered st))"
proof -
  from example_cut_run obtain st where run: "run_events (startup_step example_startup) example_cut_short (start_startup None {}) = Some st"
    and st: "su_created st = [(''web'', ''w1'')]" "su_started st = {}" by auto
  note reach = run_events_reach[OF reach_start run]
  have ids: "a = b" if "Created_With_Id a i \<in> set (su_log st)" "Created_With_Id b i \<in> set (su_log st)" for a b i
    using that created_facts(1)[OF reach, of a i] created_facts(1)[OF reach, of b i] by (simp add: st(1) im_get_def split: if_splits)
  have env: "cleanup_of example_startup None (record_signal Interrupt new_tracker) (Some Interrupt) st = example_cut_cleanup"
    by (simp add: cleanup_of_def example_cut_cleanup_def st(1,2))
  have made: "(''web'', ''w1'') \<in> set (List.map_filter made_by example_cut_short)"
    by (simp add: example_cut_short_def in_map_filter)
  from example_cut_cleaned obtain fin where "run_events (cleanup_step example_cut_cleanup)
      [Turn, Stop_Answer ''w1'' (Inr ()), Turn, Turn, Turn, Turn] (start_cleanup example_cut_cleanup) = Some fin" "cs_phase fin = Finished" by auto
  then have "cleanup_reach example_cut_cleanup fin" "cs_phase fin = Finished" by (blast intro: cleanup_run_reach)+
  from created_containers_accounted[OF run example_startup_graph _ this[folded env]] ids made run show ?thesis
    unfolding env by blast
qed

lemma example_startup_ok: "startup_ok example_startup None"
proof -
  have "t \<in> set (or_empty (dependencies c))" if "config_of example_startup n = Some c" "network_target c = Some t" for n c t
    using that by (auto simp: config_of_def example_startup_def im_get_def network_target_def example_defs split: if_splits)
  moreover have "se_max_parallelism example_startup = Some 1" by (simp add: example_startup_def)
  ultimately show ?thesis using example_startup_graph by (simp add: startup_ok_def)
qed



end
