(* ===== verification/Spec2Isabelle.thy ===== *)
theory Spec2Isabelle
  imports Expressions Config_Values Config_Model Config_Extends Config_Checks Health_Checks
    Command_Line Text_Output Task_Graph Task_Names Prerequisites Signals Cleanup Exit_Codes Proxy
    Labels Container_Spec Create_Request Daemon Images Output_Lines Build_Output User_Files Identity
    Build_Context Caches Startup_Example
begin

text \<open>
  A verification development for \<^bold>\<open>ratect\<close>, a task runner that runs each task of a project in Docker
  containers described by a configuration file.

  \<^bold>\<open>The program.\<close> \<open>ratect-core\<close> holds the program; \<open>ratect\<close> and \<open>ratect-compat\<close> are two command-line front
  ends over it. A run goes through these parts. The loader (\<open>config.rs\<close>) reads a project's files into
  a \<open>Config\<close>, parses each value by its own grammar, resolves \<open>extends\<close>, checks the whole project, and
  expands external health checks into companion containers. Expressions (\<open>expressions.rs\<close>) in values are
  checked at load and evaluated per task. The engine (\<open>engine.rs\<close>) finds the requested task, checks
  its prerequisites, runs each in order, and for a task with a \<open>run\<close> builds the container graph, starts
  dependencies first and stops dependents first. The Docker layer (\<open>docker.rs\<close>) turns commands into
  arguments; everything printed goes through the escaping rule of \<open>ui.rs\<close>.

  \<^bold>\<open>The theories\<close>, in import order, with the code under \<open>src/ratect-core/src\<close> they model.

  \<^item> \<open>Ratect_Prelude\<close>: Rust's \<open>Result\<close> as a sum, \<open>?\<close> as \<open>rbind\<close>, fallible loops as \<open>fold_res\<close>, \<open>each_res\<close> and
    \<open>map_res\<close> with their invariant rules, \<open>IndexMap\<close> as an association list.
  \<^item> \<open>Rust_Std\<close>: the string and number functions of Rust's standard library that the code calls.
  \<^item> \<open>Digraphs\<close>: the locales \<open>finite_digraph\<close> and \<open>functional_digraph\<close>, the interface of every graph the program
    walks. They are interpreted on the container dependencies (\<open>Config_Model\<close>), the \<open>extends\<close> parents
    (\<open>Config_Extends\<close>), the shared networks (\<open>Config_Checks\<close>), the graph of one task and the graph built for
    it (\<open>Task_Graph\<close>), and the task prerequisites (\<open>Prerequisites\<close>).
  \<^item> \<open>Expressions\<close> (\<open>expressions.rs\<close>): the token grammar, \<open>scan\<close> with the four walks over it, the two
    escapings. The specification splits a value into literal and reference pieces; evaluation, syntax
    check, detection and reference listing are shown to agree on them, and escaping to be undone by
    evaluation.
  \<^item> \<open>Config_Values\<close> (\<open>config.rs\<close>): ports, volumes, devices, sizes, limits, network modes, names and health check
    objects: what each grammar accepts, round trips, bounds on 16-bit ports and 64-bit sizes.
  \<^item> \<open>Text_Output\<close> (\<open>ui.rs\<close>): \<open>printable\<close>, \<open>escape_controls\<close> and \<open>Text\<close>: no control character from configuration
    reaches the terminal.
  \<^item> \<open>Config_Model\<close> (\<open>config.rs\<close>): \<open>Config\<close>, \<open>Container\<close> with all its fields, \<open>Task\<close>; \<open>container_names_in_task\<close> is
    the reachable set; the quiet task listing can be parsed back.
  \<^item> \<open>Config_Extends\<close> (\<open>config.rs\<close>): \<open>resolve_extends\<close> is the merge along the \<open>extends\<close> chain and fails exactly on an
    undefined parent or a cycle.
  \<^item> \<open>Config_Checks\<close> (\<open>config.rs\<close>): the checks after \<open>extends\<close> and the declarative predicate they decide; the walk
    to the owner of a shared network.
  \<^item> \<open>Command_Line\<close> (\<open>docker.rs\<close>): the tokenizer reads back what was quoted and refuses exactly unbalanced
    input; \<open>build_cmd\<close>.
  \<^item> \<open>Health_Checks\<close> (\<open>config.rs\<close>): the companion's script is one argument to its shell, and the expansion makes
    every dependent wait, loses nothing and keeps the graph acyclic.
  \<^item> \<open>Task_Graph\<close> (\<open>engine.rs\<close>): the built graph is complete and acyclic, its refusals truthful; who waits for
    whom at stopping, and that this never deadlocks.
  \<^item> \<open>Task_Names\<close> (\<open>engine.rs\<close>): the two-row edit distance is the least number of edits; the suggestions.
  \<^item> \<open>Prerequisites\<close> (\<open>engine.rs\<close>): wildcards, the order check, and the run: histories are valid whatever fails,
    and after the check a run ends by success, a signal or a task's own failure only.
  \<^item> \<open>Machines\<close>: state machines driven by events; the locales \<open>event_machine\<close> (an invariant) and
    \<open>terminating_machine\<close> (a rank that the machine's own events lower), interpreted on the cleanup.
  \<^item> \<open>Signals\<close> (\<open>interrupt.rs\<close>): the tracker with the atomic operations of a recording; waiting for signals never
    misses a wake-up, whatever the interleaving.
  \<^item> \<open>Cleanup\<close> (\<open>engine.rs\<close>, the end of \<open>run_task_internal\<close>): the cleanup ladder as a state machine over the daemon's
    answers, signals and the code's turns: order, escalation, abandonment, what is reported, termination.

  \<^bold>\<open>Conventions.\<close> A Rust \<open>char\<close> is a HOL \<open>char\<close>, so text is modelled on the scalar values U+0000 to U+00FF; the
  character classes are Rust's on that range. A \<open>HashMap\<close> or \<open>BTreeMap\<close> is an association list too, and a
  \<open>HashSet\<close> a set. Errors are constructors that carry what the message quotes; a panic of the source
  (\<open>expect\<close>, indexing) is an error constructor of its own and shown unreachable. Durations are whole
  nanoseconds. A \<open>Vec\<close> that a recursive function pushes to before and pops from after its recursive calls is
  an argument. Every recursive definition has a termination proof, so no fuel is used: the walks end
  because the path they carry holds distinct declared names.

  \<^bold>\<open>Parameters.\<close> The \<open>regex\<close> crate is an argument where it is used (\<open>is_match\<close>, \<open>regex_crate\<close>), with the meaning of
  the patterns the program builds as a named hypothesis (\<open>matches_name_pattern\<close>, \<open>escapes_literally\<close>). The
  rendering of a duration that is not whole seconds, an \<open>f64\<close> format, is the argument \<open>format_fraction\<close>. What a
  task does on Docker is the argument \<open>run_own\<close> of a run, and signals are a counter read at clock times.

  \<^bold>\<open>Not modelled\<close> so far: reading YAML and TOML, durations, \<open>check_values\<close> and the Batect-only rejections, the
  Docker API calls and the asynchronous start, readiness and cleanup of containers, includes and git,
  caches, proxies, registry authentication, the terminal interface, and the two binaries. The plan
  takes next, in this order: exit codes and labels, the \<open>.dockerignore\<close> matcher, the interrupt ladder as a
  state machine, include trust, the container specification, and the load-time checks before \<open>extends\<close>.
\<close>

end
